(* ===== verification/FM_Prelude.thy ===== *)
theory FM_Prelude
  imports Main "HOL-Library.Word" "HOL-Library.Monad_Syntax" "HOL-Library.Multiset"
begin

unbundle bit_operations_syntax

text \<open>
  Shared vocabulary of the FASTMEM development: the machine types of
  \<^verbatim>\<open>fm_core.h\<close>, C memory copies, \<^verbatim>\<open>for\<close> loops in the option monad, and singly linked
  lists over an integer-indexed store.

  A call of a modelled C function has a result in \<open>option\<close>. \<open>Some\<close> is a return
  of the call. \<open>None\<close> is a call that does not return: it spins on a lock that is
  held, walks a cyclic chain, or touches memory that is not allocated.
\<close>

section \<open>Machine types and proof collections\<close>

type_synonym fm_u8 = "8 word"
type_synonym fm_u32 = "32 word"
type_synonym fm_u64 = "64 word"

text \<open>An \<^verbatim>\<open>fm_i32\<close> holds slot numbers only: it is an \<open>int\<close>, and every cast from
  an unsigned value is written out with \<open>fm_i32_of\<close>.\<close>

type_synonym fm_i32 = int

text \<open>A record image or a packed key: a byte buffer.\<close>

type_synonym image = "fm_u8 list"

named_theorems frame \<open>what an update of the table leaves unchanged\<close>
named_theorems locks \<open>how an update of the table changes the locks held\<close>

definition fm_i32_of :: "nat \<Rightarrow> fm_i32" where
  "fm_i32_of n = sint (of_nat n :: 32 word)"

definition u32 :: "nat \<Rightarrow> nat" where
  "u32 n = n mod 2 ^ 32"

lemma u32_small [simp]: "n < 2 ^ 32 \<Longrightarrow> u32 n = n"
  by (simp add: u32_def)

lemma fm_i32_of_small [simp]: "n < 2 ^ 31 \<Longrightarrow> fm_i32_of n = int n"
  by (simp add: fm_i32_of_def of_nat_word_less_iff signed_of_nat signed_take_bit_int_eq_self)

section \<open>Memory copies\<close>

text \<open>\<open>memcpy dst src n\<close> is the buffer \<open>dst\<close> after \<^verbatim>\<open>memcpy(dst, src, n)\<close>.\<close>

definition memcpy :: "image \<Rightarrow> image \<Rightarrow> nat \<Rightarrow> image" where
  "memcpy dst src n = take n src @ drop n dst"

lemma memcpy_full [simp]:
  "length src = n \<Longrightarrow> length dst \<le> n \<Longrightarrow> memcpy dst src n = src"
  by (simp add: memcpy_def)

section \<open>Loops in the option monad\<close>

text \<open>A \<^verbatim>\<open>for\<close> loop over a range of indices, its body a state transformer that may not
  return.\<close>

fun foldM :: "('a \<Rightarrow> 's \<Rightarrow> 's option) \<Rightarrow> 'a list \<Rightarrow> 's \<Rightarrow> 's option" where
  "foldM f [] s = Some s"
| "foldM f (x # xs) s = do { t \<leftarrow> f x s; foldM f xs t }"

lemma foldM_append: "foldM f (xs @ ys) s = do { t \<leftarrow> foldM f xs s; foldM f ys t }"
  by (induction xs arbitrary: s) (auto split: Option.bind_split)

text \<open>The loop rule: an invariant indexed by how many iterations have been done.\<close>

lemma foldM_upt:
  assumes "P 0 s"
    and "\<And>i t. i < n \<Longrightarrow> P i t \<Longrightarrow> \<exists>u. f i t = Some u \<and> P (Suc i) u"
  shows "\<exists>t. foldM f [0..<n] s = Some t \<and> P n t"
  using assms(2)
proof (induction n)
  case 0
  with assms(1) show ?case by simp
next
  case (Suc n)
  then obtain t where "foldM f [0..<n] s = Some t" "P n t"
    by (metis less_Suc_eq)
  with Suc.prems[of n t] show ?case by (auto simp: foldM_append)
qed

section \<open>Linked lists over a store\<close>

abbreviation FM_NULL_SLOT :: fm_i32 where "FM_NULL_SLOT \<equiv> -1"

text \<open>\<open>linked nxt h xs\<close>: following \<open>nxt\<close> from \<open>h\<close> visits the cells \<open>xs\<close>, in this
  order, and then stops at \<^verbatim>\<open>FM_NULL_SLOT\<close>.\<close>

fun linked :: "(fm_i32 \<Rightarrow> fm_i32 option) \<Rightarrow> fm_i32 \<Rightarrow> fm_i32 list \<Rightarrow> bool" where
  "linked nxt h [] \<longleftrightarrow> h = FM_NULL_SLOT"
| "linked nxt h (x # xs) \<longleftrightarrow>
     h = x \<and> 0 \<le> x \<and> (\<exists>n. nxt x = Some n \<and> linked nxt n xs)"

lemma linked_null [simp]: "linked nxt FM_NULL_SLOT xs \<longleftrightarrow> xs = []"
  by (cases xs) auto

lemma linked_cong: "(\<And>x. x \<in> set xs \<Longrightarrow> nxt x = nxt' x) \<Longrightarrow> linked nxt h xs = linked nxt' h xs"
  by (induction xs arbitrary: h) auto

lemma linked_unique: "linked nxt h xs \<Longrightarrow> linked nxt h ys \<Longrightarrow> xs = ys"
proof (induction xs arbitrary: h ys)
  case Nil
  then show ?case by simp
next
  case (Cons x xs)
  then show ?case by (cases ys) auto
qed

lemma linked_nonneg: "linked nxt h xs \<Longrightarrow> x \<in> set xs \<Longrightarrow> 0 \<le> x"
  by (induction xs arbitrary: h) auto

lemma linked_defined: "linked nxt h xs \<Longrightarrow> x \<in> set xs \<Longrightarrow> nxt x \<noteq> None"
  by (induction xs arbitrary: h) auto

lemma linked_suffix: "linked nxt h (xs @ y # ys) \<Longrightarrow> linked nxt y (y # ys)"
  by (induction xs arbitrary: h) auto

text \<open>A chain that ends visits no cell twice.\<close>

lemma linked_distinct: "linked nxt h xs \<Longrightarrow> distinct xs"
proof (induction xs arbitrary: h)
  case Nil
  show ?case by simp
next
  case (Cons x xs)
  then obtain n where n: "nxt x = Some n" "linked nxt n xs" by auto
  have "x \<notin> set xs"
  proof
    assume "x \<in> set xs"
    then obtain us vs where "xs = us @ x # vs" by (auto simp: in_set_conv_decomp)
    with n(2) have "linked nxt x (x # vs)" by (blast dest: linked_suffix)
    with n(1) have "linked nxt n vs" by simp
    with n(2) have "xs = vs" by (rule linked_unique)
    with \<open>xs = us @ x # vs\<close> show False by simp
  qed
  with Cons n show ?case by simp
qed

text \<open>
  The interface of an array of link cells: reading after writing. The free list
  (\<^verbatim>\<open>FM_SLOT::free_next\<close>) and every hash chain (\<^verbatim>\<open>FM_CHUNK::key_next\<close>) provide it.
\<close>

locale cell_store =
  fixes rd :: "'s \<Rightarrow> fm_i32 \<Rightarrow> fm_i32 option"
    and wr :: "'s \<Rightarrow> fm_i32 \<Rightarrow> fm_i32 \<Rightarrow> 's"
  assumes rd_wr: "rd (wr s i v) j = (if j = i \<and> rd s i \<noteq> None then Some v else rd s j)"
begin

lemma linked_wr_other:
  "i \<notin> set xs \<Longrightarrow> linked (rd (wr s i v)) h xs = linked (rd s) h xs"
  by (rule linked_cong) (auto simp: rd_wr)

text \<open>Pushing a cell at the head.\<close>

lemma linked_push:
  assumes "linked (rd s) h xs" and "i \<notin> set xs" and "0 \<le> i" and "rd s i \<noteq> None"
  shows "linked (rd (wr s i h)) i (i # xs)"
  using assms by (auto simp: rd_wr linked_wr_other)

text \<open>Cutting a cell out by overwriting the link of its predecessor.\<close>

lemma linked_cut:
  assumes "linked (rd s) h (xs @ p # y # ys)" and "rd s y = Some n"
  shows "linked (rd (wr s p n)) h (xs @ p # ys)"
proof -
  from assms(1) have d: "distinct (xs @ p # y # ys)" by (rule linked_distinct)
  from assms(1) have "linked (rd s) p (p # y # ys)" by (rule linked_suffix)
  with assms(2) have tail: "linked (rd s) n ys" and p: "rd s p \<noteq> None" "0 \<le> p" by auto
  then have tail': "linked (rd (wr s p n)) n ys"
    using d by (simp add: linked_wr_other)
  show ?thesis
    using assms(1) d tail' p
    by (induction xs arbitrary: h) (auto simp: rd_wr)
qed

end

section \<open>State machines\<close>

text \<open>A step relation with a property that its steps keep. The developments of concurrent calls and of sequences of calls are
  interpretations.\<close>

locale machine =
  fixes step :: "'s \<Rightarrow> 's \<Rightarrow> bool"
    and good :: "'s \<Rightarrow> bool"
  assumes step_good: "step s s' \<Longrightarrow> good s \<Longrightarrow> good s'"
begin

lemma reach_good: "step\<^sup>*\<^sup>* s s' \<Longrightarrow> good s \<Longrightarrow> good s'"
  by (induction rule: rtranclp_induct) (blast intro: step_good)+

text \<open>A run given as a function of time.\<close>

lemma path_run:
  assumes "\<And>n. n < N \<Longrightarrow> step (p n) (p (Suc n))"
  shows "step\<^sup>*\<^sup>* (p 0) (p N)"
  using assms
proof (induction N)
  case (Suc N)
  then show ?case by (meson less_SucI lessI rtranclp.rtrancl_into_rtrancl)
qed simp

end

text \<open>Runs of a machine whose steps carry a label, and simulations that keep the labels: what a run
  of the one machine shows to its callers is what a run of the other does.\<close>

inductive trace :: "('s \<Rightarrow> 'e \<Rightarrow> 's \<Rightarrow> bool) \<Rightarrow> 's \<Rightarrow> 'e list \<Rightarrow> 's \<Rightarrow> bool" for step where
  nil [simp, intro]: "trace step s [] s"
| cons: "step s e t \<Longrightarrow> trace step t es u \<Longrightarrow> trace step s (e # es) u"

lemma trace_fold:
  assumes "trace step s es s'" "\<And>s e s'. step s e s' \<Longrightarrow> f s' = g e (f s)"
  shows "f s' = fold g es (f s)"
  using assms(1) by (induction rule: trace.induct) (simp_all add: assms(2))

locale simulation =
  fixes step :: "'s \<Rightarrow> 'e \<Rightarrow> 's \<Rightarrow> bool"
    and spec :: "'a \<Rightarrow> 'e \<Rightarrow> 'a \<Rightarrow> bool"
    and abst :: "'s \<Rightarrow> 'a"
    and good :: "'s \<Rightarrow> bool"
  assumes keeps: "step s e s' \<Longrightarrow> good s \<Longrightarrow> good s'"
    and simulates: "step s e s' \<Longrightarrow> good s \<Longrightarrow> spec (abst s) e (abst s')"
begin

lemma trace_simulates: "trace step s es s' \<Longrightarrow> good s \<Longrightarrow> trace spec (abst s) es (abst s')"
  by (induction rule: trace.induct) (blast intro: trace.cons keeps simulates)+

end

end
