(* ===== verification/FM_State.thy ===== *)
theory FM_State
  imports FM_Prelude
begin

text \<open>
  The data model of \<^verbatim>\<open>fm_core.h\<close>: return codes, slots, keys, chunks and the share,
  the address computations \<^verbatim>\<open>fm_slot\<close>, \<^verbatim>\<open>fm_key_next\<close>, \<^verbatim>\<open>fm_bucket\<close>, and the
  spinlocks. Memory is an explicit store: a share maps chunk numbers to chunks, a chunk
  maps the 4096 cell numbers to slots and, per key, to chain links. Every access goes
  through an observer that yields \<open>None\<close> on memory that is not there.
\<close>

section \<open>Types and constants\<close>

text \<open>\<^verbatim>\<open>FM_CHUNK_SIZE\<close> is \<^verbatim>\<open>1u << FM_CHUNK_SHIFT\<close> with a shift of 12.\<close>

abbreviation FM_CHUNK_SIZE :: nat where "FM_CHUNK_SIZE \<equiv> 4096"
abbreviation FM_MAX_CHANGED_KEYS :: nat where "FM_MAX_CHANGED_KEYS \<equiv> 64"

datatype fm_err =
    FM_ERR_OK | FM_ERR_NOT_FOUND | FM_ERR_EOF | FM_ERR_DELETED
  | FM_ERR_DUP_KEY | FM_ERR_FULL | FM_ERR_NOMEM | FM_ERR_WRONG_KEY

datatype fm_slot_state =
    FM_SLOT_FREE | FM_SLOT_ACTIVE | FM_SLOT_DELETED | FM_SLOT_DELETING

text \<open>\<^verbatim>\<open>FM_SPIN\<close>: the flag is true while the lock is held. \<^verbatim>\<open>lock()\<close> on a held lock
  spins, and does not return unless another thread releases it.\<close>

type_synonym FM_SPIN = bool

definition spin_lock :: "FM_SPIN \<Rightarrow> FM_SPIN option" where
  "spin_lock f = (if f then None else Some True)"

definition spin_unlock :: "FM_SPIN \<Rightarrow> FM_SPIN" where
  "spin_unlock f = False"

definition spin_try_lock :: "FM_SPIN \<Rightarrow> FM_SPIN \<times> bool" where
  "spin_try_lock f = (True, \<not> f)"

text \<open>The slot header, and the record image that follows it in memory.\<close>

record FM_SLOT =
  sl_state :: fm_slot_state
  sl_wlock :: FM_SPIN
  sl_seq :: fm_u32
  sl_gen :: fm_u32
  sl_free_next :: fm_i32
  sl_data :: image

text \<open>The constructor \<^verbatim>\<open>FM_SLOT()\<close>. The image bytes are not initialised by it: a fresh
  slot has none.\<close>

definition new_FM_SLOT :: FM_SLOT where
  "new_FM_SLOT = \<lparr> sl_state = FM_SLOT_FREE, sl_wlock = False, sl_seq = 0, sl_gen = 0,
     sl_free_next = FM_NULL_SLOT, sl_data = [] \<rparr>"

text \<open>The key callbacks. A callback is the C function pointer applied to the user data
  \<^verbatim>\<open>ops.ud\<close>, and \<open>None\<close> is the null pointer.\<close>

record FM_KEY_OPS =
  hash_rec :: "(image \<Rightarrow> fm_u32) option"
  hash_key :: "(image \<Rightarrow> fm_u32) option"
  cmp_rec_rec :: "(image \<Rightarrow> image \<Rightarrow> int) option"
  cmp_rec_key :: "(image \<Rightarrow> image \<Rightarrow> int) option"
  has_null_part :: "(image \<Rightarrow> int) option"

text \<open>The arrays \<^verbatim>\<open>head\<close> and \<^verbatim>\<open>locks\<close>: \<open>None\<close> is the null pointer, an index outside
  the domain of the map is outside of the array.\<close>

record FM_KEY_CORE =
  kc_ops :: FM_KEY_OPS
  kc_unique :: bool
  kc_nbuckets :: fm_u32
  kc_head :: "(nat \<rightharpoonup> fm_i32) option"
  kc_locks :: "(nat \<rightharpoonup> FM_SPIN) option"

record FM_CHUNK =
  ch_slots :: "nat \<Rightarrow> FM_SLOT"
  ch_key_next :: "nat \<Rightarrow> nat \<Rightarrow> fm_i32"

text \<open>
  The share. \<^verbatim>\<open>ops.alloc\<close> is code of the caller: \<open>sc_alloc n size\<close> says whether the
  \<open>n\<close>-th allocation, of \<open>size\<close> bytes, yields memory. \<open>sc_nalloc\<close> counts the calls made
  and \<open>sc_live\<close> the blocks that have been allocated and not been freed. An entry of the
  chunk table is absent from \<open>sc_chunks\<close> while it is all zero.
\<close>

record FM_SHARE_CORE =
  sc_alloc :: "nat \<Rightarrow> nat \<Rightarrow> bool"
  sc_nalloc :: nat
  sc_live :: int
  sc_reclength :: nat
  sc_slot_size :: nat
  sc_keys :: nat
  sc_max_records :: nat
  sc_chunk_cap :: nat
  sc_chunks :: "(nat \<rightharpoonup> FM_CHUNK) option"
  sc_chunk_cnt :: nat
  sc_free_head :: fm_i32
  sc_records :: int
  sc_struct_mutex :: FM_SPIN
  sc_keydef :: "FM_KEY_CORE list option"
  sc_auto_inc :: fm_u64
  sc_auto_key :: nat
  sc_auto_key_type :: nat

section \<open>Inline helpers\<close>

definition fm_align8 :: "fm_u32 \<Rightarrow> fm_u32" where
  "fm_align8 x = (x + 7) AND NOT 7"

text \<open>\<^verbatim>\<open>sizeof(FM_SLOT)\<close> is 16, the sum of the layout that the source documents.\<close>

definition FM_SLOT_DATA_OFFSET :: nat where
  "FM_SLOT_DATA_OFFSET = unat ((16 + 7 :: fm_u32) AND NOT 7)"

definition chunk_at :: "FM_SHARE_CORE \<Rightarrow> fm_i32 \<Rightarrow> FM_CHUNK option" where
  "chunk_at s idx = do {
     cs \<leftarrow> sc_chunks s;
     if idx < 0 then None else cs (nat (idx div int FM_CHUNK_SIZE)) }"

definition cell_no :: "fm_i32 \<Rightarrow> nat" where
  "cell_no idx = nat (idx mod int FM_CHUNK_SIZE)"

text \<open>The cell number selects the slot within its chunk. The code multiplies it by the slot size in 32 bits; the product stays below \<open>2 ^ 32\<close> as long as a
  slot has at most 1 MB (\<open>4095 * 2 ^ 20 < 2 ^ 32\<close>). Records of the server have at most 65535 bytes. For larger slots the code would address a wrong
  place and the model does not apply.\<close>

definition fm_slot :: "FM_SHARE_CORE \<Rightarrow> fm_i32 \<Rightarrow> FM_SLOT option" where
  "fm_slot s idx = do { c \<leftarrow> chunk_at s idx; Some (ch_slots c (cell_no idx)) }"

definition fm_slot_data :: "FM_SHARE_CORE \<Rightarrow> fm_i32 \<Rightarrow> image option" where
  "fm_slot_data s idx = do { sl \<leftarrow> fm_slot s idx; Some (sl_data sl) }"

definition fm_key_next :: "FM_SHARE_CORE \<Rightarrow> nat \<Rightarrow> fm_i32 \<Rightarrow> fm_i32 option" where
  "fm_key_next s k idx = do { c \<leftarrow> chunk_at s idx; Some (ch_key_next c k (cell_no idx)) }"

definition fm_bucket :: "FM_KEY_CORE \<Rightarrow> fm_u32 \<Rightarrow> fm_u32" where
  "fm_bucket k h = h AND (kc_nbuckets k - 1)"

definition fm_core_slot_count :: "FM_SHARE_CORE \<Rightarrow> nat" where
  "fm_core_slot_count s = u32 (sc_chunk_cnt s * FM_CHUNK_SIZE)"

definition fm_core_key_bucket :: "FM_KEY_CORE \<Rightarrow> image \<Rightarrow> nat option" where
  "fm_core_key_bucket kc rec = do {
     h \<leftarrow> hash_rec (kc_ops kc); Some (unat (fm_bucket kc (h rec))) }"

section \<open>Stores\<close>

text \<open>Writes to the objects that the observers read. Each is applied after the observer
  has found the object.\<close>

definition upd_chunk :: "FM_SHARE_CORE \<Rightarrow> fm_i32 \<Rightarrow> (FM_CHUNK \<Rightarrow> FM_CHUNK) \<Rightarrow> FM_SHARE_CORE" where
  "upd_chunk s idx f = (case (sc_chunks s, chunk_at s idx) of
      (Some cs, Some c) \<Rightarrow> s\<lparr> sc_chunks := Some (cs(nat (idx div int FM_CHUNK_SIZE) \<mapsto> f c)) \<rparr>
    | _ \<Rightarrow> s)"

definition upd_slot :: "FM_SHARE_CORE \<Rightarrow> fm_i32 \<Rightarrow> FM_SLOT \<Rightarrow> FM_SHARE_CORE" where
  "upd_slot s idx sl =
     upd_chunk s idx (\<lambda>c. c\<lparr> ch_slots := (ch_slots c)(cell_no idx := sl) \<rparr>)"

definition upd_key_next :: "FM_SHARE_CORE \<Rightarrow> nat \<Rightarrow> fm_i32 \<Rightarrow> fm_i32 \<Rightarrow> FM_SHARE_CORE" where
  "upd_key_next s k idx v =
     upd_chunk s idx (\<lambda>c. c\<lparr> ch_key_next :=
       (ch_key_next c)(k := (ch_key_next c k)(cell_no idx := v)) \<rparr>)"

definition get_key :: "FM_SHARE_CORE \<Rightarrow> nat \<Rightarrow> FM_KEY_CORE option" where
  "get_key s k = do { ks \<leftarrow> sc_keydef s; if k < length ks then Some (ks ! k) else None }"

definition upd_key :: "FM_SHARE_CORE \<Rightarrow> nat \<Rightarrow> FM_KEY_CORE \<Rightarrow> FM_SHARE_CORE" where
  "upd_key s k kc = s\<lparr> sc_keydef := map_option (\<lambda>ks. ks[k := kc]) (sc_keydef s) \<rparr>"

definition key_head :: "FM_SHARE_CORE \<Rightarrow> nat \<Rightarrow> nat \<Rightarrow> fm_i32 option" where
  "key_head s k b = do { kc \<leftarrow> get_key s k; hs \<leftarrow> kc_head kc; hs b }"

definition upd_head :: "FM_SHARE_CORE \<Rightarrow> nat \<Rightarrow> nat \<Rightarrow> fm_i32 \<Rightarrow> FM_SHARE_CORE" where
  "upd_head s k b v = (case (if key_head s k b = None then None else get_key s k) of None \<Rightarrow> s
     | Some kc \<Rightarrow> upd_key s k (kc\<lparr> kc_head := map_option (\<lambda>hs. hs(b \<mapsto> v)) (kc_head kc) \<rparr>))"

definition key_lock :: "FM_SHARE_CORE \<Rightarrow> nat \<Rightarrow> nat \<Rightarrow> FM_SPIN option" where
  "key_lock s k b = do { kc \<leftarrow> get_key s k; ls \<leftarrow> kc_locks kc; ls b }"

definition upd_lock :: "FM_SHARE_CORE \<Rightarrow> nat \<Rightarrow> nat \<Rightarrow> FM_SPIN \<Rightarrow> FM_SHARE_CORE" where
  "upd_lock s k b v = (case (if key_lock s k b = None then None else get_key s k) of None \<Rightarrow> s
     | Some kc \<Rightarrow> upd_key s k (kc\<lparr> kc_locks := map_option (\<lambda>ls. ls(b \<mapsto> v)) (kc_locks kc) \<rparr>))"

section \<open>Lock operations\<close>

text \<open>\<^verbatim>\<open>kc->locks[b].lock()\<close>, \<^verbatim>\<open>kc->locks[b].unlock()\<close>, the same on a slot's \<^verbatim>\<open>wlock\<close>
  and on \<^verbatim>\<open>struct_mutex\<close>.\<close>

definition lock_bucket :: "FM_SHARE_CORE \<Rightarrow> nat \<Rightarrow> nat \<Rightarrow> FM_SHARE_CORE option" where
  "lock_bucket s k b = do { f \<leftarrow> key_lock s k b; g \<leftarrow> spin_lock f; Some (upd_lock s k b g) }"

definition unlock_bucket :: "FM_SHARE_CORE \<Rightarrow> nat \<Rightarrow> nat \<Rightarrow> FM_SHARE_CORE option" where
  "unlock_bucket s k b = do { f \<leftarrow> key_lock s k b; Some (upd_lock s k b (spin_unlock f)) }"

definition lock_slot :: "FM_SHARE_CORE \<Rightarrow> fm_i32 \<Rightarrow> FM_SHARE_CORE option" where
  "lock_slot s idx = do {
     sl \<leftarrow> fm_slot s idx; g \<leftarrow> spin_lock (sl_wlock sl);
     Some (upd_slot s idx (sl\<lparr> sl_wlock := g \<rparr>)) }"

definition unlock_slot :: "FM_SHARE_CORE \<Rightarrow> fm_i32 \<Rightarrow> FM_SHARE_CORE option" where
  "unlock_slot s idx = do {
     sl \<leftarrow> fm_slot s idx; Some (upd_slot s idx (sl\<lparr> sl_wlock := spin_unlock (sl_wlock sl) \<rparr>)) }"

definition lock_struct :: "FM_SHARE_CORE \<Rightarrow> FM_SHARE_CORE option" where
  "lock_struct s = do { g \<leftarrow> spin_lock (sc_struct_mutex s); Some (s\<lparr> sc_struct_mutex := g \<rparr>) }"

definition unlock_struct :: "FM_SHARE_CORE \<Rightarrow> FM_SHARE_CORE" where
  "unlock_struct s = s\<lparr> sc_struct_mutex := spin_unlock (sc_struct_mutex s) \<rparr>"

section \<open>Read over write\<close>

text \<open>The facts that stand for the memory layout from here on: which observer sees which
  store. Two slot numbers address the same cell only if they are equal.\<close>

lemma upd_chunk_fields [simp]:
  "sc_alloc (upd_chunk s i f) = sc_alloc s"
  "sc_nalloc (upd_chunk s i f) = sc_nalloc s"
  "sc_live (upd_chunk s i f) = sc_live s"
  "sc_reclength (upd_chunk s i f) = sc_reclength s"
  "sc_slot_size (upd_chunk s i f) = sc_slot_size s"
  "sc_keys (upd_chunk s i f) = sc_keys s"
  "sc_max_records (upd_chunk s i f) = sc_max_records s"
  "sc_chunk_cap (upd_chunk s i f) = sc_chunk_cap s"
  "sc_chunk_cnt (upd_chunk s i f) = sc_chunk_cnt s"
  "sc_free_head (upd_chunk s i f) = sc_free_head s"
  "sc_records (upd_chunk s i f) = sc_records s"
  "sc_struct_mutex (upd_chunk s i f) = sc_struct_mutex s"
  "sc_keydef (upd_chunk s i f) = sc_keydef s"
  "sc_auto_inc (upd_chunk s i f) = sc_auto_inc s"
  "sc_auto_key (upd_chunk s i f) = sc_auto_key s"
  "sc_auto_key_type (upd_chunk s i f) = sc_auto_key_type s"
  by (simp_all add: upd_chunk_def split: option.splits)

lemma upd_slot_fields [simp]:
  "sc_alloc (upd_slot s i sl) = sc_alloc s"
  "sc_nalloc (upd_slot s i sl) = sc_nalloc s"
  "sc_live (upd_slot s i sl) = sc_live s"
  "sc_reclength (upd_slot s i sl) = sc_reclength s"
  "sc_slot_size (upd_slot s i sl) = sc_slot_size s"
  "sc_keys (upd_slot s i sl) = sc_keys s"
  "sc_max_records (upd_slot s i sl) = sc_max_records s"
  "sc_chunk_cap (upd_slot s i sl) = sc_chunk_cap s"
  "sc_chunk_cnt (upd_slot s i sl) = sc_chunk_cnt s"
  "sc_free_head (upd_slot s i sl) = sc_free_head s"
  "sc_records (upd_slot s i sl) = sc_records s"
  "sc_struct_mutex (upd_slot s i sl) = sc_struct_mutex s"
  "sc_keydef (upd_slot s i sl) = sc_keydef s"
  "sc_auto_inc (upd_slot s i sl) = sc_auto_inc s"
  "sc_auto_key (upd_slot s i sl) = sc_auto_key s"
  "sc_auto_key_type (upd_slot s i sl) = sc_auto_key_type s"
  by (simp_all add: upd_slot_def)

lemma upd_key_next_fields [simp]:
  "sc_alloc (upd_key_next s k i v) = sc_alloc s"
  "sc_nalloc (upd_key_next s k i v) = sc_nalloc s"
  "sc_live (upd_key_next s k i v) = sc_live s"
  "sc_reclength (upd_key_next s k i v) = sc_reclength s"
  "sc_slot_size (upd_key_next s k i v) = sc_slot_size s"
  "sc_keys (upd_key_next s k i v) = sc_keys s"
  "sc_max_records (upd_key_next s k i v) = sc_max_records s"
  "sc_chunk_cap (upd_key_next s k i v) = sc_chunk_cap s"
  "sc_chunk_cnt (upd_key_next s k i v) = sc_chunk_cnt s"
  "sc_free_head (upd_key_next s k i v) = sc_free_head s"
  "sc_records (upd_key_next s k i v) = sc_records s"
  "sc_struct_mutex (upd_key_next s k i v) = sc_struct_mutex s"
  "sc_keydef (upd_key_next s k i v) = sc_keydef s"
  "sc_auto_inc (upd_key_next s k i v) = sc_auto_inc s"
  "sc_auto_key (upd_key_next s k i v) = sc_auto_key s"
  "sc_auto_key_type (upd_key_next s k i v) = sc_auto_key_type s"
  by (simp_all add: upd_key_next_def)

lemma upd_key_fields [simp]:
  "sc_alloc (upd_key s k kc) = sc_alloc s"
  "sc_nalloc (upd_key s k kc) = sc_nalloc s"
  "sc_live (upd_key s k kc) = sc_live s"
  "sc_reclength (upd_key s k kc) = sc_reclength s"
  "sc_slot_size (upd_key s k kc) = sc_slot_size s"
  "sc_keys (upd_key s k kc) = sc_keys s"
  "sc_max_records (upd_key s k kc) = sc_max_records s"
  "sc_chunk_cap (upd_key s k kc) = sc_chunk_cap s"
  "sc_chunks (upd_key s k kc) = sc_chunks s"
  "sc_chunk_cnt (upd_key s k kc) = sc_chunk_cnt s"
  "sc_free_head (upd_key s k kc) = sc_free_head s"
  "sc_records (upd_key s k kc) = sc_records s"
  "sc_struct_mutex (upd_key s k kc) = sc_struct_mutex s"
  "sc_auto_inc (upd_key s k kc) = sc_auto_inc s"
  "sc_auto_key (upd_key s k kc) = sc_auto_key s"
  "sc_auto_key_type (upd_key s k kc) = sc_auto_key_type s"
  by (simp_all add: upd_key_def)

lemma upd_head_fields [simp]:
  "sc_alloc (upd_head s k b v) = sc_alloc s"
  "sc_nalloc (upd_head s k b v) = sc_nalloc s"
  "sc_live (upd_head s k b v) = sc_live s"
  "sc_reclength (upd_head s k b v) = sc_reclength s"
  "sc_slot_size (upd_head s k b v) = sc_slot_size s"
  "sc_keys (upd_head s k b v) = sc_keys s"
  "sc_max_records (upd_head s k b v) = sc_max_records s"
  "sc_chunk_cap (upd_head s k b v) = sc_chunk_cap s"
  "sc_chunks (upd_head s k b v) = sc_chunks s"
  "sc_chunk_cnt (upd_head s k b v) = sc_chunk_cnt s"
  "sc_free_head (upd_head s k b v) = sc_free_head s"
  "sc_records (upd_head s k b v) = sc_records s"
  "sc_struct_mutex (upd_head s k b v) = sc_struct_mutex s"
  "sc_auto_inc (upd_head s k b v) = sc_auto_inc s"
  "sc_auto_key (upd_head s k b v) = sc_auto_key s"
  "sc_auto_key_type (upd_head s k b v) = sc_auto_key_type s"
  by (simp_all add: upd_head_def split: option.splits)

lemma upd_lock_fields [simp]:
  "sc_alloc (upd_lock s k b g) = sc_alloc s"
  "sc_nalloc (upd_lock s k b g) = sc_nalloc s"
  "sc_live (upd_lock s k b g) = sc_live s"
  "sc_reclength (upd_lock s k b g) = sc_reclength s"
  "sc_slot_size (upd_lock s k b g) = sc_slot_size s"
  "sc_keys (upd_lock s k b g) = sc_keys s"
  "sc_max_records (upd_lock s k b g) = sc_max_records s"
  "sc_chunk_cap (upd_lock s k b g) = sc_chunk_cap s"
  "sc_chunks (upd_lock s k b g) = sc_chunks s"
  "sc_chunk_cnt (upd_lock s k b g) = sc_chunk_cnt s"
  "sc_free_head (upd_lock s k b g) = sc_free_head s"
  "sc_records (upd_lock s k b g) = sc_records s"
  "sc_struct_mutex (upd_lock s k b g) = sc_struct_mutex s"
  "sc_auto_inc (upd_lock s k b g) = sc_auto_inc s"
  "sc_auto_key (upd_lock s k b g) = sc_auto_key s"
  "sc_auto_key_type (upd_lock s k b g) = sc_auto_key_type s"
  by (simp_all add: upd_lock_def split: option.splits)

lemma cell_eq:
  assumes "0 \<le> i" "0 \<le> j" "nat (i div 4096) = nat (j div 4096)" "cell_no i = cell_no j"
  shows "i = (j :: int)"
proof -
  from assms have "i div 4096 = j div 4096" by (simp add: pos_imp_zdiv_nonneg_iff)
  moreover from assms have "i mod 4096 = j mod 4096" by (simp add: cell_no_def eq_nat_nat_iff)
  ultimately show ?thesis by (metis mult_div_mod_eq)
qed

lemma chunk_at_nonneg: "chunk_at s i = Some c \<Longrightarrow> 0 \<le> i"
  by (auto simp: chunk_at_def split: Option.bind_splits if_splits)

lemma chunk_at_upd_chunk:
  "chunk_at (upd_chunk s i f) j =
     (if chunk_at s i \<noteq> None \<and> 0 \<le> j \<and> nat (j div 4096) = nat (i div 4096)
      then map_option f (chunk_at s i) else chunk_at s j)"
  by (auto simp: upd_chunk_def chunk_at_def split: option.splits Option.bind_splits if_splits)

lemma fm_slot_upd_slot [simp]:
  "fm_slot (upd_slot s i sl) j = (if j = i \<and> fm_slot s i \<noteq> None then Some sl else fm_slot s j)"
proof (cases "chunk_at s i")
  case None
  then show ?thesis by (simp add: fm_slot_def upd_slot_def chunk_at_upd_chunk)
next
  case (Some c)
  then have i: "0 \<le> i" by (rule chunk_at_nonneg)
  show ?thesis
  proof (cases "0 \<le> j \<and> nat (j div 4096) = nat (i div 4096)")
    case True
    with i Some have same: "chunk_at s j = Some c" by (simp add: chunk_at_def)
    from True Some have upd: "chunk_at (upd_slot s i sl) j =
        Some (c\<lparr> ch_slots := (ch_slots c)(cell_no i := sl) \<rparr>)"
      unfolding upd_slot_def chunk_at_upd_chunk by simp
    have eq: "cell_no j = cell_no i \<longleftrightarrow> j = i" using True i cell_eq by blast
    show ?thesis unfolding fm_slot_def upd same Some by (simp add: eq)
  next
    case False
    with i have "j \<noteq> i" by auto
    moreover from False have "chunk_at (upd_slot s i sl) j = chunk_at s j"
      by (auto simp: upd_slot_def chunk_at_upd_chunk)
    ultimately show ?thesis by (simp add: fm_slot_def)
  qed
qed

lemma upd_slot_twice [simp]: "upd_slot (upd_slot s i a) i b = upd_slot s i b"
  by (auto simp: upd_slot_def upd_chunk_def chunk_at_def split: option.splits Option.bind_splits if_splits)

lemma upd_slot_same:
  assumes "fm_slot s i = Some sl"
  shows "upd_slot s i sl = s"
proof -
  from assms obtain cs c where c: "sc_chunks s = Some cs" "chunk_at s i = Some c"
    "cs (nat (i div 4096)) = Some c" "ch_slots c (cell_no i) = sl"
    by (auto simp: fm_slot_def chunk_at_def split: Option.bind_splits if_splits)
  then have "c\<lparr> ch_slots := (ch_slots c)(cell_no i := sl) \<rparr> = c" by (simp add: fun_upd_idem)
  moreover have "cs(nat (i div 4096) \<mapsto> c) = cs" using c(3) by (simp add: fun_upd_idem)
  ultimately show ?thesis using c(1,2) by (simp add: upd_slot_def upd_chunk_def)
qed

lemma fm_key_next_upd_key_next [simp]:
  "fm_key_next (upd_key_next s k i v) k' j =
     (if j = i \<and> k' = k \<and> fm_key_next s k i \<noteq> None then Some v else fm_key_next s k' j)"
proof (cases "chunk_at s i")
  case None
  then show ?thesis by (simp add: fm_key_next_def upd_key_next_def chunk_at_upd_chunk)
next
  case (Some c)
  then have i: "0 \<le> i" by (rule chunk_at_nonneg)
  show ?thesis
  proof (cases "0 \<le> j \<and> nat (j div 4096) = nat (i div 4096)")
    case True
    with i Some have same: "chunk_at s j = Some c" by (simp add: chunk_at_def)
    from True Some have upd: "chunk_at (upd_key_next s k i v) j =
        Some (c\<lparr> ch_key_next := (ch_key_next c)(k := (ch_key_next c k)(cell_no i := v)) \<rparr>)"
      unfolding upd_key_next_def chunk_at_upd_chunk by simp
    have eq: "cell_no j = cell_no i \<longleftrightarrow> j = i" using True i cell_eq by blast
    show ?thesis unfolding fm_key_next_def upd same Some by (simp add: eq)
  next
    case False
    with i have "j \<noteq> i" by auto
    moreover from False have "chunk_at (upd_key_next s k i v) j = chunk_at s j"
      by (auto simp: upd_key_next_def chunk_at_upd_chunk)
    ultimately show ?thesis by (simp add: fm_key_next_def)
  qed
qed

lemma chunk_at_chunks_only: "sc_chunks s = sc_chunks t \<Longrightarrow> chunk_at s i = chunk_at t i"
  by (simp add: chunk_at_def)

lemma fm_slot_upd_key_next [simp]: "fm_slot (upd_key_next s k i v) j = fm_slot s j"
  by (auto simp: fm_slot_def upd_key_next_def chunk_at_upd_chunk)
    (auto simp: chunk_at_def split: Option.bind_splits if_splits)

lemma fm_key_next_upd_slot [simp]: "fm_key_next (upd_slot s i sl) k j = fm_key_next s k j"
  by (auto simp: fm_key_next_def upd_slot_def chunk_at_upd_chunk)
    (auto simp: chunk_at_def split: Option.bind_splits if_splits)

lemma cells_upd_key [simp]:
  "fm_slot (upd_key s k kc) i = fm_slot s i"
  "fm_slot (upd_head s k b v) i = fm_slot s i"
  "fm_slot (upd_lock s k b g) i = fm_slot s i"
  "fm_key_next (upd_key s k kc) k' i = fm_key_next s k' i"
  "fm_key_next (upd_head s k b v) k' i = fm_key_next s k' i"
  "fm_key_next (upd_lock s k b g) k' i = fm_key_next s k' i"
  by (simp_all add: fm_slot_def fm_key_next_def chunk_at_def)

lemma cells_upd_field [simp]:
  "fm_slot (s\<lparr> sc_free_head := x \<rparr>) i = fm_slot s i"
  "fm_slot (s\<lparr> sc_records := n \<rparr>) i = fm_slot s i"
  "fm_slot (s\<lparr> sc_struct_mutex := g \<rparr>) i = fm_slot s i"
  "fm_key_next (s\<lparr> sc_free_head := x \<rparr>) k i = fm_key_next s k i"
  "fm_key_next (s\<lparr> sc_records := n \<rparr>) k i = fm_key_next s k i"
  "fm_key_next (s\<lparr> sc_struct_mutex := g \<rparr>) k i = fm_key_next s k i"
  by (simp_all add: fm_slot_def fm_key_next_def chunk_at_def)

lemma fm_key_next_defined: "fm_key_next s k i = None \<longleftrightarrow> fm_slot s i = None"
  by (auto simp: fm_slot_def fm_key_next_def split: Option.bind_splits)

lemma fm_slot_nonneg: "fm_slot s i = Some sl \<Longrightarrow> 0 \<le> i"
  by (auto simp: fm_slot_def dest: chunk_at_nonneg split: Option.bind_splits)

lemma get_key_keydef_only: "sc_keydef s = sc_keydef t \<Longrightarrow> get_key s k = get_key t k"
  by (simp add: get_key_def)

lemma get_key_upd [simp]:
  "get_key (upd_slot s i sl) k = get_key s k"
  "get_key (upd_key_next s j i v) k = get_key s k"
  "get_key (s\<lparr> sc_free_head := x \<rparr>) k = get_key s k"
  "get_key (s\<lparr> sc_records := n \<rparr>) k = get_key s k"
  "get_key (s\<lparr> sc_struct_mutex := g \<rparr>) k = get_key s k"
  by (simp_all add: get_key_def)

lemma get_key_upd_key [simp]:
  "get_key (upd_key s k kc) k' = (if k' = k \<and> get_key s k \<noteq> None then Some kc else get_key s k')"
  by (auto simp: get_key_def upd_key_def split: Option.bind_splits if_splits)

lemma key_head_upd [simp]:
  "key_head (upd_slot s i sl) k b = key_head s k b"
  "key_head (upd_key_next s j i v) k b = key_head s k b"
  "key_head (s\<lparr> sc_free_head := x \<rparr>) k b = key_head s k b"
  "key_head (s\<lparr> sc_records := n \<rparr>) k b = key_head s k b"
  "key_head (s\<lparr> sc_struct_mutex := g \<rparr>) k b = key_head s k b"
  "key_head (upd_lock s j c f) k b = key_head s k b"
  by (auto simp: key_head_def upd_lock_def split: option.splits)

lemma key_head_upd_head [simp]:
  "key_head (upd_head s k b v) k' b' =
     (if k' = k \<and> b' = b \<and> key_head s k b \<noteq> None then Some v else key_head s k' b')"
  by (auto simp: key_head_def upd_head_def split: option.splits Option.bind_splits)

lemma key_lock_upd [simp]:
  "key_lock (upd_slot s i sl) k b = key_lock s k b"
  "key_lock (upd_key_next s j i v) k b = key_lock s k b"
  "key_lock (s\<lparr> sc_free_head := x \<rparr>) k b = key_lock s k b"
  "key_lock (s\<lparr> sc_records := n \<rparr>) k b = key_lock s k b"
  "key_lock (s\<lparr> sc_struct_mutex := g \<rparr>) k b = key_lock s k b"
  "key_lock (upd_head s j c h) k b = key_lock s k b"
  by (auto simp: key_lock_def upd_head_def split: option.splits)

lemma key_lock_upd_lock [simp]:
  "key_lock (upd_lock s k b g) k' b' =
     (if k' = k \<and> b' = b \<and> key_lock s k b \<noteq> None then Some g else key_lock s k' b')"
  by (auto simp: key_lock_def upd_lock_def split: option.splits Option.bind_splits)

text \<open>What no row operation changes of a key: its callbacks, uniqueness, bucket count.\<close>

definition kstat :: "FM_SHARE_CORE \<Rightarrow> nat \<Rightarrow> (FM_KEY_OPS \<times> bool \<times> fm_u32) option" where
  "kstat s k = map_option (\<lambda>kc. (kc_ops kc, kc_unique kc, kc_nbuckets kc)) (get_key s k)"

lemma kstat_upd [simp]:
  "kstat (upd_slot s i sl) k = kstat s k"
  "kstat (upd_key_next s j i v) k = kstat s k"
  "kstat (s\<lparr> sc_free_head := x \<rparr>) k = kstat s k"
  "kstat (s\<lparr> sc_records := n \<rparr>) k = kstat s k"
  "kstat (s\<lparr> sc_struct_mutex := g \<rparr>) k = kstat s k"
  "kstat (upd_lock s j c f) k = kstat s k"
  "kstat (upd_head s j c h) k = kstat s k"
  by (auto simp: kstat_def upd_lock_def upd_head_def split: option.splits)

lemma keydef_present [simp]:
  "(sc_keydef (upd_key s k kc) = None) = (sc_keydef s = None)"
  "(sc_keydef (upd_head s k b v) = None) = (sc_keydef s = None)"
  "(sc_keydef (upd_lock s k b g) = None) = (sc_keydef s = None)"
  by (simp_all add: upd_key_def upd_head_def upd_lock_def split: option.splits)

section \<open>The two families of link cells\<close>

definition free_next :: "FM_SHARE_CORE \<Rightarrow> fm_i32 \<Rightarrow> fm_i32 option" where
  "free_next s i = map_option sl_free_next (fm_slot s i)"

definition upd_free_next :: "FM_SHARE_CORE \<Rightarrow> fm_i32 \<Rightarrow> fm_i32 \<Rightarrow> FM_SHARE_CORE" where
  "upd_free_next s i v = (case fm_slot s i of None \<Rightarrow> s
     | Some sl \<Rightarrow> upd_slot s i (sl\<lparr> sl_free_next := v \<rparr>))"

interpretation chain_cells: cell_store "\<lambda>s. fm_key_next s k" "\<lambda>s. upd_key_next s k" for k
  by unfold_locales simp

interpretation free_cells: cell_store free_next upd_free_next
  by unfold_locales (auto simp: free_next_def upd_free_next_def split: option.splits)

end
