(* ===== verification/FM_Slots.thy ===== *)
theory FM_Slots
  imports FM_State
begin

text \<open>
  Share lifecycle, the reader path and slot allocation of \<^verbatim>\<open>fm_core.h\<close>:
  \<^verbatim>\<open>fm_core_init_share\<close>, \<^verbatim>\<open>fm_core_free_share\<close>, \<^verbatim>\<open>fm_core_read_row\<close>,
  \<^verbatim>\<open>fm_core_grow_chunk\<close>, \<^verbatim>\<open>fm_core_alloc_slot\<close>, \<^verbatim>\<open>fm_core_free_slot\<close>.
\<close>

section \<open>The allocator\<close>

text \<open>\<^verbatim>\<open>s->ops.alloc(n)\<close> and \<^verbatim>\<open>s->ops.dealloc(p)\<close>: whether memory was obtained, and the
  count of live blocks.\<close>

definition ops_alloc :: "FM_SHARE_CORE \<Rightarrow> nat \<Rightarrow> FM_SHARE_CORE \<times> bool" where
  "ops_alloc s n =
     (let ok = sc_alloc s (sc_nalloc s) n
      in (s\<lparr> sc_nalloc := sc_nalloc s + 1, sc_live := sc_live s + (if ok then 1 else 0) \<rparr>, ok))"

definition ops_dealloc :: "FM_SHARE_CORE \<Rightarrow> FM_SHARE_CORE" where
  "ops_dealloc s = s\<lparr> sc_live := sc_live s - 1 \<rparr>"

section \<open>Share lifecycle\<close>

definition zero_ops :: FM_KEY_OPS where
  "zero_ops = \<lparr> hash_rec = None, hash_key = None, cmp_rec_rec = None, cmp_rec_key = None,
     has_null_part = None \<rparr>"

definition zero_key :: FM_KEY_CORE where
  "zero_key = \<lparr> kc_ops = zero_ops, kc_unique = False, kc_nbuckets = 0,
     kc_head = None, kc_locks = None \<rparr>"

definition zero_share :: "(nat \<Rightarrow> nat \<Rightarrow> bool) \<Rightarrow> nat \<Rightarrow> int \<Rightarrow> FM_SHARE_CORE" where
  "zero_share alloc n live = \<lparr> sc_alloc = alloc, sc_nalloc = n, sc_live = live,
     sc_reclength = 0, sc_slot_size = 0, sc_keys = 0, sc_max_records = 0, sc_chunk_cap = 0,
     sc_chunks = None, sc_chunk_cnt = 0, sc_free_head = 0, sc_records = 0,
     sc_struct_mutex = False, sc_keydef = None, sc_auto_inc = 0, sc_auto_key = 0,
     sc_auto_key_type = 0 \<rparr>"

text \<open>One iteration of the key loop of \<^verbatim>\<open>fm_core_init_share\<close>: the two arrays of key \<open>k\<close>.
  When either allocation fails the loop goes on with the next key.\<close>

definition init_key :: "nat \<Rightarrow> nat \<Rightarrow> FM_SHARE_CORE \<Rightarrow> FM_SHARE_CORE" where
  "init_key nbuckets k s =
     (let n = (if nbuckets \<noteq> 0 then nbuckets else 1024);
          (s1, head_ok) = ops_alloc s (4 * n);
          (s2, locks_ok) = ops_alloc s1 (1 * n);
          fill = (head_ok \<and> locks_ok)
      in upd_key s2 k \<lparr> kc_ops = zero_ops, kc_unique = False, kc_nbuckets = of_nat n,
           kc_head = (if head_ok then Some (\<lambda>b. if fill \<and> b < n then Some FM_NULL_SLOT else None)
                      else None),
           kc_locks = (if locks_ok then Some (\<lambda>b. if fill \<and> b < n then Some False else None)
                       else None) \<rparr>)"

definition fm_core_init_share ::
  "(nat \<Rightarrow> nat \<Rightarrow> bool) \<Rightarrow> nat \<Rightarrow> nat \<Rightarrow> nat \<Rightarrow> nat \<Rightarrow> FM_SHARE_CORE" where
  "fm_core_init_share ops reclength keys max_records nbuckets =
     (let maxr = (if max_records \<noteq> 0 then max_records else 1);
          s = (zero_share ops 0 0)\<lparr>
            sc_reclength := reclength, sc_keys := keys, sc_max_records := maxr,
            sc_slot_size := unat (fm_align8 (of_nat (FM_SLOT_DATA_OFFSET + reclength))),
            sc_chunk_cap := u32 (maxr + FM_CHUNK_SIZE - 1) div FM_CHUNK_SIZE,
            sc_free_head := FM_NULL_SLOT \<rparr>;
          (s, ok) = ops_alloc s (16 * sc_chunk_cap s)
      in if \<not> ok then s
         else let s = s\<lparr> sc_chunks := Some Map.empty \<rparr>
         in if keys = 0 then s
         else let (s, ok) = ops_alloc s (72 * keys)
         in if \<not> ok then s
         else let s = s\<lparr> sc_keydef := Some (replicate keys zero_key) \<rparr>
         in fold (init_key nbuckets) [0..<keys] s)"

text \<open>\<^verbatim>\<open>fm_core_free_share\<close> gives back every block, then clears the structure. Reading
  \<^verbatim>\<open>s->keydef[k]\<close> needs the key array even for a share that never got one.\<close>

definition free_chunk :: "nat \<Rightarrow> FM_SHARE_CORE \<Rightarrow> FM_SHARE_CORE option" where
  "free_chunk i s = do {
     cs \<leftarrow> sc_chunks s;
     case cs i of
       None \<Rightarrow> Some s
     | Some c \<Rightarrow>
         let s = ops_dealloc s
         in if sc_keys s = 0 then Some s
            else Some (ops_dealloc ((ops_dealloc ^^ sc_keys s) s)) }"

definition free_key :: "nat \<Rightarrow> FM_SHARE_CORE \<Rightarrow> FM_SHARE_CORE option" where
  "free_key k s = do {
     kc \<leftarrow> get_key s k;
     let s1 = (if kc_head kc \<noteq> None then ops_dealloc s else s);
     Some (if kc_locks kc \<noteq> None then ops_dealloc s1 else s1) }"

definition fm_core_free_share :: "FM_SHARE_CORE \<Rightarrow> FM_SHARE_CORE option" where
  "fm_core_free_share s = do {
     s \<leftarrow> foldM free_chunk [0..<sc_chunk_cnt s] s;
     let s1 = (if sc_chunks s \<noteq> None then ops_dealloc s else s);
     s2 \<leftarrow> foldM free_key [0..<sc_keys s1] s1;
     let s3 = (if sc_keydef s2 \<noteq> None then ops_dealloc s2 else s2);
     Some (zero_share (sc_alloc s3) (sc_nalloc s3) (sc_live s3)) }"

section \<open>The lock-free reader path\<close>

text \<open>
  \<^verbatim>\<open>fm_core_read_row\<close> while no other thread runs: an odd sequence number never becomes
  even, and the number does not change between the two loads, so the loop ends in its
  first round or spins. \<^verbatim>\<open>FM_Seqlock\<close> has the loop in the presence of writers.
\<close>

definition fm_core_read_row ::
  "FM_SHARE_CORE \<Rightarrow> fm_i32 \<Rightarrow> bool \<Rightarrow> fm_u32 \<Rightarrow> image \<Rightarrow> (fm_err \<times> image) option" where
  "fm_core_read_row s idx check_gen expect_gen buf = do {
     sl \<leftarrow> fm_slot s idx;
     if sl_state sl \<noteq> FM_SLOT_ACTIVE then Some (FM_ERR_DELETED, buf)
     else if check_gen \<and> sl_gen sl \<noteq> expect_gen then Some (FM_ERR_DELETED, buf)
     else if sl_seq sl AND 1 \<noteq> 0 then None
     else Some (FM_ERR_OK, memcpy buf (sl_data sl) (sc_reclength s)) }"

section \<open>Slot allocation\<close>

text \<open>The key-link loop of \<^verbatim>\<open>fm_core_grow_chunk\<close>. On a failed allocation the arrays of
  the earlier keys, the array of arrays and the slots are freed again.\<close>

fun grow_key_next :: "nat \<Rightarrow> nat \<Rightarrow> FM_SHARE_CORE \<Rightarrow> FM_SHARE_CORE \<times> bool" where
  "grow_key_next 0 kk s = (s, True)"
| "grow_key_next (Suc n) kk s =
     (let (s, ok) = ops_alloc s (4 * FM_CHUNK_SIZE)
      in if \<not> ok then (ops_dealloc (ops_dealloc ((ops_dealloc ^^ kk) s)), False)
         else grow_key_next n (Suc kk) s)"

definition fm_core_grow_chunk :: "FM_SHARE_CORE \<Rightarrow> (FM_SHARE_CORE \<times> fm_err) option" where
  "fm_core_grow_chunk s =
     (let k = sc_chunk_cnt s in
      if k \<ge> sc_chunk_cap s then Some (s, FM_ERR_FULL) else do {
        cs \<leftarrow> sc_chunks s;
        let (s1, ok) = ops_alloc s (sc_slot_size s * FM_CHUNK_SIZE);
        if \<not> ok then Some (s1, FM_ERR_NOMEM) else
        let c = \<lparr> ch_slots = (\<lambda>_. new_FM_SLOT), ch_key_next = (\<lambda>_ _. FM_NULL_SLOT) \<rparr>;
            publish = (\<lambda>t. t\<lparr> sc_chunks := Some (cs(k \<mapsto> c)), sc_chunk_cnt := k + 1 \<rparr>)
        in if sc_keys s1 = 0 then Some (publish s1, FM_ERR_OK) else
        let (s2, ok) = ops_alloc s1 (8 * sc_keys s1)
        in if \<not> ok then Some (ops_dealloc s2, FM_ERR_NOMEM) else
        let (s3, ok) = grow_key_next (sc_keys s2) 0 s2
        in if \<not> ok then Some (s3, FM_ERR_NOMEM)
           else Some (publish s3, FM_ERR_OK) })"

text \<open>The loop \<^verbatim>\<open>for (i = end; i-- > total + 1; )\<close> pushes the slots of a fresh chunk.\<close>

fun push_fresh :: "nat \<Rightarrow> nat \<Rightarrow> FM_SHARE_CORE \<Rightarrow> FM_SHARE_CORE option" where
  "push_fresh lo 0 s = Some s"
| "push_fresh lo (Suc i) s =
     (if i \<ge> lo then do {
        sl \<leftarrow> fm_slot s (fm_i32_of i);
        push_fresh lo i ((upd_free_next s (fm_i32_of i) (sc_free_head s))
                           \<lparr> sc_free_head := fm_i32_of i \<rparr>) }
      else Some s)"

definition fm_core_alloc_slot :: "FM_SHARE_CORE \<Rightarrow> (FM_SHARE_CORE \<times> fm_i32) option" where
  "fm_core_alloc_slot s =
     (if sc_free_head s \<noteq> FM_NULL_SLOT then do {
        let idx = sc_free_head s;
        n \<leftarrow> free_next s idx;
        Some (s\<lparr> sc_free_head := n \<rparr>, idx) }
      else
        let cnt = sc_chunk_cnt s; total = u32 (cnt * FM_CHUNK_SIZE)
        in if total \<ge> sc_max_records s then Some (s, FM_NULL_SLOT)
        else if total mod FM_CHUNK_SIZE = 0 then do {
          (s, rc) \<leftarrow> fm_core_grow_chunk s;
          if rc \<noteq> FM_ERR_OK then Some (s, FM_NULL_SLOT) else do {
            let stop = u32 (total + FM_CHUNK_SIZE);
            let stop = (if stop > sc_max_records s then sc_max_records s else stop);
            s \<leftarrow> push_fresh (total + 1) stop s;
            Some (s, fm_i32_of total) } }
        else Some (s, fm_i32_of total))"

definition fm_core_free_slot :: "FM_SHARE_CORE \<Rightarrow> fm_i32 \<Rightarrow> FM_SHARE_CORE option" where
  "fm_core_free_slot s idx = do {
     sl \<leftarrow> fm_slot s idx;
     Some ((upd_free_next s idx (sc_free_head s))\<lparr> sc_free_head := idx \<rparr>) }"

end
