(* ===== verification/FM_Chains.thy ===== *)
theory FM_Chains
  imports FM_Slots
begin

text \<open>
  The hash chains and the reads of \<^verbatim>\<open>fm_core.h\<close>: \<^verbatim>\<open>fm_core_chain_unlink\<close>,
  \<^verbatim>\<open>fm_core_chain_link\<close>, \<^verbatim>\<open>fm_core_scan_next\<close>, \<^verbatim>\<open>fm_core_find\<close>, \<^verbatim>\<open>fm_core_find_next\<close>,
  \<^verbatim>\<open>fm_core_dup_check\<close>. A walk along a chain ends only if the chain does, so the walks are
  partial functions; that they return is proved from the chain invariant.
\<close>

section \<open>Linking and unlinking\<close>

text \<open>The pointer \<^verbatim>\<open>fm_i32 *link\<close> of the unlink loop: it addresses the chain head or the
  link cell of a slot.\<close>

datatype link_cell = Head | Next fm_i32

definition load_link :: "FM_SHARE_CORE \<Rightarrow> nat \<Rightarrow> nat \<Rightarrow> link_cell \<Rightarrow> fm_i32 option" where
  "load_link s k b l = (case l of Head \<Rightarrow> key_head s k b | Next i \<Rightarrow> fm_key_next s k i)"

definition store_link :: "FM_SHARE_CORE \<Rightarrow> nat \<Rightarrow> nat \<Rightarrow> link_cell \<Rightarrow> fm_i32 \<Rightarrow> FM_SHARE_CORE" where
  "store_link s k b l v =
     (case l of Head \<Rightarrow> upd_head s k b v | Next i \<Rightarrow> upd_key_next s k i v)"

partial_function (option) unlink_loop ::
  "FM_SHARE_CORE \<Rightarrow> nat \<Rightarrow> nat \<Rightarrow> fm_i32 \<Rightarrow> link_cell \<Rightarrow> (FM_SHARE_CORE \<times> fm_err) option" where
  "unlink_loop s k b idx link = do {
     cur \<leftarrow> load_link s k b link;
     if cur = FM_NULL_SLOT then Some (s, FM_ERR_NOT_FOUND)
     else if cur = idx then do {
       n \<leftarrow> fm_key_next s k idx;
       Some (store_link s k b link n, FM_ERR_OK) }
     else unlink_loop s k b idx (Next cur) }"

definition fm_core_chain_unlink ::
  "FM_SHARE_CORE \<Rightarrow> nat \<Rightarrow> nat \<Rightarrow> fm_i32 \<Rightarrow> (FM_SHARE_CORE \<times> fm_err) option" where
  "fm_core_chain_unlink s k b idx = unlink_loop s k b idx Head"

definition fm_core_chain_link ::
  "FM_SHARE_CORE \<Rightarrow> nat \<Rightarrow> nat \<Rightarrow> fm_i32 \<Rightarrow> FM_SHARE_CORE option" where
  "fm_core_chain_link s k b idx = do {
     h \<leftarrow> key_head s k b;
     n \<leftarrow> fm_key_next s k idx;
     Some (upd_head (upd_key_next s k idx h) k b idx) }"

section \<open>Scans\<close>

text \<open>The loop of \<^verbatim>\<open>fm_core_scan_next\<close>: position, result code, buffer.\<close>

function scan_loop ::
  "FM_SHARE_CORE \<Rightarrow> nat \<Rightarrow> nat \<Rightarrow> image \<Rightarrow> (fm_err \<times> nat \<times> image) option" where
  "scan_loop s bound pos buf =
     (if pos < bound then do {
        let idx = fm_i32_of pos;
        (rc, buf) \<leftarrow> fm_core_read_row s idx False 0 buf;
        if rc = FM_ERR_OK then Some (FM_ERR_OK, pos + 1, buf)
        else scan_loop s bound (pos + 1) buf }
      else Some (FM_ERR_EOF, pos, buf))"
  by pat_completeness auto
termination
  by (relation "measure (\<lambda>(s, bound, pos, buf). bound - pos)") auto

declare scan_loop.simps [simp del]

definition fm_core_scan_next ::
  "FM_SHARE_CORE \<Rightarrow> nat \<Rightarrow> image \<Rightarrow> (fm_err \<times> nat \<times> image) option" where
  "fm_core_scan_next s pos buf = scan_loop s (fm_core_slot_count s) pos buf"

section \<open>Point lookups\<close>

definition cmp_key :: "FM_KEY_CORE \<Rightarrow> image \<Rightarrow> image \<Rightarrow> int option" where
  "cmp_key kc rec key = do { c \<leftarrow> cmp_rec_key (kc_ops kc); Some (c rec key) }"

definition key_bucket :: "FM_KEY_CORE \<Rightarrow> image \<Rightarrow> nat option" where
  "key_bucket kc key = do { h \<leftarrow> hash_key (kc_ops kc); Some (unat (fm_bucket kc (h key))) }"

text \<open>The walk of \<^verbatim>\<open>fm_core_find\<close>: the first ACTIVE row of the chain that matches the
  packed key. The buffer keeps the last image that was copied.\<close>

partial_function (option) find_loop ::
  "FM_SHARE_CORE \<Rightarrow> nat \<Rightarrow> FM_KEY_CORE \<Rightarrow> image \<Rightarrow> fm_i32 \<Rightarrow> image
     \<Rightarrow> (fm_err \<times> image \<times> fm_i32) option" where
  "find_loop s k kc key h buf =
     (if h = FM_NULL_SLOT then Some (FM_ERR_NOT_FOUND, buf, h)
      else do {
        (rc, buf) \<leftarrow> fm_core_read_row s h False 0 buf;
        c \<leftarrow> (if rc = FM_ERR_OK then cmp_key kc buf key else Some 1);
        if rc = FM_ERR_OK \<and> c = 0 then Some (FM_ERR_OK, buf, h)
        else do { n \<leftarrow> fm_key_next s k h; find_loop s k kc key n buf } })"

text \<open>Result: share, code, buffer, \<^verbatim>\<open>*out_idx\<close> (left as it was on a miss).\<close>

definition fm_core_find ::
  "FM_SHARE_CORE \<Rightarrow> nat \<Rightarrow> image \<Rightarrow> image \<Rightarrow> fm_i32
     \<Rightarrow> (FM_SHARE_CORE \<times> fm_err \<times> image \<times> fm_i32) option" where
  "fm_core_find s k key buf out_idx = do {
     kc \<leftarrow> get_key s k;
     b \<leftarrow> key_bucket kc key;
     s \<leftarrow> lock_bucket s k b;
     h \<leftarrow> key_head s k b;
     (rc, buf, i) \<leftarrow> find_loop s k kc key h buf;
     s \<leftarrow> unlock_bucket s k b;
     Some (s, rc, buf, if rc = FM_ERR_OK then i else out_idx) }"

text \<open>The walk of \<^verbatim>\<open>fm_core_find_next\<close>: matches count only after \<open>cur\<close> has been passed.\<close>

partial_function (option) find_next_loop ::
  "FM_SHARE_CORE \<Rightarrow> nat \<Rightarrow> FM_KEY_CORE \<Rightarrow> image \<Rightarrow> fm_i32 \<Rightarrow> bool \<Rightarrow> fm_i32 \<Rightarrow> image
     \<Rightarrow> (fm_err \<times> image \<times> fm_i32) option" where
  "find_next_loop s k kc key cur after h buf =
     (if h = FM_NULL_SLOT then Some (FM_ERR_NOT_FOUND, buf, h)
      else if h = cur then do {
        n \<leftarrow> fm_key_next s k h; find_next_loop s k kc key cur True n buf }
      else if after then do {
        (rc, buf) \<leftarrow> fm_core_read_row s h False 0 buf;
        c \<leftarrow> (if rc = FM_ERR_OK then cmp_key kc buf key else Some 1);
        if rc = FM_ERR_OK \<and> c = 0 then Some (FM_ERR_OK, buf, h)
        else do { n \<leftarrow> fm_key_next s k h; find_next_loop s k kc key cur after n buf } }
      else do { n \<leftarrow> fm_key_next s k h; find_next_loop s k kc key cur after n buf })"

definition fm_core_find_next ::
  "FM_SHARE_CORE \<Rightarrow> nat \<Rightarrow> image \<Rightarrow> fm_i32 \<Rightarrow> image \<Rightarrow> fm_i32
     \<Rightarrow> (FM_SHARE_CORE \<times> fm_err \<times> image \<times> fm_i32) option" where
  "fm_core_find_next s k key cur buf out_idx = do {
     kc \<leftarrow> get_key s k;
     b \<leftarrow> key_bucket kc key;
     s \<leftarrow> lock_bucket s k b;
     h \<leftarrow> key_head s k b;
     (rc, buf, i) \<leftarrow> find_next_loop s k kc key cur False h buf;
     s \<leftarrow> unlock_bucket s k b;
     Some (s, rc, buf, if rc = FM_ERR_OK then i else out_idx) }"

section \<open>The duplicate check\<close>

definition cmp_rec :: "FM_KEY_CORE \<Rightarrow> image \<Rightarrow> image \<Rightarrow> int option" where
  "cmp_rec kc a b = do { c \<leftarrow> cmp_rec_rec (kc_ops kc); Some (c a b) }"

partial_function (option) dup_loop ::
  "FM_SHARE_CORE \<Rightarrow> nat \<Rightarrow> FM_KEY_CORE \<Rightarrow> image \<Rightarrow> fm_i32 \<Rightarrow> image \<Rightarrow> (fm_err \<times> image) option" where
  "dup_loop s k kc rec h scratch =
     (if h = FM_NULL_SLOT then Some (FM_ERR_OK, scratch)
      else do {
        (rc, scratch) \<leftarrow> fm_core_read_row s h False 0 scratch;
        c \<leftarrow> (if rc = FM_ERR_OK then cmp_rec kc scratch rec else Some 1);
        if rc = FM_ERR_OK \<and> c = 0 then Some (FM_ERR_DUP_KEY, scratch)
        else do { n \<leftarrow> fm_key_next s k h; dup_loop s k kc rec n scratch } })"

definition null_in_key :: "FM_KEY_CORE \<Rightarrow> image \<Rightarrow> bool" where
  "null_in_key kc rec =
     (case has_null_part (kc_ops kc) of None \<Rightarrow> False | Some f \<Rightarrow> f rec \<noteq> 0)"

definition fm_core_dup_check ::
  "FM_SHARE_CORE \<Rightarrow> nat \<Rightarrow> nat \<Rightarrow> image \<Rightarrow> image \<Rightarrow> (fm_err \<times> image) option" where
  "fm_core_dup_check s k b rec scratch = do {
     kc \<leftarrow> get_key s k;
     if kc_unique kc \<and> \<not> null_in_key kc rec
     then do { h \<leftarrow> key_head s k b; dup_loop s k kc rec h scratch }
     else Some (FM_ERR_OK, scratch) }"

end
