(* ===== verification/FM_Invariant.thy ===== *)
theory FM_Invariant
  imports FM_Chains
begin

text \<open>
  What holds of a FASTMEM table between two operations, and the abstraction to a map
  from slot numbers to record images (\<open>rows\<close>). The contract of the key callbacks is the
  locale \<open>key_callbacks\<close>; the hash functions of \<^verbatim>\<open>fm_hash.cc\<close> are shown to meet it in
  \<^verbatim>\<open>FM_Hash\<close>.
\<close>

section \<open>The contract of the key callbacks\<close>

text \<open>Records that compare equal hash alike and have the same null parts, and a record
  that matches a packed key hashes like the key.\<close>

locale key_callbacks =
  fixes h :: "image \<Rightarrow> fm_u32"
    and hk :: "image \<Rightarrow> fm_u32"
    and c :: "image \<Rightarrow> image \<Rightarrow> int"
    and ck :: "image \<Rightarrow> image \<Rightarrow> int"
    and nl :: "image \<Rightarrow> int"
  assumes cmp_refl: "c a a = 0"
    and cmp_sym: "c a b = 0 \<Longrightarrow> c b a = 0"
    and cmp_trans: "c a b = 0 \<Longrightarrow> c b d = 0 \<Longrightarrow> c a d = 0"
    and cmp_hash: "c a b = 0 \<Longrightarrow> h a = h b"
    and cmp_null: "c a b = 0 \<Longrightarrow> (nl a \<noteq> 0) = (nl b \<noteq> 0)"
    and key_hash: "ck a p = 0 \<Longrightarrow> h a = hk p"
begin

text \<open>A record and a key that match fall into one bucket, whatever the bucket count, and so
  do two records with equal keys: a lookup and a duplicate check never miss by hashing.\<close>

lemma match_bucket: "ck a p = 0 \<Longrightarrow> fm_bucket kc (h a) = fm_bucket kc (hk p)"
  by (simp add: fm_bucket_def key_hash)

lemma equal_bucket: "c a b = 0 \<Longrightarrow> fm_bucket kc (h a) = fm_bucket kc (h b)"
  by (metis cmp_hash)

lemma differ_cong: "c a b = 0 \<Longrightarrow> (c a d = 0) = (c b d = 0)"
  by (meson cmp_sym cmp_trans)

end

section \<open>Static view of a key\<close>

type_synonym key_static = "(FM_KEY_OPS \<times> bool \<times> fm_u32) option"

definition bkt :: "key_static \<Rightarrow> image \<Rightarrow> nat" where
  "bkt K r = (case K of Some (ops, u, n) \<Rightarrow> unat (the (hash_rec ops) r AND (n - 1)) | None \<Rightarrow> 0)"

definition kbkt :: "key_static \<Rightarrow> image \<Rightarrow> nat" where
  "kbkt K p = (case K of Some (ops, u, n) \<Rightarrow> unat (the (hash_key ops) p AND (n - 1)) | None \<Rightarrow> 0)"

definition nbk :: "key_static \<Rightarrow> nat" where
  "nbk K = (case K of Some (ops, u, n) \<Rightarrow> unat n | None \<Rightarrow> 0)"

definition same_key :: "key_static \<Rightarrow> image \<Rightarrow> image \<Rightarrow> bool" where
  "same_key K a b = (case K of Some (ops, u, n) \<Rightarrow> the (cmp_rec_rec ops) a b = 0 | None \<Rightarrow> False)"

definition matches :: "key_static \<Rightarrow> image \<Rightarrow> image \<Rightarrow> bool" where
  "matches K r p = (case K of Some (ops, u, n) \<Rightarrow> the (cmp_rec_key ops) r p = 0 | None \<Rightarrow> False)"

definition has_null :: "key_static \<Rightarrow> image \<Rightarrow> bool" where
  "has_null K r = (case K of Some (ops, u, n) \<Rightarrow> the (has_null_part ops) r \<noteq> 0 | None \<Rightarrow> False)"

definition is_unique :: "key_static \<Rightarrow> bool" where
  "is_unique K = (case K of Some (ops, u, n) \<Rightarrow> u | None \<Rightarrow> False)"

text \<open>A key whose callbacks are set and meet the contract.\<close>

definition key_ok :: "key_static \<Rightarrow> bool" where
  "key_ok K = (case K of None \<Rightarrow> False | Some (ops, u, n) \<Rightarrow> n \<noteq> 0 \<and>
     hash_rec ops \<noteq> None \<and> hash_key ops \<noteq> None \<and> cmp_rec_rec ops \<noteq> None \<and>
     cmp_rec_key ops \<noteq> None \<and> has_null_part ops \<noteq> None \<and>
     key_callbacks (the (hash_rec ops)) (the (hash_key ops)) (the (cmp_rec_rec ops))
       (the (cmp_rec_key ops)) (the (has_null_part ops)))"

lemma key_okE:
  assumes "key_ok K"
  obtains ops u n h hk c ck nl where "K = Some (ops, u, n)" "n \<noteq> 0"
    "hash_rec ops = Some h" "hash_key ops = Some hk" "cmp_rec_rec ops = Some c"
    "cmp_rec_key ops = Some ck" "has_null_part ops = Some nl" "key_callbacks h hk c ck nl"
  using assms by (auto simp: key_ok_def split: option.splits)

lemma mask_less: "n \<noteq> 0 \<Longrightarrow> unat (h AND (n - 1)) < unat (n :: fm_u32)"
proof -
  assume "n \<noteq> 0"
  have "unat (h AND (n - 1)) \<le> unat (n - 1)"
    by (rule word_and_le1 [THEN word_le_nat_alt [THEN iffD1]])
  with \<open>n \<noteq> 0\<close> show ?thesis by (simp add: unat_minus_one word_neq_0_conv word_less_nat_alt)
qed

lemma bkt_less: "key_ok K \<Longrightarrow> bkt K r < nbk K"
  by (erule key_okE) (simp add: bkt_def nbk_def mask_less)

lemma kbkt_less: "key_ok K \<Longrightarrow> kbkt K p < nbk K"
  by (erule key_okE) (simp add: kbkt_def nbk_def mask_less)

lemma same_key_bkt: "key_ok K \<Longrightarrow> same_key K a b \<Longrightarrow> bkt K a = bkt K b"
  by (erule key_okE) (auto simp: bkt_def same_key_def dest: key_callbacks.cmp_hash)

lemma same_key_refl: "key_ok K \<Longrightarrow> same_key K a a"
  by (erule key_okE) (simp add: same_key_def key_callbacks.cmp_refl)

lemma same_key_sym: "key_ok K \<Longrightarrow> same_key K a b \<Longrightarrow> same_key K b a"
  by (erule key_okE) (auto simp: same_key_def dest: key_callbacks.cmp_sym)

lemma same_key_trans: "key_ok K \<Longrightarrow> same_key K a b \<Longrightarrow> same_key K b d \<Longrightarrow> same_key K a d"
  by (erule key_okE) (auto simp: same_key_def dest: key_callbacks.cmp_trans)

lemma same_key_null: "key_ok K \<Longrightarrow> same_key K a b \<Longrightarrow> has_null K a = has_null K b"
  by (erule key_okE) (auto simp: same_key_def has_null_def dest: key_callbacks.cmp_null)

lemma matches_bkt: "key_ok K \<Longrightarrow> matches K r p \<Longrightarrow> bkt K r = kbkt K p"
  by (erule key_okE) (auto simp: matches_def bkt_def kbkt_def dest: key_callbacks.key_hash)

text \<open>What the callback calls of the code yield for such a key.\<close>

lemma key_callE:
  assumes "key_ok (kstat s k)"
  obtains kc where "get_key s k = Some kc" "kc_unique kc = is_unique (kstat s k)"
    "\<And>r. fm_core_key_bucket kc r = Some (bkt (kstat s k) r)"
    "\<And>p. key_bucket kc p = Some (kbkt (kstat s k) p)"
    "\<And>r p. \<exists>x. cmp_key kc r p = Some x \<and> (x = 0) = matches (kstat s k) r p"
    "\<And>a b. \<exists>x. cmp_rec kc a b = Some x \<and> (x = 0) = same_key (kstat s k) a b"
    "\<And>r. null_in_key kc r = has_null (kstat s k) r"
    "hash_rec (kc_ops kc) \<noteq> None"
proof -
  from assms obtain kc where kc: "get_key s k = Some kc"
    by (auto simp: kstat_def key_ok_def split: option.splits)
  then have K: "kstat s k = Some (kc_ops kc, kc_unique kc, kc_nbuckets kc)"
    by (simp add: kstat_def)
  from assms K obtain h hk c ck nl where
    "hash_rec (kc_ops kc) = Some h" "hash_key (kc_ops kc) = Some hk"
    "cmp_rec_rec (kc_ops kc) = Some c" "cmp_rec_key (kc_ops kc) = Some ck"
    "has_null_part (kc_ops kc) = Some nl"
    by (auto elim: key_okE)
  with kc K show thesis
    by (intro that [of kc])
      (simp_all add: is_unique_def fm_core_key_bucket_def key_bucket_def bkt_def kbkt_def
        fm_bucket_def cmp_key_def matches_def cmp_rec_def same_key_def null_in_key_def has_null_def)
qed

section \<open>Rows, chains, free list\<close>

definition rows :: "FM_SHARE_CORE \<Rightarrow> fm_i32 \<rightharpoonup> image" where
  "rows s i = (case fm_slot s i of None \<Rightarrow> None
     | Some sl \<Rightarrow> if sl_state sl = FM_SLOT_ACTIVE then Some (sl_data sl) else None)"

lemma rows_cong: "(\<And>i. fm_slot s' i = fm_slot s i) \<Longrightarrow> rows s' = rows s"
  by (auto simp: rows_def fun_eq_iff)

lemma rows_upd [simp]:
  "rows (upd_key_next s k i v) = rows s"
  "rows (upd_head s k b v) = rows s"
  "rows (upd_lock s k b g) = rows s"
  "rows (s\<lparr> sc_free_head := x \<rparr>) = rows s"
  "rows (s\<lparr> sc_records := n \<rparr>) = rows s"
  "rows (s\<lparr> sc_struct_mutex := g \<rparr>) = rows s"
  by (rule rows_cong; simp)+

lemma rows_upd_slot:
  "fm_slot s i \<noteq> None \<Longrightarrow> rows (upd_slot s i sl) =
     (rows s)(i := if sl_state sl = FM_SLOT_ACTIVE then Some (sl_data sl) else None)"
  by (auto simp: rows_def fun_eq_iff)

lemma rows_upd_free_next [simp]: "rows (upd_free_next s i v) = rows s"
  by (auto simp: upd_free_next_def rows_def fun_eq_iff split: option.splits)

lemma rows_slot: "rows s i = Some r \<Longrightarrow>
  \<exists>sl. fm_slot s i = Some sl \<and> sl_state sl = FM_SLOT_ACTIVE \<and> sl_data sl = r"
  by (auto simp: rows_def split: option.splits if_splits)

text \<open>The generation of every slot.\<close>

definition gens :: "FM_SHARE_CORE \<Rightarrow> fm_i32 \<rightharpoonup> fm_u32" where
  "gens s i = map_option sl_gen (fm_slot s i)"

lemma gens_cong: "fm_slot s' = fm_slot s \<Longrightarrow> gens s' = gens s"
  by (simp add: gens_def fun_eq_iff)

lemma gens_upd_slot:
  "fm_slot s i \<noteq> None \<Longrightarrow> gens (upd_slot s i sl) = (gens s)(i \<mapsto> sl_gen sl)"
  by (auto simp: gens_def fun_eq_iff)

text \<open>Every bucket of key \<open>k\<close> has a chain that ends, and it holds exactly the slots whose
  row, as \<open>R\<close> has it, hashes to the bucket.\<close>

definition key_chains :: "FM_SHARE_CORE \<Rightarrow> nat \<Rightarrow> (fm_i32 \<rightharpoonup> image) \<Rightarrow> bool" where
  "key_chains s k R = (\<forall>b < nbk (kstat s k). \<exists>h0 xs. key_head s k b = Some h0 \<and>
     linked (fm_key_next s k) h0 xs \<and> set xs = {i. \<exists>r. R i = Some r \<and> bkt (kstat s k) r = b})"

lemma key_chainsE:
  assumes "key_chains s k R" and "b < nbk (kstat s k)"
  obtains h0 xs where "key_head s k b = Some h0" "linked (fm_key_next s k) h0 xs"
    "set xs = {i. \<exists>r. R i = Some r \<and> bkt (kstat s k) r = b}"
  using assms by (auto simp: key_chains_def)

lemma key_chains_cong:
  assumes "kstat s' k = kstat s k" and "\<And>b. key_head s' k b = key_head s k b"
    and "\<And>i. fm_key_next s' k i = fm_key_next s k i"
  shows "key_chains s' k R = key_chains s k R"
proof -
  from assms(3) have "fm_key_next s' k = fm_key_next s k" by auto
  with assms show ?thesis by (simp add: key_chains_def)
qed

text \<open>The free list, and that no slot below the row limit is lost: each of them is free
  or holds a row.\<close>

definition free_list :: "FM_SHARE_CORE \<Rightarrow> fm_i32 list \<Rightarrow> bool" where
  "free_list s xs = (linked (free_next s) (sc_free_head s) xs \<and> (\<forall>i\<in>set xs. rows s i = None))"

definition covers :: "FM_SHARE_CORE \<Rightarrow> fm_i32 set \<Rightarrow> bool" where
  "covers s A = (\<forall>i. 0 \<le> i \<longrightarrow> i < int (sc_chunk_cnt s * FM_CHUNK_SIZE) \<longrightarrow>
     i < int (sc_max_records s) \<longrightarrow> i \<in> A \<or> i \<in> dom (rows s))"

text \<open>Sizes and addresses. The bound on \<^verbatim>\<open>max_records\<close> keeps every slot number of the
  last chunk inside an \<^verbatim>\<open>fm_i32\<close>.\<close>

definition sizes_ok :: "FM_SHARE_CORE \<Rightarrow> bool" where
  "sizes_ok s = (0 < sc_max_records s \<and> sc_max_records s + FM_CHUNK_SIZE \<le> 2 ^ 31 \<and>
     sc_chunk_cap s = (sc_max_records s + FM_CHUNK_SIZE - 1) div FM_CHUNK_SIZE \<and>
     sc_chunk_cnt s \<le> sc_chunk_cap s \<and> sc_chunks s \<noteq> None \<and>
     (\<forall>i. (fm_slot s i \<noteq> None) = (0 \<le> i \<and> i < int (sc_chunk_cnt s * FM_CHUNK_SIZE))))"

definition keys_ok :: "FM_SHARE_CORE \<Rightarrow> bool" where
  "keys_ok s = (sc_keys s \<le> FM_MAX_CHANGED_KEYS \<and> (\<forall>k < sc_keys s. key_ok (kstat s k) \<and>
     (\<forall>b < nbk (kstat s k). key_head s k b \<noteq> None \<and> key_lock s k b \<noteq> None)))"

definition slot_ok :: "FM_SHARE_CORE \<Rightarrow> FM_SLOT \<Rightarrow> bool" where
  "slot_ok s sl = (sl_seq sl AND 1 = 0 \<and> sl_state sl \<noteq> FM_SLOT_DELETING \<and>
     length (sl_data sl) \<le> sc_reclength s \<and>
     (sl_state sl = FM_SLOT_ACTIVE \<longrightarrow> length (sl_data sl) = sc_reclength s))"

definition slots_ok :: "FM_SHARE_CORE \<Rightarrow> bool" where
  "slots_ok s = (\<forall>i sl. fm_slot s i = Some sl \<longrightarrow> slot_ok s sl)"

text \<open>Unique keys: two rows of which one has no null part never compare equal.\<close>

definition unique_rows :: "key_static \<Rightarrow> (fm_i32 \<rightharpoonup> image) \<Rightarrow> bool" where
  "unique_rows K R = (is_unique K \<longrightarrow> (\<forall>i j a b. R i = Some a \<longrightarrow> R j = Some b \<longrightarrow> i \<noteq> j \<longrightarrow>
     \<not> has_null K a \<longrightarrow> \<not> same_key K a b))"

definition conflict :: "key_static \<Rightarrow> (fm_i32 \<rightharpoonup> image) \<Rightarrow> image \<Rightarrow> bool" where
  "conflict K R rec = (is_unique K \<and> \<not> has_null K rec \<and> (\<exists>i a. R i = Some a \<and> same_key K a rec))"

definition core_inv :: "FM_SHARE_CORE \<Rightarrow> bool" where
  "core_inv s = (sizes_ok s \<and> keys_ok s \<and> slots_ok s \<and>
     (\<forall>k < sc_keys s. key_chains s k (rows s) \<and> unique_rows (kstat s k) (rows s)) \<and>
     (\<exists>xs. free_list s xs \<and> covers s (set xs)) \<and>
     sc_records s = int (card (dom (rows s))))"

section \<open>Locks\<close>

definition held :: "FM_SHARE_CORE \<Rightarrow> (nat \<times> nat) set" where
  "held s = {(k, b). key_lock s k b = Some True}"

definition wlocked :: "FM_SHARE_CORE \<Rightarrow> fm_i32 set" where
  "wlocked s = {i. \<exists>sl. fm_slot s i = Some sl \<and> sl_wlock sl}"

text \<open>No operation is under way that holds a bucket lock or the structure mutex.\<close>

definition quiet :: "FM_SHARE_CORE \<Rightarrow> bool" where
  "quiet s = (held s = {} \<and> \<not> sc_struct_mutex s)"

end
