(* ===== verification/FM_Chain_Laws.thy ===== *)
theory FM_Chain_Laws
  imports FM_Invariant
begin

text \<open>
  Functional behaviour of the chain operations and of the reads on a table that satisfies
  the invariant: walks return, lookups find exactly the rows that match, linking and
  unlinking move one slot and touch the links of one key only.
\<close>

section \<open>Frames\<close>

text \<open>The plain fields of the share.\<close>

definition scal where
  "scal s = (sc_alloc s, sc_nalloc s, sc_live s, sc_reclength s, sc_slot_size s, sc_keys s,
     sc_max_records s, sc_chunk_cap s, sc_chunk_cnt s, sc_free_head s, sc_records s,
     sc_struct_mutex s, sc_auto_inc s, sc_auto_key s, sc_auto_key_type s)"

text \<open>\<open>s'\<close> differs from \<open>s\<close> in chain links at most, and, for \<open>chain_step k\<close>, in links of
  key \<open>k\<close> only.\<close>

definition links_step :: "FM_SHARE_CORE \<Rightarrow> FM_SHARE_CORE \<Rightarrow> bool" where
  "links_step s s' = (scal s' = scal s \<and> (sc_chunks s' = None) = (sc_chunks s = None) \<and>
     (sc_keydef s' = None) = (sc_keydef s = None) \<and>
     fm_slot s' = fm_slot s \<and> kstat s' = kstat s \<and> key_lock s' = key_lock s \<and>
     (\<forall>k b. (key_head s' k b = None) = (key_head s k b = None)))"

definition chain_step :: "nat \<Rightarrow> FM_SHARE_CORE \<Rightarrow> FM_SHARE_CORE \<Rightarrow> bool" where
  "chain_step k s s' = (links_step s s' \<and>
     (\<forall>k'. k' \<noteq> k \<longrightarrow> key_head s' k' = key_head s k' \<and> fm_key_next s' k' = fm_key_next s k'))"

lemma links_step_refl [simp]: "links_step s s"
  by (simp add: links_step_def)

lemma links_step_trans: "links_step s t \<Longrightarrow> links_step t u \<Longrightarrow> links_step s u"
  by (simp add: links_step_def)

lemma chain_step_refl [simp]: "chain_step k s s"
  by (simp add: chain_step_def)

lemma chain_step_trans: "chain_step k s t \<Longrightarrow> chain_step k t u \<Longrightarrow> chain_step k s u"
  by (auto simp: chain_step_def intro: links_step_trans)

lemma chain_links: "chain_step k s s' \<Longrightarrow> links_step s s'"
  by (simp add: chain_step_def)

lemma upd_chunks_None [simp]:
  "(sc_chunks (upd_slot s i sl) = None) = (sc_chunks s = None)"
  "(sc_chunks (upd_key_next s k i v) = None) = (sc_chunks s = None)"
  by (simp_all add: upd_slot_def upd_key_next_def upd_chunk_def split: option.splits)

lemma chain_step_upd:
  "chain_step k s (upd_head s k b v)"
  "chain_step k s (upd_key_next s k i v)"
  by (auto simp: chain_step_def links_step_def scal_def fun_eq_iff)

lemma links_step_frame:
  assumes "links_step s s'"
  shows "rows s' = rows s" "held s' = held s" "wlocked s' = wlocked s"
    "sizes_ok s' = sizes_ok s" "slots_ok s' = slots_ok s" "keys_ok s' = keys_ok s"
    "free_list s' xs = free_list s xs" "covers s' A = covers s A" "kstat s' = kstat s"
    "sc_keys s' = sc_keys s" "sc_records s' = sc_records s" "sc_struct_mutex s' = sc_struct_mutex s"
    "sc_reclength s' = sc_reclength s" "fm_slot s' = fm_slot s" "key_lock s' = key_lock s"
    "sc_max_records s' = sc_max_records s"
proof -
  note f = assms [unfolded links_step_def scal_def, simplified]
  show r: "rows s' = rows s" using f by (intro rows_cong) simp
  show "held s' = held s" "wlocked s' = wlocked s" "slots_ok s' = slots_ok s"
    "kstat s' = kstat s" "sc_keys s' = sc_keys s" "sc_records s' = sc_records s"
    "sc_struct_mutex s' = sc_struct_mutex s" "sizes_ok s' = sizes_ok s"
    "sc_reclength s' = sc_reclength s" "fm_slot s' = fm_slot s" "key_lock s' = key_lock s"
    "sc_max_records s' = sc_max_records s"
    using f by (simp_all add: held_def wlocked_def slots_ok_def slot_ok_def sizes_ok_def)
  show "keys_ok s' = keys_ok s" using assms unfolding keys_ok_def links_step_def scal_def by simp
  have "free_next s' = free_next s" using f by (auto simp: free_next_def)
  then show "free_list s' xs = free_list s xs" "covers s' A = covers s A"
    using f r by (simp_all add: free_list_def covers_def)
qed

lemma chain_step_chains:
  "chain_step k s s' \<Longrightarrow> k' \<noteq> k \<Longrightarrow> key_chains s' k' R = key_chains s k' R"
  by (rule key_chains_cong) (auto simp: chain_step_def links_step_def)

section \<open>Reading a row\<close>

lemma read_row_active:
  assumes "slots_ok s" "rows s i = Some r" "length buf = sc_reclength s"
  shows "fm_core_read_row s i False g buf = Some (FM_ERR_OK, r)"
proof -
  from assms(2) obtain sl where "fm_slot s i = Some sl" "sl_state sl = FM_SLOT_ACTIVE" "sl_data sl = r"
    by (auto dest: rows_slot)
  with assms show ?thesis by (auto simp: fm_core_read_row_def slots_ok_def slot_ok_def)
qed

lemma read_row_inactive:
  assumes "fm_slot s i \<noteq> None" "rows s i = None"
  shows "fm_core_read_row s i f g buf = Some (FM_ERR_DELETED, buf)"
  using assms by (auto simp: fm_core_read_row_def rows_def split: option.splits if_splits)

lemma read_row_gen:
  assumes "slots_ok s" "rows s i = Some r" "gens s i = Some g" "length buf = sc_reclength s"
  shows "fm_core_read_row s i True g buf = Some (FM_ERR_OK, r)"
proof -
  from assms(2) obtain sl where "fm_slot s i = Some sl" "sl_state sl = FM_SLOT_ACTIVE" "sl_data sl = r"
    by (auto dest: rows_slot)
  with assms show ?thesis by (auto simp: fm_core_read_row_def slots_ok_def slot_ok_def gens_def)
qed

lemma row_length: "slots_ok s \<Longrightarrow> rows s i = Some r \<Longrightarrow> length r = sc_reclength s"
  by (auto dest!: rows_slot simp: slots_ok_def slot_ok_def)

section \<open>Linking and unlinking\<close>

text \<open>The walk stops at the link that holds \<open>idx\<close>, and overwrites that link.\<close>

lemma unlink_loop_found:
  assumes "load_link s k b l = Some cur" "linked (fm_key_next s k) cur (ys @ idx # zs)"
    "fm_key_next s k idx = Some n"
  shows "unlink_loop s k b idx l =
     Some (store_link s k b (if ys = [] then l else Next (last ys)) n, FM_ERR_OK)"
  using assms
proof (induction ys arbitrary: l cur)
  case Nil
  then show ?case by (subst unlink_loop.simps) auto
next
  case (Cons y ys)
  then have "distinct ((y # ys) @ idx # zs)" by (blast dest: linked_distinct)
  with Cons.prems obtain m where "cur = y" "0 \<le> y" "y \<noteq> idx" "fm_key_next s k y = Some m"
    "linked (fm_key_next s k) m (ys @ idx # zs)" by auto
  with Cons.prems(1,3) Cons.IH [of "Next y" m] show ?case
    by (subst unlink_loop.simps) (auto simp: load_link_def)
qed

lemma unlink_loop_missing:
  assumes "load_link s k b l = Some cur" "linked (fm_key_next s k) cur xs" "idx \<notin> set xs"
  shows "unlink_loop s k b idx l = Some (s, FM_ERR_NOT_FOUND)"
  using assms
proof (induction xs arbitrary: l cur)
  case Nil
  then show ?case by (subst unlink_loop.simps) auto
next
  case (Cons y ys)
  then obtain m where "cur = y" "0 \<le> y" "y \<noteq> idx" "fm_key_next s k y = Some m"
    "linked (fm_key_next s k) m ys" by auto
  with Cons.prems(1,3) Cons.IH [of "Next y" m] show ?case
    by (subst unlink_loop.simps) (auto simp: load_link_def)
qed

text \<open>After the walk the chain is the old one without \<open>idx\<close>.\<close>

lemma linked_store:
  assumes "key_head s k b = Some h0" "linked (fm_key_next s k) h0 (ys @ idx # zs)"
    "fm_key_next s k idx = Some n"
  defines "s' \<equiv> store_link s k b (if ys = [] then Head else Next (last ys)) n"
  obtains h0' where "key_head s' k b = Some h0'" "linked (fm_key_next s' k) h0' (ys @ zs)"
    "chain_step k s s'" "\<And>b'. b' \<noteq> b \<Longrightarrow> key_head s' k b' = key_head s k b'"
    "\<And>i. i \<notin> set ys \<Longrightarrow> fm_key_next s' k i = fm_key_next s k i"
proof (cases ys rule: rev_cases)
  case Nil
  with assms have "s' = upd_head s k b n" by (simp add: store_link_def)
  moreover from Nil assms(2,3) have "linked (fm_key_next s k) n zs" by auto
  moreover have "fm_key_next (upd_head s k b n) k = fm_key_next s k" by (rule ext) simp
  ultimately show thesis using assms(1) Nil chain_step_upd(1) [of k s b n] by (intro that [of n]) auto
next
  case (snoc us p)
  with assms have s': "s' = upd_key_next s k p n" by (simp add: store_link_def)
  from snoc assms(2) have "linked (fm_key_next s k) h0 (us @ p # idx # zs)" by simp
  from chain_cells.linked_cut [OF this assms(3)] s' snoc
  have "linked (fm_key_next s' k) h0 (ys @ zs)" by simp
  with s' snoc assms(1) chain_step_upd(2) [of k s p n] show thesis by (intro that [of h0]) auto
qed

lemma chain_unlink_correct:
  assumes K: "key_chains s k R" and R: "R idx = Some r" and b: "b = bkt (kstat s k) r"
    and lt: "b < nbk (kstat s k)"
  obtains s' where "fm_core_chain_unlink s k b idx = Some (s', FM_ERR_OK)" "chain_step k s s'"
    "key_chains s' k (R(idx := None))"
proof -
  obtain h0 xs where h0: "key_head s k b = Some h0"
    and l: "linked (fm_key_next s k) h0 xs"
    and xs: "set xs = {i. \<exists>r. R i = Some r \<and> bkt (kstat s k) r = b}" by (rule key_chainsE [OF K lt])
  from xs R b have "idx \<in> set xs" by auto
  then obtain ys zs where split: "xs = ys @ idx # zs" by (auto simp: in_set_conv_decomp)
  from l split obtain n where n: "fm_key_next s k idx = Some n"
    using linked_defined [OF l, of idx] by auto
  define s' where "s' = store_link s k b (if ys = [] then Head else Next (last ys)) n"
  from l split have un: "fm_core_chain_unlink s k b idx = Some (s', FM_ERR_OK)"
    unfolding fm_core_chain_unlink_def s'_def
    by (intro unlink_loop_found [OF _ _ n]) (auto simp: load_link_def h0)
  from l split have l': "linked (fm_key_next s k) h0 (ys @ idx # zs)" by simp
  from linked_store [OF h0 l' n, folded s'_def] obtain h0' where
    h0': "key_head s' k b = Some h0'" "linked (fm_key_next s' k) h0' (ys @ zs)"
    and step: "chain_step k s s'" and oth: "\<And>b'. b' \<noteq> b \<Longrightarrow> key_head s' k b' = key_head s k b'"
      "\<And>i. i \<notin> set ys \<Longrightarrow> fm_key_next s' k i = fm_key_next s k i" by blast
  from step have ks: "kstat s' k = kstat s k" by (simp add: chain_step_def links_step_def)
  have set': "set (ys @ zs) = {i. \<exists>r. (R(idx := None)) i = Some r \<and> bkt (kstat s k) r = b}"
    using linked_distinct [OF l] xs split by auto
  have "key_chains s' k (R(idx := None))"
    unfolding key_chains_def ks
  proof (intro allI impI)
    fix b' assume b': "b' < nbk (kstat s k)"
    show "\<exists>h0 xs. key_head s' k b' = Some h0 \<and> linked (fm_key_next s' k) h0 xs \<and>
       set xs = {i. \<exists>r. (R(idx := None)) i = Some r \<and> bkt (kstat s k) r = b'}"
    proof (cases "b' = b")
      case True
      with h0' set' show ?thesis by auto
    next
      case False
      obtain h2 xs2 where 2: "key_head s k b' = Some h2"
        "linked (fm_key_next s k) h2 xs2"
        "set xs2 = {i. \<exists>r. R i = Some r \<and> bkt (kstat s k) r = b'}" by (rule key_chainsE [OF K b'])
      from 2(3) xs False have "set xs \<inter> set xs2 = {}" by auto
      with split have "set ys \<inter> set xs2 = {}" by auto
      then have "linked (fm_key_next s' k) h2 xs2"
        using 2(2) oth(2) by (subst linked_cong [where nxt' = "fm_key_next s k"]) auto
      with 2 False oth(1) R b show ?thesis by auto
    qed
  qed
  with un step show thesis by (rule that)
qed

lemma chain_link_correct:
  assumes K: "key_chains s k R" and R: "R idx = None" and sl: "fm_slot s idx \<noteq> None"
    and b: "b = bkt (kstat s k) r" and lt: "b < nbk (kstat s k)"
  obtains s' where "fm_core_chain_link s k b idx = Some s'" "chain_step k s s'"
    "key_chains s' k (R(idx \<mapsto> r))"
proof -
  obtain h0 xs where h0: "key_head s k b = Some h0"
    and l: "linked (fm_key_next s k) h0 xs"
    and xs: "set xs = {i. \<exists>r. R i = Some r \<and> bkt (kstat s k) r = b}" by (rule key_chainsE [OF K lt])
  from sl have nx: "fm_key_next s k idx \<noteq> None" and pos: "0 \<le> idx"
    by (auto simp: fm_key_next_defined dest: fm_slot_nonneg)
  from xs R have fresh: "idx \<notin> set xs" by auto
  define s' where "s' = upd_head (upd_key_next s k idx h0) k b idx"
  have run: "fm_core_chain_link s k b idx = Some s'"
    using h0 nx by (auto simp: fm_core_chain_link_def s'_def)
  have step: "chain_step k s s'"
    unfolding s'_def by (rule chain_step_trans [OF chain_step_upd(2) chain_step_upd(1)])
  then have ks: "kstat s' k = kstat s k" by (simp add: chain_step_def links_step_def)
  have nxt: "fm_key_next s' k = fm_key_next (upd_key_next s k idx h0) k"
    by (rule ext) (simp add: s'_def)
  have "key_chains s' k (R(idx \<mapsto> r))"
    unfolding key_chains_def ks
  proof (intro allI impI)
    fix b' assume b': "b' < nbk (kstat s k)"
    show "\<exists>h0 xs. key_head s' k b' = Some h0 \<and> linked (fm_key_next s' k) h0 xs \<and>
       set xs = {i. \<exists>q. (R(idx \<mapsto> r)) i = Some q \<and> bkt (kstat s k) q = b'}"
    proof (cases "b' = b")
      case True
      have "linked (fm_key_next s' k) idx (idx # xs)"
        unfolding nxt by (rule chain_cells.linked_push [OF l fresh pos nx])
      moreover have "key_head s' k b = Some idx" using h0 by (simp add: s'_def)
      moreover have "set (idx # xs) = {i. \<exists>q. (R(idx \<mapsto> r)) i = Some q \<and> bkt (kstat s k) q = b}"
        using xs b R by auto
      ultimately show ?thesis using True by blast
    next
      case False
      obtain h2 xs2 where 2: "key_head s k b' = Some h2"
        "linked (fm_key_next s k) h2 xs2"
        "set xs2 = {i. \<exists>r. R i = Some r \<and> bkt (kstat s k) r = b'}" by (rule key_chainsE [OF K b'])
      from 2(3) R have "idx \<notin> set xs2" by auto
      with 2(2) have "linked (fm_key_next s' k) h2 xs2"
        by (simp add: nxt chain_cells.linked_wr_other)
      with 2 False R b show ?thesis by (auto simp: s'_def)
    qed
  qed
  with run step show thesis by (rule that)
qed

section \<open>Walks\<close>

lemma find_filter: "List.find P xs = (case filter P xs of [] \<Rightarrow> None | x # _ \<Rightarrow> Some x)"
  by (induction xs) auto

lemma find_after:
  assumes "distinct (ys @ x # zs)" "L = filter P (ys @ x # zs)" "j < length L" "L ! j = x"
  shows "List.find P zs = (if Suc j < length L then Some (L ! Suc j) else None)"
proof -
  from assms(3,4) have "x \<in> set L" by (auto simp: in_set_conv_nth)
  then have "P x" unfolding assms(2) set_filter by blast
  then have L: "L = filter P ys @ x # filter P zs" using assms(2) by simp
  then have "L ! length (filter P ys) = x" "length (filter P ys) < length L" by simp_all
  moreover have "distinct L" unfolding assms(2) using assms(1) by (rule distinct_filter)
  ultimately have "j = length (filter P ys)"
    using assms(3,4) nth_eq_iff_index_eq by metis
  with L show ?thesis by (cases "filter P zs") (simp_all add: find_filter nth_append)
qed

text \<open>The duplicate check walks its chain to the end unless it meets an equal key. It passes over slots that are not active.\<close>

lemma dup_loop_walk:
  assumes "slots_ok s" "linked (fm_key_next s k) h xs" "\<forall>i\<in>set xs. fm_slot s i \<noteq> None"
    "length scratch = sc_reclength s"
    "\<And>a b. \<exists>x. cmp_rec kc a b = Some x \<and> (x = 0) = same_key K a b"
  shows "\<exists>sc. length sc = sc_reclength s \<and> dup_loop s k kc rec h scratch =
     Some (if \<exists>i\<in>set xs. \<exists>a. rows s i = Some a \<and> same_key K a rec
           then FM_ERR_DUP_KEY else FM_ERR_OK, sc)"
  using assms(2-4)
proof (induction xs arbitrary: h scratch)
  case Nil
  then show ?case by (subst dup_loop.simps) auto
next
  case (Cons i xs)
  then obtain n where n: "h = i" "0 \<le> i" "fm_key_next s k i = Some n" "linked (fm_key_next s k) n xs" by auto
  have skip: ?case if "dup_loop s k kc rec h scratch = dup_loop s k kc rec n b" "length b = sc_reclength s"
    "\<nexists>a. rows s i = Some a \<and> same_key K a rec" for b
  proof -
    have "(\<exists>j\<in>set (i # xs). \<exists>a. rows s j = Some a \<and> same_key K a rec) = (\<exists>j\<in>set xs. \<exists>a. rows s j = Some a \<and> same_key K a rec)"
      using that(3) by auto
    then show ?thesis using Cons.IH [OF n(4) _ that(2)] Cons.prems(2) that(1) by simp
  qed
  show ?case
  proof (cases "rows s i")
    case None
    have "fm_core_read_row s i False 0 scratch = Some (FM_ERR_DELETED, scratch)"
      by (rule read_row_inactive) (use Cons.prems(2) None in simp_all)
    then have "dup_loop s k kc rec h scratch = dup_loop s k kc rec n scratch"
      using n by (subst dup_loop.simps) simp
    then show ?thesis by (rule skip) (use Cons.prems(3) None in simp_all)
  next
    case r: (Some r)
    have rd: "fm_core_read_row s i False 0 scratch = Some (FM_ERR_OK, r)"
      using assms(1) r Cons.prems(3) by (rule read_row_active)
    obtain x where x: "cmp_rec kc r rec = Some x" "(x = 0) = same_key K r rec"
      using assms(5) by blast
    have len: "length r = sc_reclength s" using assms(1) r by (rule row_length)
    show ?thesis
    proof (cases "same_key K r rec")
      case True
      with n rd x r len show ?thesis by (subst dup_loop.simps) auto
    next
      case False
      with n rd x have "dup_loop s k kc rec h scratch = dup_loop s k kc rec n r"
        by (subst dup_loop.simps) auto
      then show ?thesis by (rule skip) (use len r False in simp_all)
    qed
  qed
qed

lemma find_loop_walk:
  fixes key :: image
  assumes "slots_ok s" "linked (fm_key_next s k) h xs" "\<forall>i\<in>set xs. rows s i \<noteq> None"
    "length buf = sc_reclength s"
    "\<And>a b. \<exists>x. cmp_key kc a b = Some x \<and> (x = 0) = matches K a b"
  defines "P \<equiv> \<lambda>i. \<exists>r. rows s i = Some r \<and> matches K r key"
  shows "case List.find P xs of
      None \<Rightarrow> \<exists>bf. find_loop s k kc key h buf = Some (FM_ERR_NOT_FOUND, bf, FM_NULL_SLOT)
    | Some i \<Rightarrow> find_loop s k kc key h buf = Some (FM_ERR_OK, the (rows s i), i)"
  using assms(2-4)
proof (induction xs arbitrary: h buf)
  case Nil
  then show ?case by (subst find_loop.simps) auto
next
  case (Cons i xs)
  then obtain n r where n: "h = i" "0 \<le> i" "fm_key_next s k i = Some n"
    "linked (fm_key_next s k) n xs" and r: "rows s i = Some r" by auto
  have rd: "fm_core_read_row s i False 0 buf = Some (FM_ERR_OK, r)"
    using assms(1) r Cons.prems(3) by (rule read_row_active)
  obtain x where x: "cmp_key kc r key = Some x" "(x = 0) = matches K r key"
    using assms(5) by blast
  have len: "length r = sc_reclength s" using assms(1) r by (rule row_length)
  show ?case
  proof (cases "matches K r key")
    case True
    with n rd x r show ?thesis by (subst find_loop.simps) (auto simp: P_def)
  next
    case False
    with n rd x have eq: "find_loop s k kc key h buf = find_loop s k kc key n r"
      by (subst find_loop.simps) auto
    from r False have "List.find P (i # xs) = List.find P xs" by (simp add: P_def)
    with Cons.IH [OF n(4) _ len] Cons.prems(2) show ?thesis unfolding eq by simp
  qed
qed

text \<open>Past \<open>cur\<close>, \<^verbatim>\<open>find_next\<close> is \<^verbatim>\<open>find\<close>.\<close>

lemma find_next_after:
  assumes "linked (fm_key_next s k) h xs" "cur \<notin> set xs"
  shows "find_next_loop s k kc key cur True h buf = find_loop s k kc key h buf"
  using assms
proof (induction xs arbitrary: h buf)
  case Nil
  then show ?case by (subst find_next_loop.simps, subst find_loop.simps) auto
next
  case (Cons i xs)
  then obtain n where "h = i" "0 \<le> i" "i \<noteq> cur" "fm_key_next s k i = Some n"
    "linked (fm_key_next s k) n xs" by auto
  moreover from this Cons have "find_next_loop s k kc key cur True n bf = find_loop s k kc key n bf" for bf
    by simp
  ultimately show ?case
    by (subst find_next_loop.simps, subst find_loop.simps) (simp cong: if_cong)
qed

lemma find_next_skip:
  assumes "linked (fm_key_next s k) h (ys @ cur # zs)" "fm_key_next s k cur = Some n"
  shows "find_next_loop s k kc key cur False h buf = find_next_loop s k kc key cur True n buf"
  using assms
proof (induction ys arbitrary: h)
  case Nil
  then show ?case by (subst find_next_loop.simps) auto
next
  case (Cons i ys)
  then have "distinct ((i # ys) @ cur # zs)" by (blast dest: linked_distinct)
  with Cons.prems obtain m where "h = i" "0 \<le> i" "i \<noteq> cur" "fm_key_next s k i = Some m"
    "linked (fm_key_next s k) m (ys @ cur # zs)" by auto
  with Cons.IH [of m] Cons.prems(2) show ?case by (subst find_next_loop.simps) simp
qed

lemma find_next_gone:
  assumes "linked (fm_key_next s k) h xs" "cur \<notin> set xs"
  shows "find_next_loop s k kc key cur False h buf = Some (FM_ERR_NOT_FOUND, buf, FM_NULL_SLOT)"
  using assms
proof (induction xs arbitrary: h)
  case Nil
  then show ?case by (subst find_next_loop.simps) auto
next
  case (Cons i xs)
  then obtain n where "h = i" "0 \<le> i" "i \<noteq> cur" "fm_key_next s k i = Some n"
    "linked (fm_key_next s k) n xs" by auto
  with Cons.IH [of n] Cons.prems(2) show ?case by (subst find_next_loop.simps) simp
qed

section \<open>Taking and releasing a bucket lock\<close>

lemma upd_lock_restore:
  assumes "key_lock s k b = Some f"
  shows "upd_lock (upd_lock s k b g) k b f = s"
proof -
  from assms obtain ks ls where ks: "sc_keydef s = Some ks" "k < length ks"
    "kc_locks (ks ! k) = Some ls" "ls b = Some f"
    by (auto simp: key_lock_def get_key_def split: Option.bind_splits if_splits)
  then have "ls(b \<mapsto> f) = ls" by (simp add: fun_upd_idem)
  with ks show ?thesis
    by (simp add: upd_lock_def key_lock_def get_key_def upd_key_def list_update_same_conv)
qed

lemma lock_bucket_free:
  "key_lock s k b = Some False \<Longrightarrow> lock_bucket s k b = Some (upd_lock s k b True)"
  by (simp add: lock_bucket_def spin_lock_def)

lemma unlock_bucket_held:
  "key_lock s k b = Some g \<Longrightarrow> unlock_bucket s k b = Some (upd_lock s k b False)"
  by (simp add: unlock_bucket_def spin_unlock_def)

lemma not_held: "key_lock s k b \<noteq> None \<Longrightarrow> (k, b) \<notin> held s \<Longrightarrow> key_lock s k b = Some False"
  by (auto simp: held_def)

lemma held_upd_lock:
  "key_lock s k b \<noteq> None \<Longrightarrow>
     held (upd_lock s k b g) = (if g then insert (k, b) (held s) else held s - {(k, b)})"
  by (auto simp: held_def)

lemma key_lock_None_upd [simp]:
  "(key_lock (upd_lock s k b g) j c = None) = (key_lock s j c = None)"
  by auto

lemma upd_lock_inv [simp]:
  "slots_ok (upd_lock s k b g) = slots_ok s"
  "sizes_ok (upd_lock s k b g) = sizes_ok s"
  "keys_ok (upd_lock s k b g) = keys_ok s"
  "key_chains (upd_lock s k b g) j R = key_chains s j R"
  "free_list (upd_lock s k b g) xs = free_list s xs"
  "covers (upd_lock s k b g) A = covers s A"
  "wlocked (upd_lock s k b g) = wlocked s"
proof -
  show "keys_ok (upd_lock s k b g) = keys_ok s"
    unfolding keys_ok_def key_lock_None_upd by simp
  show "key_chains (upd_lock s k b g) j R = key_chains s j R"
    by (rule key_chains_cong) simp_all
  have "free_next (upd_lock s k b g) = free_next s" by (rule ext) (simp add: free_next_def)
  then show "free_list (upd_lock s k b g) xs = free_list s xs" by (simp add: free_list_def)
qed (simp_all add: slots_ok_def slot_ok_def sizes_ok_def covers_def wlocked_def)

text \<open>A chain operation between taking and releasing its bucket lock.\<close>

lemma lock_sandwich:
  assumes "key_lock s k b = Some False" "chain_step k (upd_lock s k b True) t"
  shows "chain_step k s (upd_lock t k b False)" "unlock_bucket t k b = Some (upd_lock t k b False)"
proof -
  from assms(2) have t: "key_lock t = key_lock (upd_lock s k b True)"
    by (simp add: chain_step_def links_step_def)
  with assms(1) show "unlock_bucket t k b = Some (upd_lock t k b False)"
    by (simp add: unlock_bucket_held)
  have "key_lock (upd_lock t k b False) = key_lock s"
    using assms(1) by (intro ext) (simp add: t)
  then show "chain_step k s (upd_lock t k b False)"
    using assms by (auto simp: chain_step_def links_step_def scal_def fun_eq_iff)
qed

lemma unlink_locked:
  assumes "key_chains s k R" "R idx = Some r" "b = bkt (kstat s k) r" "b < nbk (kstat s k)"
    "key_lock s k b = Some False"
  obtains s' where "do { s \<leftarrow> lock_bucket s k b; (s, e) \<leftarrow> fm_core_chain_unlink s k b idx;
      unlock_bucket s k b } = Some s'"
    "chain_step k s s'" "key_chains s' k (R(idx := None))"
proof -
  let ?t = "upd_lock s k b True"
  from assms(1-4) obtain u where u: "fm_core_chain_unlink ?t k b idx = Some (u, FM_ERR_OK)"
    "chain_step k ?t u" "key_chains u k (R(idx := None))"
    using chain_unlink_correct [of ?t k R idx r b] by auto
  from lock_sandwich [OF assms(5) u(2)] u show thesis
    by (intro that [of "upd_lock u k b False"]) (simp_all add: lock_bucket_free [OF assms(5)])
qed

lemma link_locked:
  assumes "key_chains s k R" "R idx = None" "fm_slot s idx \<noteq> None" "b = bkt (kstat s k) r"
    "b < nbk (kstat s k)" "key_lock s k b = Some False"
  obtains u s' where "fm_core_chain_link (upd_lock s k b True) k b idx = Some u"
    "unlock_bucket u k b = Some s'" "chain_step k s s'" "key_chains s' k (R(idx \<mapsto> r))"
proof -
  let ?t = "upd_lock s k b True"
  from assms(1-5) obtain u where u: "fm_core_chain_link ?t k b idx = Some u"
    "chain_step k ?t u" "key_chains u k (R(idx \<mapsto> r))"
    using chain_link_correct [of ?t k R idx b r] by auto
  from lock_sandwich [OF assms(6) u(2)] u show thesis
    by (intro that [of u "upd_lock u k b False"]) simp_all
qed

text \<open>The chains of a table in which some slots are linked that are not active, or not yet.\<close>

definition linked_rows :: "FM_SHARE_CORE \<Rightarrow> (fm_i32 \<rightharpoonup> image) \<Rightarrow> bool" where
  "linked_rows s R = (rows s \<subseteq>\<^sub>m R \<and> (\<forall>i \<in> dom R. fm_slot s i \<noteq> None))"

lemma linked_rows_refl: "linked_rows s (rows s)"
  by (auto simp: linked_rows_def dest: rows_slot)

text \<open>The duplicate check answers whether the record conflicts with a row.\<close>

lemma dup_check_linked:
  assumes K: "key_ok (kstat s k)" and "slots_ok s" and C: "key_chains s k R" and R: "linked_rows s R"
    and "length scratch = sc_reclength s"
  obtains sc where "fm_core_dup_check s k (bkt (kstat s k) rec) rec scratch =
      Some (if conflict (kstat s k) (rows s) rec then FM_ERR_DUP_KEY else FM_ERR_OK, sc)"
    "length sc = sc_reclength s"
proof -
  from K obtain kc where kc: "get_key s k = Some kc" "kc_unique kc = is_unique (kstat s k)"
    "\<And>a b. \<exists>x. cmp_rec kc a b = Some x \<and> (x = 0) = same_key (kstat s k) a b"
    "\<And>r. null_in_key kc r = has_null (kstat s k) r"
    by (rule key_callE) blast
  obtain h0 xs where h: "key_head s k (bkt (kstat s k) rec) = Some h0"
    "linked (fm_key_next s k) h0 xs"
    "set xs = {i. \<exists>r. R i = Some r \<and> bkt (kstat s k) r = bkt (kstat s k) rec}"
    by (rule key_chainsE [OF C bkt_less [OF K]])
  from h(3) R have all: "\<forall>i\<in>set xs. fm_slot s i \<noteq> None" by (auto simp: linked_rows_def)
  have sub: "R i = Some a" if "rows s i = Some a" for i a
    using R that by (auto simp: linked_rows_def map_le_def dom_def)
  have ex: "(\<exists>i\<in>set xs. \<exists>a. rows s i = Some a \<and> same_key (kstat s k) a rec) =
      (\<exists>i a. rows s i = Some a \<and> same_key (kstat s k) a rec)"
    unfolding h(3) using same_key_bkt [OF K] sub by blast
  have "\<exists>sc. length sc = sc_reclength s \<and> dup_loop s k kc rec h0 scratch =
     Some (if \<exists>i a. rows s i = Some a \<and> same_key (kstat s k) a rec
           then FM_ERR_DUP_KEY else FM_ERR_OK, sc)"
    using dup_loop_walk [OF assms(2) h(2) all assms(5) kc(3), of rec] unfolding ex .
  then obtain sc where sc: "length sc = sc_reclength s" "dup_loop s k kc rec h0 scratch =
     Some (if \<exists>i a. rows s i = Some a \<and> same_key (kstat s k) a rec
           then FM_ERR_DUP_KEY else FM_ERR_OK, sc)"
    by (elim exE conjE) (rule that)
  show thesis
  proof (cases "is_unique (kstat s k) \<and> \<not> has_null (kstat s k) rec")
    case True
    with kc h(1) sc show thesis
      by (intro that [of sc]) (simp_all add: fm_core_dup_check_def conflict_def)
  next
    case False
    with kc assms(5) show thesis
      by (intro that [of scratch]) (auto simp: fm_core_dup_check_def conflict_def)
  qed
qed

lemmas dup_check_correct = dup_check_linked [OF _ _ _ linked_rows_refl]

end
