(* ===== verification/FM_Reads.thy ===== *)
theory FM_Reads
  imports FM_Chain_Laws
begin

text \<open>
  The read operations of the core on a table between operations: point lookup, the
  continuation of an index scan, the table scan. Each returns, leaves the table and its
  locks as they were, and reports exactly the rows that are there.
\<close>

section \<open>Unpacking the invariant\<close>

lemma core_invD:
  assumes "core_inv s"
  shows "sizes_ok s" "keys_ok s" "slots_ok s" "sc_records s = int (card (dom (rows s)))"
    "\<And>k. k < sc_keys s \<Longrightarrow> key_ok (kstat s k)"
    "\<And>k. k < sc_keys s \<Longrightarrow> key_chains s k (rows s)"
    "\<And>k. k < sc_keys s \<Longrightarrow> unique_rows (kstat s k) (rows s)"
    "\<And>k b. k < sc_keys s \<Longrightarrow> b < nbk (kstat s k) \<Longrightarrow> key_lock s k b \<noteq> None"
  using assms by (auto simp: core_inv_def keys_ok_def)

lemma quiet_unlocked:
  assumes "core_inv s" "quiet s" "k < sc_keys s" "b < nbk (kstat s k)"
  shows "key_lock s k b = Some False"
  using assms core_invD(8) [of s k b] by (auto simp: quiet_def intro: not_held)

section \<open>Point lookup and index scan\<close>

lemma upd_lock_next [simp]: "fm_key_next (upd_lock s k b g) j = fm_key_next s j"
  by (rule ext) simp

text \<open>A lookup under its bucket lock is the walk of the chain in the locked state \<open>t\<close>; the
  lock is free again and nothing else has changed.\<close>

definition finish :: "'a \<Rightarrow> fm_i32 \<Rightarrow> (fm_err \<times> image \<times> fm_i32) option
    \<Rightarrow> ('a \<times> fm_err \<times> image \<times> fm_i32) option" where
  "finish s out r = do { (rc, buf, i) \<leftarrow> r; Some (s, rc, buf, if rc = FM_ERR_OK then i else out) }"

lemma lookup_walk_linked:
  assumes ok: "keys_ok s" "slots_ok s" "held s = {}" and k: "k < sc_keys s" and C: "key_chains s k R" "dom R \<subseteq> dom (rows s)"
  obtains t kc h0 xs where
    "linked (fm_key_next t k) h0 xs" "\<forall>i\<in>set xs. rows t i \<noteq> None"
    "\<And>i r. R i = Some r \<Longrightarrow> matches (kstat s k) r key \<Longrightarrow> i \<in> set xs"
    "\<And>a b. \<exists>x. cmp_key kc a b = Some x \<and> (x = 0) = matches (kstat s k) a b"
    "rows t = rows s" "slots_ok t" "sc_reclength t = sc_reclength s"
    "\<And>buf out. fm_core_find s k key buf out = finish s out (find_loop t k kc key h0 buf)"
    "\<And>cur buf out. fm_core_find_next s k key cur buf out =
       finish s out (find_next_loop t k kc key cur False h0 buf)"
proof -
  have K: "key_ok (kstat s k)" using ok(1) k by (simp add: keys_ok_def)
  then obtain kc where kc: "get_key s k = Some kc"
    "\<And>p. key_bucket kc p = Some (kbkt (kstat s k) p)"
    "\<And>r p. \<exists>x. cmp_key kc r p = Some x \<and> (x = 0) = matches (kstat s k) r p"
    by (rule key_callE) blast
  let ?b = "kbkt (kstat s k) key"
  let ?t = "upd_lock s k ?b True"
  have lt: "?b < nbk (kstat s k)" using K by (rule kbkt_less)
  obtain h0 xs where h0: "key_head s k ?b = Some h0" and l: "linked (fm_key_next s k) h0 xs"
    and xs: "set xs = {i. \<exists>r. R i = Some r \<and> bkt (kstat s k) r = ?b}"
    by (rule key_chainsE [OF C(1) lt])
  have "key_lock s k ?b \<noteq> None" using ok(1) k lt by (simp add: keys_ok_def)
  then have free: "key_lock s k ?b = Some False" using ok(3) by (auto intro: not_held)
  have fin: "unlock_bucket ?t k ?b = Some s"
    using free by (simp add: unlock_bucket_def spin_unlock_def upd_lock_restore)
  note run = fm_core_find_def fm_core_find_next_def finish_def kc(1,2) lock_bucket_free [OF free]
    h0 fin
  show thesis
    using l kc(3) xs matches_bkt [OF K] ok(2) C(2)
    by (intro that [of ?t h0 xs kc]) (auto simp: run case_prod_beta)
qed

lemma lookup_walk:
  assumes inv: "core_inv s" "quiet s" and k: "k < sc_keys s"
  obtains t kc h0 xs where
    "linked (fm_key_next t k) h0 xs" "\<forall>i\<in>set xs. rows t i \<noteq> None"
    "\<And>i r. rows s i = Some r \<Longrightarrow> matches (kstat s k) r key \<Longrightarrow> i \<in> set xs"
    "\<And>a b. \<exists>x. cmp_key kc a b = Some x \<and> (x = 0) = matches (kstat s k) a b"
    "rows t = rows s" "slots_ok t" "sc_reclength t = sc_reclength s"
    "\<And>buf out. fm_core_find s k key buf out = finish s out (find_loop t k kc key h0 buf)"
    "\<And>cur buf out. fm_core_find_next s k key cur buf out =
       finish s out (find_next_loop t k kc key cur False h0 buf)"
proof -
  have "held s = {}" using inv(2) by (simp add: quiet_def)
  with core_invD(2,3) [OF inv(1)] show thesis
    by (rule lookup_walk_linked [OF _ _ _ k core_invD(6) [OF inv(1) k] subset_refl, where key = key]) (rule that)
qed

text \<open>A lookup leaves the table as it found it.\<close>

lemma lookup_unchanged:
  assumes "core_inv s" "quiet s" "k < sc_keys s"
  shows "fm_core_find s k key buf out = Some (s', res) \<Longrightarrow> s' = s"
    "fm_core_find_next s k key cur buf out = Some (s', res) \<Longrightarrow> s' = s"
proof -
  from assms obtain t kc h0 where w:
    "\<And>buf out. fm_core_find s k key buf out = finish s out (find_loop t k kc key h0 buf)"
    "\<And>cur buf out. fm_core_find_next s k key cur buf out = finish s out (find_next_loop t k kc key cur False h0 buf)"
    by (rule lookup_walk [where key = key]) blast
  show "fm_core_find s k key buf out = Some (s', res) \<Longrightarrow> s' = s"
    "fm_core_find_next s k key cur buf out = Some (s', res) \<Longrightarrow> s' = s"
    unfolding w finish_def by (auto simp: bind_eq_Some_conv)
qed

lemma find_cases:
  assumes "core_inv s" "quiet s" "k < sc_keys s" "length buf = sc_reclength s"
  obtains (found) i bf where "fm_core_find s k key buf out = Some (s, FM_ERR_OK, bf, i)" "rows s i = Some bf" "matches (kstat s k) bf key"
  | (none) bf where "fm_core_find s k key buf out = Some (s, FM_ERR_NOT_FOUND, bf, out)"
    "\<forall>j r. rows s j = Some r \<longrightarrow> \<not> matches (kstat s k) r key"
proof -
  from assms(1-3) obtain t kc h0 xs where w:
    "linked (fm_key_next t k) h0 xs" "\<forall>i\<in>set xs. rows t i \<noteq> None"
    "\<And>i r. rows s i = Some r \<Longrightarrow> matches (kstat s k) r key \<Longrightarrow> i \<in> set xs"
    "\<And>a b. \<exists>x. cmp_key kc a b = Some x \<and> (x = 0) = matches (kstat s k) a b"
    "rows t = rows s" "slots_ok t" "sc_reclength t = sc_reclength s"
    "\<And>buf out. fm_core_find s k key buf out = finish s out (find_loop t k kc key h0 buf)"
    by (rule lookup_walk [where key = key]) blast
  have len: "length buf = sc_reclength t" using assms(4) w(7) by simp
  show thesis
  proof (cases "List.find (\<lambda>i. \<exists>r. rows t i = Some r \<and> matches (kstat s k) r key) xs")
    case None
    then have "\<forall>j r. rows s j = Some r \<longrightarrow> \<not> matches (kstat s k) r key" using w(3,5) by (auto simp: find_None_iff)
    then show thesis
      using find_loop_walk [OF w(6,1,2) len w(4), of key] None none by (auto simp: w(8) finish_def)
  next
    case (Some i)
    then obtain r where "rows s i = Some r" "matches (kstat s k) r key" using w(5) by (auto simp: find_Some_iff)
    then show thesis
      using find_loop_walk [OF w(6,1,2) len w(4), of key] Some w(5) found by (auto simp: w(8) finish_def)
  qed
qed

text \<open>C2. Point lookup. On a table between operations, \<^verbatim>\<open>fm_core_find\<close> returns and changes
  nothing. It reports FM_ERR_OK with the slot and the complete image of a row that matches
  the packed key, and FM_ERR_NOT_FOUND exactly when no row of the table matches.\<close>

theorem find_exact:
  assumes "core_inv s" "quiet s" "k < sc_keys s" "length buf = sc_reclength s"
  shows "\<exists>rc bf i. fm_core_find s k key buf out = Some (s, rc, bf, i) \<and>
    (rc = FM_ERR_OK \<and> rows s i = Some bf \<and> matches (kstat s k) bf key
     \<or> rc = FM_ERR_NOT_FOUND \<and> i = out \<and> (\<forall>j r. rows s j = Some r \<longrightarrow> \<not> matches (kstat s k) r key))"
  by (cases rule: find_cases [OF assms, where key = key and out = out]) blast+

text \<open>The element after the \<open>j\<close>-th match of a chain, found by walking the chain from its head.\<close>

lemma find_next_walk:
  fixes key :: image
  assumes t: "slots_ok t" "linked (fm_key_next t k) h0 xs" "\<forall>i\<in>set xs. rows t i \<noteq> None" "length buf = sc_reclength t"
    and cmp: "\<And>a b. \<exists>x. cmp_key kc a b = Some x \<and> (x = 0) = matches K a b"
    and L: "L = filter (\<lambda>i. \<exists>r. rows t i = Some r \<and> matches K r key) xs" and j: "j < length L"
  shows "if Suc j < length L then find_next_loop t k kc key (L ! j) False h0 buf = Some (FM_ERR_OK, the (rows t (L ! Suc j)), L ! Suc j)
    else \<exists>bf. find_next_loop t k kc key (L ! j) False h0 buf = Some (FM_ERR_NOT_FOUND, bf, FM_NULL_SLOT)"
proof -
  let ?P = "\<lambda>i. \<exists>r. rows t i = Some r \<and> matches K r key"
  define x where "x = L ! j"
  with j have "x \<in> set xs" using nth_mem [OF j] by (simp add: L)
  then obtain ys zs where sp: "xs = ys @ x # zs" by (auto simp: in_set_conv_decomp)
  with t(2) have l: "linked (fm_key_next t k) h0 (ys @ x # zs)" by simp
  then obtain n where n: "fm_key_next t k x = Some n" "linked (fm_key_next t k) n zs"
    using linked_suffix by fastforce
  have d: "distinct (ys @ x # zs)" using l by (rule linked_distinct)
  with n have "find_next_loop t k kc key x False h0 buf = find_loop t k kc key n buf"
    by (simp add: find_next_skip [OF l n(1)] find_next_after [OF n(2)])
  moreover have "L = filter ?P (ys @ x # zs)" by (simp only: L sp)
  from find_after [OF d this j x_def [symmetric]]
  have "List.find ?P zs = (if Suc j < length L then Some (L ! Suc j) else None)" .
  moreover have "\<forall>i\<in>set zs. rows t i \<noteq> None" using t(3) sp by simp
  ultimately show ?thesis
    using find_loop_walk [OF t(1) n(2) _ t(4) cmp, of key] unfolding x_def [symmetric] by (auto split: if_splits)
qed

lemma index_scan_list:
  fixes key :: image
  assumes "core_inv s" "quiet s" "k < sc_keys s"
  obtains L where "distinct L" "set L = {i. \<exists>r. rows s i = Some r \<and> matches (kstat s k) r key}"
    "\<forall>buf out. length buf = sc_reclength s \<longrightarrow> (case L of
       [] \<Rightarrow> \<exists>bf. fm_core_find s k key buf out = Some (s, FM_ERR_NOT_FOUND, bf, out)
     | i # _ \<Rightarrow> fm_core_find s k key buf out = Some (s, FM_ERR_OK, the (rows s i), i))"
    "\<forall>j < length L. \<forall>buf out. length buf = sc_reclength s \<longrightarrow> (if Suc j < length L
       then fm_core_find_next s k key (L ! j) buf out = Some (s, FM_ERR_OK, the (rows s (L ! Suc j)), L ! Suc j)
       else \<exists>bf. fm_core_find_next s k key (L ! j) buf out = Some (s, FM_ERR_NOT_FOUND, bf, out))"
proof -
  from assms obtain t kc h0 xs where w:
    "linked (fm_key_next t k) h0 xs" "\<forall>i\<in>set xs. rows t i \<noteq> None"
    "\<And>i r. rows s i = Some r \<Longrightarrow> matches (kstat s k) r key \<Longrightarrow> i \<in> set xs"
    "\<And>a b. \<exists>x. cmp_key kc a b = Some x \<and> (x = 0) = matches (kstat s k) a b"
    "rows t = rows s" "slots_ok t" "sc_reclength t = sc_reclength s"
    "\<And>buf out. fm_core_find s k key buf out = finish s out (find_loop t k kc key h0 buf)"
    "\<And>cur buf out. fm_core_find_next s k key cur buf out =
       finish s out (find_next_loop t k kc key cur False h0 buf)"
    by (rule lookup_walk [where key = key]) blast
  define L where "L = filter (\<lambda>i. \<exists>r. rows t i = Some r \<and> matches (kstat s k) r key) xs"
  show thesis
  proof (rule that [of L])
    show "distinct L" using linked_distinct [OF w(1)] by (simp add: L_def)
    show "set L = {i. \<exists>r. rows s i = Some r \<and> matches (kstat s k) r key}" using w(3,5) by (auto simp: L_def)
    have "case L of
       [] \<Rightarrow> \<exists>bf. fm_core_find s k key buf out = Some (s, FM_ERR_NOT_FOUND, bf, out)
     | i # _ \<Rightarrow> fm_core_find s k key buf out = Some (s, FM_ERR_OK, the (rows s i), i)" if "length buf = sc_reclength s" for buf out
      using find_loop_walk [OF w(6,1,2) _ w(4), of buf key, unfolded find_filter, folded L_def] w(5,7) that
      by (cases L) (auto simp: w(8) finish_def)
    then show "\<forall>buf out. length buf = sc_reclength s \<longrightarrow> (case L of
       [] \<Rightarrow> \<exists>bf. fm_core_find s k key buf out = Some (s, FM_ERR_NOT_FOUND, bf, out)
     | i # _ \<Rightarrow> fm_core_find s k key buf out = Some (s, FM_ERR_OK, the (rows s i), i))" by blast
    have "if Suc j < length L
       then fm_core_find_next s k key (L ! j) buf out = Some (s, FM_ERR_OK, the (rows s (L ! Suc j)), L ! Suc j)
       else \<exists>bf. fm_core_find_next s k key (L ! j) buf out = Some (s, FM_ERR_NOT_FOUND, bf, out)"
      if "j < length L" "length buf = sc_reclength s" for j buf out
      using find_next_walk [OF w(6,1,2) _ w(4) L_def that(1), of buf] w(5,7) that(2) by (auto simp: w(9) finish_def split: if_splits)
    then show "\<forall>j < length L. \<forall>buf out. length buf = sc_reclength s \<longrightarrow> (if Suc j < length L
       then fm_core_find_next s k key (L ! j) buf out = Some (s, FM_ERR_OK, the (rows s (L ! Suc j)), L ! Suc j)
       else \<exists>bf. fm_core_find_next s k key (L ! j) buf out = Some (s, FM_ERR_NOT_FOUND, bf, out))" by blast
  qed
qed

text \<open>C3. Index scan. For every packed key there is a list of slots, without repetition, of
  exactly the matching rows, such that \<^verbatim>\<open>fm_core_find\<close> yields its first element and
  \<^verbatim>\<open>fm_core_find_next\<close>, given one element, yields the next one, and FM_ERR_NOT_FOUND after
  the last: an index scan visits every matching row once.\<close>

theorem index_scan_complete:
  assumes "core_inv s" "quiet s" "k < sc_keys s" "length buf = sc_reclength s"
  shows "\<exists>L. distinct L \<and> set L = {i. \<exists>r. rows s i = Some r \<and> matches (kstat s k) r key} \<and>
    (case L of
       [] \<Rightarrow> \<exists>bf. fm_core_find s k key buf out = Some (s, FM_ERR_NOT_FOUND, bf, out)
     | i # _ \<Rightarrow> fm_core_find s k key buf out = Some (s, FM_ERR_OK, the (rows s i), i)) \<and>
    (\<forall>j < length L. if Suc j < length L
       then fm_core_find_next s k key (L ! j) buf out =
              Some (s, FM_ERR_OK, the (rows s (L ! Suc j)), L ! Suc j)
       else \<exists>bf. fm_core_find_next s k key (L ! j) buf out = Some (s, FM_ERR_NOT_FOUND, bf, out))"
  by (rule index_scan_list [OF assms(1-3), of key]) (use assms(4) in blast)

text \<open>One continuation from any slot: a match other than the slot itself, or none.\<close>

lemma find_next_absent:
  assumes "linked (fm_key_next s k) h xs" "cur \<notin> set xs"
  shows "find_next_loop s k kc key cur False h buf = Some (FM_ERR_NOT_FOUND, buf, FM_NULL_SLOT)"
  using assms
proof (induction xs arbitrary: h)
  case Nil
  then show ?case by (subst find_next_loop.simps) auto
next
  case (Cons i xs)
  then show ?case by (subst find_next_loop.simps) auto
qed

lemma find_next_cases:
  assumes "core_inv s" "quiet s" "k < sc_keys s" "length buf = sc_reclength s"
  obtains (found) i bf where "fm_core_find_next s k key cur buf out = Some (s, FM_ERR_OK, bf, i)"
      "rows s i = Some bf" "matches (kstat s k) bf key" "i \<noteq> cur"
  | (none) bf where "fm_core_find_next s k key cur buf out = Some (s, FM_ERR_NOT_FOUND, bf, out)"
proof -
  from assms(1-3) obtain t kc h0 xs where w:
    "linked (fm_key_next t k) h0 xs" "\<forall>i\<in>set xs. rows t i \<noteq> None"
    "\<And>a b. \<exists>x. cmp_key kc a b = Some x \<and> (x = 0) = matches (kstat s k) a b"
    "rows t = rows s" "slots_ok t" "sc_reclength t = sc_reclength s"
    "\<And>cur buf out. fm_core_find_next s k key cur buf out =
       finish s out (find_next_loop t k kc key cur False h0 buf)"
    by (rule lookup_walk [where key = key]) blast
  have len: "length buf = sc_reclength t" using assms(4) w(6) by simp
  show thesis
  proof (cases "cur \<in> set xs")
    case False
    then show thesis using none find_next_absent [OF w(1)] by (auto simp: w(7) finish_def)
  next
    case True
    then obtain ys zs where xs: "xs = ys @ cur # zs" by (meson split_list)
    have l: "linked (fm_key_next t k) h0 (ys @ cur # zs)" using w(1) xs by simp
    then obtain n where n: "fm_key_next t k cur = Some n" "linked (fm_key_next t k) n zs"
      using linked_suffix by fastforce
    have z: "cur \<notin> set zs" using linked_distinct [OF l] by simp
    have z': "\<forall>i\<in>set zs. rows t i \<noteq> None" using w(2) xs by auto
    have eq: "find_next_loop t k kc key cur False h0 buf = find_loop t k kc key n buf"
      by (simp add: find_next_skip [OF l n(1)] find_next_after [OF n(2) z])
    note walk = find_loop_walk [OF w(5) n(2) z' len w(3), of key]
    show thesis
    proof (cases "List.find (\<lambda>i. \<exists>r. rows t i = Some r \<and> matches (kstat s k) r key) zs")
      case None
      then show thesis using walk none by (auto simp: w(7) eq finish_def)
    next
      case (Some i)
      then obtain r where "rows s i = Some r" "matches (kstat s k) r key" "i \<in> set zs"
        using w(4) by (auto simp: find_Some_iff)
      moreover from this(3) z have "i \<noteq> cur" by blast
      ultimately show thesis using walk Some w(4) found by (auto simp: w(7) eq finish_def)
    qed
  qed
qed

section \<open>Table scan\<close>

lemma slot_exists:
  "sizes_ok s \<Longrightarrow> (fm_slot s i \<noteq> None) = (0 \<le> i \<and> i < int (sc_chunk_cnt s * FM_CHUNK_SIZE))"
  by (simp add: sizes_ok_def)

lemma sizes_bound:
  assumes "sizes_ok s"
  shows "sc_chunk_cnt s * FM_CHUNK_SIZE < 2 ^ 31" "fm_core_slot_count s = sc_chunk_cnt s * FM_CHUNK_SIZE"
proof -
  from assms have "sc_chunk_cnt s * FM_CHUNK_SIZE \<le> (sc_max_records s + 4095) div FM_CHUNK_SIZE * FM_CHUNK_SIZE"
    by (auto simp: sizes_ok_def)
  also have "\<dots> \<le> sc_max_records s + 4095" by simp
  also have "\<dots> < 2 ^ 31" using assms by (simp add: sizes_ok_def)
  finally show lt: "sc_chunk_cnt s * FM_CHUNK_SIZE < 2 ^ 31" .
  then show "fm_core_slot_count s = sc_chunk_cnt s * FM_CHUNK_SIZE"
    by (simp add: fm_core_slot_count_def)
qed

text \<open>The loop of a scan over \<open>n\<close> slots: the result at a position, and that the position moves over a slot without a row.\<close>

definition scanned :: "(fm_i32 \<rightharpoonup> image) \<Rightarrow> nat \<Rightarrow> (fm_err \<times> nat \<times> image) option \<Rightarrow> bool" where
  "scanned R pos res = (\<exists>rc p bf. res = Some (rc, p, bf) \<and>
    (rc = FM_ERR_OK \<and> pos < p \<and> R (int (p - 1)) = Some bf \<and> (\<forall>j. pos \<le> j \<longrightarrow> j < p - 1 \<longrightarrow> R (int j) = None)
     \<or> rc = FM_ERR_EOF \<and> (\<forall>j \<ge> pos. R (int j) = None)))"

lemma scanned_skip:
  assumes "scanned R (pos + 1) res" "R (int pos) = None"
  shows "scanned R pos res"
proof -
  have "R (int j) = None" if "pos \<le> j" "pos + 1 \<le> j \<longrightarrow> R (int j) = None" for j
    using that assms(2) by (cases "j = pos") auto
  then show ?thesis using assms(1) unfolding scanned_def by (metis Suc_eq_plus1 Suc_lessD)
qed

lemma scan_loop_exact:
  assumes S: "slots_ok s" and n: "n < 2 ^ 31" and len: "length buf = sc_reclength s"
    and slots: "\<And>j. j < n \<Longrightarrow> fm_slot s (int j) \<noteq> None" and out: "\<And>j. n \<le> j \<Longrightarrow> rows s (int j) = None"
  shows "scanned (rows s) pos (scan_loop s n pos buf)"
proof (induction "n - pos" arbitrary: pos)
  case 0
  then show ?case using out by (subst scan_loop.simps) (auto simp: scanned_def)
next
  case (Suc m)
  then have lt: "pos < n" by simp
  then have ix: "fm_i32_of pos = int pos" using n by simp
  show ?case
  proof (cases "rows s (int pos)")
    case None
    have "fm_core_read_row s (int pos) False 0 buf = Some (FM_ERR_DELETED, buf)"
      using slots [OF lt] None by (rule read_row_inactive)
    then have "scan_loop s n pos buf = scan_loop s n (pos + 1) buf"
      using lt ix by (subst scan_loop.simps) simp
    then show ?thesis using scanned_skip [OF Suc(1) [of "pos + 1"] None] Suc(2) by simp
  next
    case (Some r)
    then have "scan_loop s n pos buf = Some (FM_ERR_OK, pos + 1, r)"
      using lt ix read_row_active [OF S Some len] by (subst scan_loop.simps) simp
    with Some show ?thesis by (auto simp: scanned_def)
  qed
qed

lemma scan_next_slots:
  assumes S: "sizes_ok s" and ok: "slots_ok s" and len: "length buf = sc_reclength s"
  shows "scanned (rows s) pos (fm_core_scan_next s pos buf)"
proof -
  define n where "n = sc_chunk_cnt s * FM_CHUNK_SIZE"
  have n: "n < 2 ^ 31" "fm_core_slot_count s = n"
    using sizes_bound [OF S] by (simp_all add: n_def)
  have ex: "(fm_slot s (int j) \<noteq> None) = (j < n)" for j
    using slot_exists [OF S, of "int j"] unfolding n_def by linarith
  have "rows s (int j) = None" if "n \<le> j" for j
    using ex [of j] that by (cases "fm_slot s (int j)") (simp_all add: rows_def)
  then show ?thesis
    unfolding fm_core_scan_next_def n(2) using ex by (intro scan_loop_exact [OF ok n(1) len]) simp_all
qed

lemma scan_next_scanned: "core_inv s \<Longrightarrow> length buf = sc_reclength s \<Longrightarrow> scanned (rows s) pos (fm_core_scan_next s pos buf)"
  by (rule scan_next_slots [OF core_invD(1,3)])

text \<open>C6. Table scan. \<^verbatim>\<open>fm_core_scan_next\<close> returns the first row at or after its position
  and moves the position just behind it; it reports FM_ERR_EOF exactly when no row is left.
  So a scan from position 0 visits every row once, in slot order.\<close>

theorem scan_next_exact:
  assumes "core_inv s" "length buf = sc_reclength s"
  shows "\<exists>rc p bf. fm_core_scan_next s pos buf = Some (rc, p, bf) \<and>
    (rc = FM_ERR_OK \<and> pos < p \<and> rows s (int (p - 1)) = Some bf \<and>
       (\<forall>j. pos \<le> j \<longrightarrow> j < p - 1 \<longrightarrow> rows s (int j) = None)
     \<or> rc = FM_ERR_EOF \<and> (\<forall>j \<ge> pos. rows s (int j) = None))"
  using scan_next_scanned [OF assms, of pos] by (simp add: scanned_def)

end
