(* ===== verification/FM_Alloc_Laws.thy ===== *)
theory FM_Alloc_Laws
  imports FM_Reads
begin

text \<open>
  Slot allocation: growing by a chunk, popping and pushing the free list. The free list
  is the second interpretation of the link-cell interface.
\<close>

section \<open>Writes to the free list\<close>

text \<open>\<open>s'\<close> differs from \<open>s\<close> in the free list only.\<close>

definition free_step :: "FM_SHARE_CORE \<Rightarrow> FM_SHARE_CORE \<Rightarrow> bool" where
  "free_step s s' = (scal (s'\<lparr> sc_free_head := 0 \<rparr>) = scal (s\<lparr> sc_free_head := 0 \<rparr>) \<and>
     (sc_chunks s' = None) = (sc_chunks s = None) \<and> sc_keydef s' = sc_keydef s \<and>
     fm_key_next s' = fm_key_next s \<and>
     (\<forall>i. map_option (sl_free_next_update (\<lambda>_. 0)) (fm_slot s' i) =
          map_option (sl_free_next_update (\<lambda>_. 0)) (fm_slot s i)))"

lemma free_step_refl [simp]: "free_step s s"
  by (simp add: free_step_def)

lemma free_step_trans: "free_step s t \<Longrightarrow> free_step t u \<Longrightarrow> free_step s u"
  by (simp add: free_step_def)

lemma free_step_slot:
  assumes "free_step s s'"
  shows "(fm_slot s' i = None) = (fm_slot s i = None)"
    "fm_slot s' i = Some sl' \<Longrightarrow> \<exists>sl. fm_slot s i = Some sl \<and> sl_state sl' = sl_state sl \<and>
       sl_wlock sl' = sl_wlock sl \<and> sl_seq sl' = sl_seq sl \<and> sl_gen sl' = sl_gen sl \<and>
       sl_data sl' = sl_data sl"
proof -
  have eq: "map_option (sl_free_next_update (\<lambda>_. 0)) (fm_slot s' i) =
          map_option (sl_free_next_update (\<lambda>_. 0)) (fm_slot s i)"
    using assms by (simp add: free_step_def)
  then show "(fm_slot s' i = None) = (fm_slot s i = None)" by (metis option.map_disc_iff)
  assume "fm_slot s' i = Some sl'"
  with eq obtain sl where "fm_slot s i = Some sl"
    "sl_free_next_update (\<lambda>_. 0) sl' = sl_free_next_update (\<lambda>_. 0) sl"
    by (cases "fm_slot s i") auto
  then show "\<exists>sl. fm_slot s i = Some sl \<and> sl_state sl' = sl_state sl \<and>
       sl_wlock sl' = sl_wlock sl \<and> sl_seq sl' = sl_seq sl \<and> sl_gen sl' = sl_gen sl \<and>
       sl_data sl' = sl_data sl"
    by (cases sl, cases sl') simp
qed

lemma free_step_sym: "free_step s s' \<Longrightarrow> free_step s' s"
  by (simp add: free_step_def)

lemma free_step_frame:
  assumes "free_step s s'"
  shows "rows s' = rows s" "held s' = held s" "wlocked s' = wlocked s"
    "sizes_ok s' = sizes_ok s" "slots_ok s' = slots_ok s" "keys_ok s' = keys_ok s"
    "key_chains s' k R = key_chains s k R" "covers s' A = covers s A" "kstat s' = kstat s"
    "sc_keys s' = sc_keys s" "sc_records s' = sc_records s" "sc_struct_mutex s' = sc_struct_mutex s"
    "sc_reclength s' = sc_reclength s" "key_lock s' = key_lock s" "key_head s' = key_head s"
proof -
  note f = assms [unfolded free_step_def scal_def, simplified]
  have gk: "get_key s' = get_key s" using f by (auto simp: get_key_def fun_eq_iff)
  show kl: "key_lock s' = key_lock s" and kh: "key_head s' = key_head s" and ks: "kstat s' = kstat s"
    by (auto simp: key_lock_def key_head_def kstat_def gk fun_eq_iff)
  show "sc_keys s' = sc_keys s" "sc_records s' = sc_records s" "sc_struct_mutex s' = sc_struct_mutex s"
    "sc_reclength s' = sc_reclength s" using f by simp_all
  note N = free_step_slot(1) [OF assms]
  note S = free_step_slot(2) [OF assms] free_step_slot(2) [OF free_step_sym [OF assms]]
  show r: "rows s' = rows s"
  proof
    fix i show "rows s' i = rows s i"
      using N [of i] S(1) [of i] by (auto simp: rows_def split: option.splits)
  qed
  show "held s' = held s" by (simp add: held_def kl)
  show "wlocked s' = wlocked s" by (auto simp: wlocked_def dest: S)
  have "(fm_slot s' i \<noteq> None) = (fm_slot s i \<noteq> None)" for i using N by simp
  then show "sizes_ok s' = sizes_ok s" unfolding sizes_ok_def using f by (simp del: not_None_eq)
  show "slots_ok s' = slots_ok s"
    using f S unfolding slots_ok_def slot_ok_def by (metis (no_types, lifting))
  show "keys_ok s' = keys_ok s" using f by (simp add: keys_ok_def ks kl kh)
  show "key_chains s' k R = key_chains s k R" using f by (simp add: key_chains_def ks kh)
  show "covers s' A = covers s A" using f by (simp add: covers_def r)
qed

lemma free_step_push:
  "fm_slot s i \<noteq> None \<Longrightarrow> free_step s ((upd_free_next s i v)\<lparr> sc_free_head := h \<rparr>)"
  by (auto simp: free_step_def upd_free_next_def scal_def fun_eq_iff split: option.splits)

text \<open>Pushing one slot.\<close>

lemma free_list_push:
  assumes "free_list s xs" "fm_slot s i \<noteq> None" "rows s i = None" "i \<notin> set xs"
  shows "free_list ((upd_free_next s i (sc_free_head s))\<lparr> sc_free_head := i \<rparr>) (i # xs)"
proof -
  let ?t = "upd_free_next s i (sc_free_head s)"
  have l: "linked (free_next s) (sc_free_head s) xs" using assms(1) by (simp add: free_list_def)
  have nx: "free_next s i \<noteq> None" using assms(2) by (simp add: free_next_def)
  have pos: "0 \<le> i" using assms(2) fm_slot_nonneg by blast
  have "linked (free_next ?t) i (i # xs)"
    by (rule free_cells.linked_push [OF l assms(4) pos nx])
  moreover have "free_next (?t\<lparr> sc_free_head := i \<rparr>) = free_next ?t"
    by (rule ext) (simp add: free_next_def)
  ultimately show ?thesis using assms(1,3) by (simp add: free_list_def)
qed

lemma free_slot_correct:
  assumes "free_list s xs" "fm_slot s i \<noteq> None" "rows s i = None" "i \<notin> set xs"
  obtains s' where "fm_core_free_slot s i = Some s'" "free_step s s'" "free_list s' (i # xs)"
  using assms free_list_push [OF assms] free_step_push [OF assms(2)]
  by (auto simp: fm_core_free_slot_def)

text \<open>Pushing the slots of a fresh chunk, from the top down.\<close>

lemma push_fresh_correct:
  assumes "free_list s xs" "lo \<le> n" "n < 2 ^ 31"
    and "\<And>i. lo \<le> i \<Longrightarrow> i < n \<Longrightarrow> fm_slot s (int i) \<noteq> None \<and> rows s (int i) = None \<and> int i \<notin> set xs"
  shows "\<exists>s'. push_fresh lo n s = Some s' \<and> free_step s s' \<and>
     free_list s' (map int [lo..<n] @ xs)"
  using assms
proof (induction n arbitrary: s xs)
  case 0
  then show ?case by simp
next
  case (Suc i)
  show ?case
  proof (cases "lo \<le> i")
    case False
    with Suc.prems(1,2) show ?thesis by simp
  next
    case True
    let ?t = "(upd_free_next s (int i) (sc_free_head s))\<lparr> sc_free_head := int i \<rparr>"
    from Suc.prems(4) [OF True] have i: "fm_slot s (int i) \<noteq> None" "rows s (int i) = None" "int i \<notin> set xs"
      by auto
    have st: "free_step s ?t" using i(1) by (rule free_step_push)
    have fl: "free_list ?t (int i # xs)" using Suc.prems(1) i by (rule free_list_push)
    have "fm_slot ?t (int j) \<noteq> None \<and> rows ?t (int j) = None \<and> int j \<notin> set (int i # xs)"
      if "lo \<le> j" "j < i" for j
      using Suc.prems(4) [of j] that free_step_slot(1) [OF st] free_step_frame(1) [OF st] by auto
    with Suc.IH [OF fl True] Suc.prems(3) obtain s' where s': "push_fresh lo i ?t = Some s'"
      "free_step ?t s'" "free_list s' (map int [lo..<i] @ int i # xs)" by auto
    have "push_fresh lo (Suc i) s = Some s'" using True i(1) s'(1) Suc.prems(3) by auto
    moreover have "map int [lo..<Suc i] @ xs = map int [lo..<i] @ int i # xs" using True by simp
    ultimately show ?thesis using s'(2,3) free_step_trans [OF st] by auto
  qed
qed

section \<open>Growing by a chunk\<close>

lemma ops_dealloc_pow: "(ops_dealloc ^^ n) s = s\<lparr> sc_live := sc_live s - int n \<rparr>"
  by (induction n) (simp_all add: ops_dealloc_def)

text \<open>The allocator may refuse some request.\<close>

definition alloc_fails :: "FM_SHARE_CORE \<Rightarrow> bool" where
  "alloc_fails s = (\<exists>n size. \<not> sc_alloc s n size)"

lemma grow_key_next_result:
  obtains m where "grow_key_next n kk s = (s\<lparr> sc_nalloc := m, sc_live := sc_live s + int n \<rparr>, True)"
  | m where "grow_key_next n kk s = (s\<lparr> sc_nalloc := m, sc_live := sc_live s - int kk - 2 \<rparr>, False)"
      "alloc_fails s"
proof -
  have "\<exists>m. grow_key_next n kk s = (s\<lparr> sc_nalloc := m, sc_live := sc_live s + int n \<rparr>, True) \<or>
     grow_key_next n kk s = (s\<lparr> sc_nalloc := m, sc_live := sc_live s - int kk - 2 \<rparr>, False) \<and> alloc_fails s"
  proof (induction n arbitrary: kk s)
    case 0
    show ?case by (intro exI [of _ "sc_nalloc s"]) simp
  next
    case (Suc n)
    show ?case
    proof (cases "sc_alloc s (sc_nalloc s) 16384")
      case False
      then show ?thesis
        by (intro exI [of _ "Suc (sc_nalloc s)"])
          (auto simp: ops_alloc_def ops_dealloc_pow ops_dealloc_def alloc_fails_def)
    next
      case True
      let ?t = "s\<lparr> sc_nalloc := sc_nalloc s + 1, sc_live := sc_live s + 1 \<rparr>"
      have "grow_key_next (Suc n) kk s = grow_key_next n (Suc kk) ?t"
        using True by (simp add: ops_alloc_def)
      with Suc.IH [of "Suc kk" ?t] show ?thesis by (auto simp: algebra_simps alloc_fails_def)
    qed
  qed
  with that show thesis by blast
qed

definition fresh_chunk :: FM_CHUNK where
  "fresh_chunk = \<lparr> ch_slots = (\<lambda>_. new_FM_SLOT), ch_key_next = (\<lambda>_ _. FM_NULL_SLOT) \<rparr>"

text \<open>Growing either publishes one fresh chunk, or fails and leaves the table as it was,
  with every block it had obtained given back.\<close>

lemma grow_chunk_result:
  assumes "sc_chunks s = Some cs"
  obtains (grown) m l where "sc_chunk_cnt s < sc_chunk_cap s"
    "l = sc_live s + 1 + (if sc_keys s = 0 then 0 else 1 + int (sc_keys s))"
    "fm_core_grow_chunk s = Some (s\<lparr> sc_nalloc := m, sc_live := l,
       sc_chunks := Some (cs(sc_chunk_cnt s \<mapsto> fresh_chunk)), sc_chunk_cnt := sc_chunk_cnt s + 1 \<rparr>, FM_ERR_OK)"
  | (full) "sc_chunk_cap s \<le> sc_chunk_cnt s" "fm_core_grow_chunk s = Some (s, FM_ERR_FULL)"
  | (nomem) m where "sc_chunk_cnt s < sc_chunk_cap s"
    "fm_core_grow_chunk s = Some (s\<lparr> sc_nalloc := m \<rparr>, FM_ERR_NOMEM)" "alloc_fails s"
proof (cases "sc_chunk_cap s \<le> sc_chunk_cnt s")
  case True
  then show thesis using full by (simp add: fm_core_grow_chunk_def)
next
  case False
  let ?n = "sc_nalloc s"
  show thesis
  proof (cases "sc_alloc s ?n (sc_slot_size s * FM_CHUNK_SIZE)")
    case a1: False
    then have "alloc_fails s" by (auto simp: alloc_fails_def)
    with a1 show thesis using nomem [of "Suc ?n"] False assms
      by (simp add: fm_core_grow_chunk_def ops_alloc_def Let_def)
  next
    case a1: True
    show thesis
    proof (cases "sc_keys s = 0")
      case True
      then show thesis using grown [where m = "Suc ?n" and l = "sc_live s + 1"] False assms a1
        by (simp add: fm_core_grow_chunk_def ops_alloc_def Let_def fresh_chunk_def)
    next
      case keys: False
      show thesis
      proof (cases "sc_alloc s (Suc ?n) (8 * sc_keys s)")
        case a2: False
        then have "alloc_fails s" by (auto simp: alloc_fails_def)
        with a2 show thesis using nomem [of "Suc (Suc ?n)"] False assms a1 keys
          by (simp add: fm_core_grow_chunk_def ops_alloc_def ops_dealloc_def Let_def)
      next
        case a2: True
        let ?s2 = "s\<lparr> sc_nalloc := Suc (Suc ?n), sc_live := 2 + sc_live s \<rparr>"
        note run = fm_core_grow_chunk_def ops_alloc_def Let_def
        show thesis
        proof (cases rule: grow_key_next_result [of "sc_keys s" 0 ?s2])
          case (1 m)
          then show thesis using grown [where m = m and l = "2 + sc_live s + int (sc_keys s)"] False assms a1 a2 keys
            by (simp add: run fresh_chunk_def)
        next
          case (2 m)
          then show thesis using nomem [of m] False assms a1 a2 keys by (simp add: run alloc_fails_def)
        qed
      qed
    qed
  qed
qed

section \<open>The table after growing\<close>

text \<open>The allocator of the share, the blocks that are allocated for other things than
  chunks, and whether the key array exists.\<close>

definition chunk_blocks :: "FM_SHARE_CORE \<Rightarrow> int" where
  "chunk_blocks s = 1 + (if sc_keys s = 0 then 0 else 1 + int (sc_keys s))"

definition lasting where
  "lasting s = (sc_alloc s, sc_live s - int (sc_chunk_cnt s) * chunk_blocks s, sc_keydef s = None, sc_auto_key s)"

definition same_table :: "FM_SHARE_CORE \<Rightarrow> FM_SHARE_CORE \<Rightarrow> bool" where
  "same_table s s' = (rows s' = rows s \<and> kstat s' = kstat s \<and> sc_keys s' = sc_keys s \<and>
     sc_reclength s' = sc_reclength s \<and> sc_max_records s' = sc_max_records s \<and>
     held s' = held s \<and> wlocked s' = wlocked s \<and> sc_struct_mutex s' = sc_struct_mutex s \<and>
     lasting s' = lasting s \<and> gens s \<subseteq>\<^sub>m gens s')"

lemma same_table_refl [simp]: "same_table s s"
  by (simp add: same_table_def)

lemma same_table_trans: "same_table s t \<Longrightarrow> same_table t u \<Longrightarrow> same_table s u"
  by (auto simp: same_table_def intro: map_le_trans)

lemma free_step_gens: "free_step s s' \<Longrightarrow> gens s' = gens s"
proof
  fix i assume st: "free_step s s'"
  show "gens s' i = gens s i"
    using free_step_slot [OF st, of i] by (cases "fm_slot s' i") (auto simp: gens_def)
qed

lemma lasting_upd [simp]:
  "lasting (upd_slot s i sl) = lasting s"
  "lasting (upd_key_next s k i v) = lasting s"
  "lasting (upd_head s k b v) = lasting s"
  "lasting (upd_lock s k b g) = lasting s"
  "lasting (s\<lparr> sc_free_head := x \<rparr>) = lasting s"
  "lasting (s\<lparr> sc_records := n \<rparr>) = lasting s"
  "lasting (s\<lparr> sc_struct_mutex := g \<rparr>) = lasting s"
  by (simp_all add: lasting_def chunk_blocks_def)

lemma lasting_scal:
  "scal s' = scal s \<Longrightarrow> (sc_keydef s' = None) = (sc_keydef s = None) \<Longrightarrow> lasting s' = lasting s"
  by (simp add: lasting_def chunk_blocks_def scal_def)

lemma free_step_lasting: "free_step s s' \<Longrightarrow> lasting s' = lasting s"
  by (simp add: free_step_def scal_def lasting_def chunk_blocks_def)

lemma links_step_lasting: "links_step s s' \<Longrightarrow> lasting s' = lasting s"
  unfolding links_step_def by (intro lasting_scal) auto

lemma free_step_same_table: "free_step s s' \<Longrightarrow> same_table s s'"
  using free_step_lasting [of s s'] unfolding same_table_def
  by (simp add: free_step_frame free_step_gens) (simp add: free_step_def scal_def)

lemma links_step_same_table: "links_step s s' \<Longrightarrow> same_table s s'"
  using gens_cong [OF links_step_frame(14)] links_step_lasting [of s s']
  by (simp add: same_table_def links_step_frame)

text \<open>Slot \<open>i\<close> is taken off the free list and holds no row yet; all else is as between
  operations.\<close>

definition core_hole :: "FM_SHARE_CORE \<Rightarrow> fm_i32 \<Rightarrow> bool" where
  "core_hole s i = (sizes_ok s \<and> keys_ok s \<and> slots_ok s \<and>
     (\<forall>k < sc_keys s. key_chains s k (rows s) \<and> unique_rows (kstat s k) (rows s)) \<and>
     (\<exists>xs. free_list s xs \<and> i \<notin> set xs \<and> covers s (insert i (set xs))) \<and>
     fm_slot s i \<noteq> None \<and> rows s i = None \<and> sc_records s = int (card (dom (rows s))))"

text \<open>No slot at or above \<^verbatim>\<open>max_records\<close> is in use or free.\<close>

definition limited :: "FM_SHARE_CORE \<Rightarrow> bool" where
  "limited s = (\<exists>xs. free_list s xs \<and> (\<forall>i \<in> set xs \<union> dom (rows s). i < int (sc_max_records s)))"

abbreviation grow_state where
  "grow_state s cs m l \<equiv> s\<lparr> sc_nalloc := m, sc_live := l,
     sc_chunks := Some (cs(sc_chunk_cnt s \<mapsto> fresh_chunk)), sc_chunk_cnt := sc_chunk_cnt s + 1 \<rparr>"

lemma chunk_of: "0 \<le> i \<Longrightarrow> (nat (i div 4096) = n) = (int n * 4096 \<le> i \<and> i < int n * 4096 + 4096)"
  by (auto simp: nat_eq_iff2)

lemma chunk_at_grow:
  assumes "sc_chunks s = Some cs"
  shows "chunk_at (grow_state s cs m l) i =
     (if int (sc_chunk_cnt s * FM_CHUNK_SIZE) \<le> i \<and> i < int (sc_chunk_cnt s * FM_CHUNK_SIZE) + 4096
      then Some fresh_chunk else chunk_at s i)"
proof (cases "0 \<le> i")
  case True
  with assms show ?thesis using chunk_of [OF True, of "sc_chunk_cnt s"] by (auto simp: chunk_at_def)
next
  case False
  with assms show ?thesis by (auto simp: chunk_at_def)
qed

lemma cells_grow:
  assumes "sc_chunks s = Some cs"
  shows "fm_slot (grow_state s cs m l) i =
     (if int (sc_chunk_cnt s * FM_CHUNK_SIZE) \<le> i \<and> i < int (sc_chunk_cnt s * FM_CHUNK_SIZE) + 4096
      then Some new_FM_SLOT else fm_slot s i)"
    "fm_key_next (grow_state s cs m l) k i =
     (if int (sc_chunk_cnt s * FM_CHUNK_SIZE) \<le> i \<and> i < int (sc_chunk_cnt s * FM_CHUNK_SIZE) + 4096
      then Some FM_NULL_SLOT else fm_key_next s k i)"
  unfolding fm_slot_def fm_key_next_def chunk_at_grow [OF assms] by (simp_all add: fresh_chunk_def)

lemma grow_frame:
  fixes m :: nat and l :: int
  assumes S: "sizes_ok s" and cs: "sc_chunks s = Some cs" and lt: "sc_chunk_cnt s < sc_chunk_cap s"
  defines "t \<equiv> grow_state s cs m l"
  shows "rows t = rows s" "kstat t = kstat s" "key_lock t = key_lock s" "key_head t = key_head s"
    "wlocked t = wlocked s" "sizes_ok t" "slots_ok s \<Longrightarrow> slots_ok t"
    "key_chains s k R \<Longrightarrow> key_chains t k R" "keys_ok t = keys_ok s"
    "sc_keys t = sc_keys s" "sc_records t = sc_records s"
proof -
  define n where "n = int (sc_chunk_cnt s * FM_CHUNK_SIZE)"
  note cells = cells_grow [OF cs, where m = m and l = l, folded t_def n_def]
  have old: "(fm_slot s i \<noteq> None) = (0 \<le> i \<and> i < n)" for i
    unfolding n_def by (rule slot_exists [OF S])
  then have none: "fm_slot s i = None" if "n \<le> i" for i using that by (metis leD)
  show "rows t = rows s"
    by (auto simp: rows_def fun_eq_iff cells new_FM_SLOT_def none)
  have gk: "get_key t k = get_key s k" for k by (simp add: t_def get_key_def)
  show ks: "kstat t = kstat s" and kl: "key_lock t = key_lock s" and kh: "key_head t = key_head s"
    by (auto simp: kstat_def key_lock_def key_head_def gk fun_eq_iff)
  show "sc_keys t = sc_keys s" "sc_records t = sc_records s" by (simp_all add: t_def)
  then show "keys_ok t = keys_ok s" by (simp add: keys_ok_def ks kl kh)
  show "wlocked t = wlocked s"
    by (auto simp: wlocked_def cells new_FM_SLOT_def none split: if_splits)
  have "(fm_slot t i \<noteq> None) = (0 \<le> i \<and> i < 4096 + n)" for i
    using old [of i] by (auto simp: cells n_def)
  then show "sizes_ok t" using S lt by (simp add: sizes_ok_def t_def n_def del: not_None_eq)
  show "slots_ok t" if "slots_ok s"
  proof -
    have "sc_reclength t = sc_reclength s" by (simp add: t_def)
    with that show ?thesis
      by (auto simp: slots_ok_def slot_ok_def cells new_FM_SLOT_def split: if_splits)
  qed
  show "key_chains t k R" if K: "key_chains s k R"
    unfolding key_chains_def ks kh
  proof (intro allI impI)
    fix b assume "b < nbk (kstat s k)"
    then obtain h0 xs where c: "key_head s k b = Some h0" "linked (fm_key_next s k) h0 xs"
      "set xs = {i. \<exists>r. R i = Some r \<and> bkt (kstat s k) r = b}"
      by (rule key_chainsE [OF K])
    have "fm_key_next t k x = fm_key_next s k x" if "x \<in> set xs" for x
      using linked_defined [OF c(2) that] fm_key_next_defined [of s k x] none [of x]
      by (auto simp: cells)
    then have "linked (fm_key_next t k) h0 xs" using c(2) by (subst linked_cong)
    with c show "\<exists>h0 xs. key_head s k b = Some h0 \<and> linked (fm_key_next t k) h0 xs \<and>
      set xs = {i. \<exists>r. R i = Some r \<and> bkt (kstat s k) r = b}" by blast
  qed
qed

section \<open>Allocating a slot\<close>

lemma cap_chunks: "sizes_ok s \<Longrightarrow>
  (sc_chunk_cnt s < sc_chunk_cap s) = (sc_chunk_cnt s * FM_CHUNK_SIZE < sc_max_records s)"
  by (auto simp: sizes_ok_def less_eq_div_iff_mult_less_eq)

text \<open>A slot comes off the free list, or is the first of a fresh chunk.\<close>

lemma alloc_pop:
  assumes inv: "core_inv s" and h: "sc_free_head s \<noteq> FM_NULL_SLOT"
  obtains s' i where "fm_core_alloc_slot s = Some (s', i)" "i \<noteq> FM_NULL_SLOT" "core_hole s' i"
    "same_table s s'" "limited s \<Longrightarrow> limited s' \<and> i < int (sc_max_records s)"
proof -
  from inv obtain xs where fl: "free_list s xs" and cov: "covers s (set xs)" by (auto simp: core_inv_def)
  with h obtain i ys where xs: "xs = i # ys" by (cases xs) (auto simp: free_list_def)
  with fl obtain n where n: "sc_free_head s = i" "0 \<le> i" "free_next s i = Some n"
    "linked (free_next s) n ys" and r: "rows s i = None" "\<forall>j\<in>set ys. rows s j = None"
    by (auto simp: free_list_def)
  from fl have "distinct xs" unfolding free_list_def by (blast dest: linked_distinct)
  then have dist: "i \<notin> set ys" using xs by simp
  define s' where "s' = s\<lparr> sc_free_head := n \<rparr>"
  have run: "fm_core_alloc_slot s = Some (s', i)" using h n by (simp add: fm_core_alloc_slot_def s'_def)
  have fn: "free_next s' = free_next s" by (rule ext) (simp add: s'_def free_next_def)
  then have fl': "free_list s' ys" using n r by (simp add: free_list_def s'_def)
  have st: "free_step s s'" by (auto simp: free_step_def s'_def scal_def fun_eq_iff)
  note fr = free_step_frame [OF st]
  have "fm_slot s i \<noteq> None" using n(3) by (auto simp: free_next_def)
  then have "fm_slot s' i \<noteq> None" by (simp add: s'_def)
  moreover have "covers s' (insert i (set ys))" using cov xs fr(8) by simp
  ultimately have hole: "core_hole s' i"
    using inv fl' dist r(1) fr by (auto simp: core_hole_def core_inv_def simp del: not_None_eq)
  have lim: "limited s' \<and> i < int (sc_max_records s)" if "limited s"
  proof -
    from that obtain zs where "free_list s zs" "\<forall>j \<in> set zs \<union> dom (rows s). j < int (sc_max_records s)"
      by (auto simp: limited_def)
    moreover from this fl have "zs = xs" by (auto simp: free_list_def dest: linked_unique)
    ultimately show ?thesis using xs fl' by (auto simp: limited_def s'_def)
  qed
  have "i \<noteq> FM_NULL_SLOT" using n(2) by auto
  with run hole free_step_same_table [OF st] lim show thesis by (intro that)
qed

text \<open>The slots of a fresh chunk within the limit, except the first one, go on the free list.\<close>

lemma alloc_fresh_run:
  assumes S: "sizes_ok s" and h: "sc_free_head s = FM_NULL_SLOT" and cs: "sc_chunks s = Some cs"
    and lt: "sc_chunk_cnt s < sc_chunk_cap s"
    and g: "fm_core_grow_chunk s = Some (grow_state s cs m l, FM_ERR_OK)"
    and n: "n = sc_chunk_cnt s * FM_CHUNK_SIZE" and e: "e = min (sc_max_records s) (n + FM_CHUNK_SIZE)"
  obtains s' where "fm_core_alloc_slot s = Some (s', int n)" "free_step (grow_state s cs m l) s'" "free_list s' (map int [n + 1..<e])"
    "n < e" "fm_slot (grow_state s cs m l) (int n) = Some new_FM_SLOT"
proof -
  define t where "t = grow_state s cs m l"
  have nb: "n < 2 ^ 31" "n < sc_max_records s" "sc_max_records s + FM_CHUNK_SIZE \<le> 2 ^ 31"
    using sizes_bound [OF S] cap_chunks [OF S] lt S by (simp_all add: n sizes_ok_def)
  then have eb: "n + 1 \<le> e" "e < 2 ^ 31" "e \<le> n + FM_CHUNK_SIZE" by (auto simp: e)
  have fl: "free_list t []" using h by (simp add: free_list_def t_def)
  have slots: "fm_slot t (int i) = Some new_FM_SLOT" if "n \<le> i" "i < n + FM_CHUNK_SIZE" for i
    using that unfolding t_def n cells_grow [OF cs] by simp
  then have new: "fm_slot t (int i) \<noteq> None \<and> rows t (int i) = None \<and> int i \<notin> set []"
    if "n + 1 \<le> i" "i < e" for i
    using that eb by (simp add: rows_def new_FM_SLOT_def)
  from push_fresh_correct [OF fl eb(1,2) new] obtain s' where
    p: "push_fresh (n + 1) e t = Some s'" "free_step t s'" "free_list s' (map int [n + 1..<e])" by auto
  have ee: "(if n + FM_CHUNK_SIZE > sc_max_records s then sc_max_records s else n + FM_CHUNK_SIZE) = e" by (simp add: e)
  have "sc_max_records t = sc_max_records s" by (simp add: t_def)
  moreover have "u32 n = n" "u32 (n + FM_CHUNK_SIZE) = n + FM_CHUNK_SIZE" "n mod FM_CHUNK_SIZE = 0"
    using nb by (simp_all add: n)
  moreover have "u32 (sc_chunk_cnt s * FM_CHUNK_SIZE) = n" using nb by (simp add: n)
  moreover have "fm_core_grow_chunk s = Some (t, FM_ERR_OK)" using g by (simp only: t_def)
  ultimately have "fm_core_alloc_slot s = Some (s', int n)"
    using h p(1) nb ee unfolding fm_core_alloc_slot_def by (simp add: Let_def split: if_splits)
  then show thesis using that p(2,3) eb slots [of n] by (simp add: t_def)
qed

text \<open>Before the chunk no slot was free; the new ones are the slot taken, those on the list, and those beyond the limit.\<close>

lemma fresh_covers:
  assumes inv: "core_inv s" and h: "sc_free_head s = FM_NULL_SLOT"
    and s': "sc_chunk_cnt s' = sc_chunk_cnt s + 1" "sc_max_records s' = sc_max_records s" "rows s' = rows s"
    and n: "n = sc_chunk_cnt s * FM_CHUNK_SIZE" and e: "e = min (sc_max_records s) (n + FM_CHUNK_SIZE)"
  shows "covers s' (insert (int n) (set (map int [n + 1..<e])))"
  unfolding covers_def
proof (intro allI impI)
  fix i assume i: "0 \<le> i" "i < int (sc_chunk_cnt s' * FM_CHUNK_SIZE)" "i < int (sc_max_records s')"
  show "i \<in> insert (int n) (set (map int [n + 1..<e])) \<or> i \<in> dom (rows s')"
  proof (cases "i < int n")
    case True
    from inv h have "covers s {}" by (auto simp: core_inv_def free_list_def)
    with True i s' show ?thesis by (auto simp: covers_def n)
  next
    case False
    with i s' have "n \<le> nat i" "nat i < e" by (auto simp: e n)
    moreover from i(1) have "i = int (nat i)" by simp
    ultimately show ?thesis
      by (metis Suc_eq_plus1 atLeastLessThan_iff image_eqI insertCI le_eq_less_or_eq less_eq_Suc_le list.set_map set_upt)
  qed
qed

lemma alloc_fresh:
  assumes inv: "core_inv s" and h: "sc_free_head s = FM_NULL_SLOT" and cs: "sc_chunks s = Some cs"
    and lt: "sc_chunk_cnt s < sc_chunk_cap s"
    and l: "l = sc_live s + 1 + (if sc_keys s = 0 then 0 else 1 + int (sc_keys s))"
    and g: "fm_core_grow_chunk s = Some (grow_state s cs m l, FM_ERR_OK)"
  obtains s' i where "fm_core_alloc_slot s = Some (s', i)" "i \<noteq> FM_NULL_SLOT" "core_hole s' i"
    "same_table s s'" "limited s \<Longrightarrow> limited s' \<and> i < int (sc_max_records s)"
    "i = int (sc_chunk_cnt s * FM_CHUNK_SIZE)"
    "free_list s' (map int [sc_chunk_cnt s * FM_CHUNK_SIZE + 1..<min (sc_max_records s) (sc_chunk_cnt s * FM_CHUNK_SIZE + FM_CHUNK_SIZE)])"
proof -
  note D = core_invD [OF inv]
  define t where "t = grow_state s cs m l"
  define n where "n = sc_chunk_cnt s * FM_CHUNK_SIZE"
  define e where "e = min (sc_max_records s) (n + FM_CHUNK_SIZE)"
  note gf = grow_frame [OF D(1) cs lt, where m = m and l = l, folded t_def]
  obtain s' where run: "fm_core_alloc_slot s = Some (s', int n)" and p: "free_step t s'" "free_list s' (map int [n + 1..<e])" "n < e"
    and slot: "fm_slot t (int n) = Some new_FM_SLOT"
    by (rule alloc_fresh_run [OF D(1) h cs lt g n_def e_def, folded t_def])
  note fr = free_step_frame [OF p(1)]
  have r: "rows s' = rows s" using fr(1) gf(1) by simp
  have c: "sc_chunk_cnt s' = sc_chunk_cnt s + 1" "sc_max_records s' = sc_max_records s"
    using p(1) by (simp_all add: free_step_def scal_def t_def)
  have free: "rows s (int n) = None"
    using slot gf(1) by (auto simp: rows_def new_FM_SLOT_def fun_eq_iff dest: spec [of _ "int n"])
  have "fm_slot s' (int n) \<noteq> None" using free_step_slot(1) [OF p(1)] slot by simp
  moreover have "covers s' (insert (int n) (set (map int [n + 1..<e])))" by (rule fresh_covers [OF inv h c r n_def e_def])
  moreover have "int n \<notin> set (map int [n + 1..<e])" by auto
  ultimately have hole: "core_hole s' (int n)"
    unfolding core_hole_def r fr(4-6,9-11) gf(2,9-11) using gf(6,7,8) p(2) free D fr(7) by blast
  have "gens s j = gens t j" if "j \<in> dom (gens s)" for j
    using that slot_exists [OF D(1), of j] unfolding gens_def t_def cells_grow [OF cs] by auto
  then have "gens s \<subseteq>\<^sub>m gens t" by (simp add: map_le_def)
  moreover have "lasting t = lasting s"
    using l by (simp add: t_def lasting_def chunk_blocks_def algebra_simps)
  ultimately have st: "same_table s t"
    using gf by (simp add: same_table_def held_def) (simp add: t_def)
  have lim: "limited s' \<and> int n < int (sc_max_records s)" if "limited s"
  proof -
    have "\<forall>i \<in> dom (rows s). i < int (sc_max_records s)" using that by (auto simp: limited_def)
    then show ?thesis using p(2,3) r c(2) by (fastforce simp: limited_def e_def)
  qed
  show thesis
    using that [OF run _ hole same_table_trans [OF st free_step_same_table [OF p(1)]] lim] p(2) by (simp add: n_def e_def)
qed

end
