(* ===== verification/FM_Write_Laws.thy ===== *)
theory FM_Write_Laws
  imports FM_Alloc_Laws
begin

text \<open>
  What the row operations share: the outcome of a slot allocation, the frame of a write to
  one slot, taking and releasing the structure mutex, and how a set of unique rows grows.
\<close>

section \<open>Outcome of an allocation\<close>

lemma nalloc_frame [simp]:
  "fm_slot (s\<lparr> sc_nalloc := m \<rparr>) i = fm_slot s i"
  "fm_key_next (s\<lparr> sc_nalloc := m \<rparr>) k = fm_key_next s k"
  "get_key (s\<lparr> sc_nalloc := m \<rparr>) k = get_key s k"
  by (simp_all add: fm_slot_def fm_key_next_def chunk_at_def get_key_def fun_eq_iff)

lemma nalloc_table [simp]:
  "core_inv (s\<lparr> sc_nalloc := m \<rparr>) = core_inv s"
  "same_table s (s\<lparr> sc_nalloc := m \<rparr>)"
  "limited (s\<lparr> sc_nalloc := m \<rparr>) = limited s"
proof -
  let ?t = "s\<lparr> sc_nalloc := m \<rparr>"
  have r: "rows ?t = rows s" by (rule rows_cong) simp
  have k: "kstat ?t = kstat s" "key_lock ?t = key_lock s" "key_head ?t = key_head s"
    by (auto simp: kstat_def key_lock_def key_head_def fun_eq_iff)
  have f: "free_next ?t = free_next s" by (auto simp: free_next_def)
  show "core_inv ?t = core_inv s"
    by (simp add: core_inv_def sizes_ok_def keys_ok_def slots_ok_def slot_ok_def key_chains_def
        free_list_def covers_def r k f)
  have "gens ?t = gens s" by (rule gens_cong) (simp add: fun_eq_iff)
  then show "same_table s ?t" by (simp add: same_table_def r k held_def wlocked_def lasting_def chunk_blocks_def)
  show "limited ?t = limited s" by (simp add: limited_def free_list_def r f)
qed

text \<open>A slot is handed out, or none is left: then no slot is free, the table is unchanged,
  and the chunk count says whether the limit was met or memory ran out.\<close>

lemma alloc_slot_cases:
  assumes inv: "core_inv s"
  obtains (slot) s' i where "fm_core_alloc_slot s = Some (s', i)" "i \<noteq> FM_NULL_SLOT" "core_hole s' i"
    "same_table s s'" "limited s \<Longrightarrow> limited s' \<and> i < int (sc_max_records s)"
  | (none) m where "fm_core_alloc_slot s = Some (s\<lparr> sc_nalloc := m \<rparr>, FM_NULL_SLOT)"
    "sc_free_head s = FM_NULL_SLOT" "sc_chunk_cap s \<le> sc_chunk_cnt s \<or> alloc_fails s"
proof (cases "sc_free_head s = FM_NULL_SLOT")
  case False
  show thesis by (rule alloc_pop [OF inv False]) (rule slot)
next
  case True
  note S = core_invD(1) [OF inv]
  let ?n = "sc_chunk_cnt s * FM_CHUNK_SIZE"
  from S obtain cs where cs: "sc_chunks s = Some cs" by (auto simp: sizes_ok_def)
  have n: "u32 ?n = ?n" using sizes_bound(1) [OF S] by simp
  show thesis
  proof (cases rule: grow_chunk_result [OF cs])
    case (1 m l)
    show thesis by (rule alloc_fresh [OF inv True cs 1]) (rule slot)
  next
    case 2
    then have "sc_max_records s \<le> ?n" using cap_chunks [OF S] by linarith
    then have "fm_core_alloc_slot s = Some (s, FM_NULL_SLOT)"
      using True unfolding fm_core_alloc_slot_def Let_def n by simp
    then show thesis using none [of "sc_nalloc s"] True 2(1) by simp
  next
    case (3 m)
    then have "?n < sc_max_records s" using cap_chunks [OF S] by linarith
    then have "fm_core_alloc_slot s = Some (s\<lparr> sc_nalloc := m \<rparr>, FM_NULL_SLOT)"
      using True 3(2) unfolding fm_core_alloc_slot_def Let_def n by simp
    then show thesis using none True 3(3) by simp
  qed
qed

lemma finite_rows:
  assumes "sizes_ok s"
  shows "finite (dom (rows s))"
proof (rule finite_subset)
  show "dom (rows s) \<subseteq> {0..<int (sc_chunk_cnt s * FM_CHUNK_SIZE)}"
  proof
    fix i assume "i \<in> dom (rows s)"
    then have "fm_slot s i \<noteq> None" by (auto dest: rows_slot)
    then show "i \<in> {0..<int (sc_chunk_cnt s * FM_CHUNK_SIZE)}" using slot_exists [OF assms] by simp
  qed
qed simp

text \<open>A table with no free slot and no room for a chunk holds at least \<^verbatim>\<open>max_records\<close> rows.\<close>

lemma full_records:
  assumes inv: "core_inv s" and "sc_free_head s = FM_NULL_SLOT" "sc_chunk_cap s \<le> sc_chunk_cnt s"
  shows "int (sc_max_records s) \<le> sc_records s"
proof -
  note S = core_invD(1) [OF inv]
  have le: "sc_max_records s \<le> sc_chunk_cnt s * FM_CHUNK_SIZE"
    using cap_chunks [OF S] assms(3) by linarith
  from inv assms(2) have "covers s {}" by (auto simp: core_inv_def free_list_def)
  with le have sub: "{0..<int (sc_max_records s)} \<subseteq> dom (rows s)" by (auto simp: covers_def)
  have "finite (dom (rows s))" using S by (rule finite_rows)
  with sub have "card {0..<int (sc_max_records s)} \<le> card (dom (rows s))" by (intro card_mono)
  then show ?thesis using core_invD(4) [OF inv] by simp
qed

section \<open>A write to one slot\<close>

lemma core_holeD:
  assumes "core_hole s i"
  shows "sizes_ok s" "keys_ok s" "slots_ok s" "sc_records s = int (card (dom (rows s)))"
    "fm_slot s i \<noteq> None" "rows s i = None"
    "\<And>k. k < sc_keys s \<Longrightarrow> key_ok (kstat s k)"
    "\<And>k. k < sc_keys s \<Longrightarrow> key_chains s k (rows s)"
    "\<And>k. k < sc_keys s \<Longrightarrow> unique_rows (kstat s k) (rows s)"
    "\<exists>xs. free_list s xs \<and> i \<notin> set xs \<and> covers s (insert i (set xs))"
  using assms by (simp_all add: core_hole_def keys_ok_def)


lemma slot_write:
  assumes "fm_slot s i = Some sl" "sl_free_next sl' = sl_free_next sl"
  shows "sizes_ok (upd_slot s i sl') = sizes_ok s" "keys_ok (upd_slot s i sl') = keys_ok s"
    "key_chains (upd_slot s i sl') k R = key_chains s k R"
    "free_next (upd_slot s i sl') = free_next s"
    "slots_ok s \<Longrightarrow> slot_ok s sl' \<Longrightarrow> slots_ok (upd_slot s i sl')"
    "sl_wlock sl' = sl_wlock sl \<Longrightarrow> wlocked (upd_slot s i sl') = wlocked s"
    "held (upd_slot s i sl') = held s"
proof -
  let ?t = "upd_slot s i sl'"
  have "(fm_slot ?t j \<noteq> None) = (fm_slot s j \<noteq> None)" for j using assms(1) by simp
  then show "sizes_ok ?t = sizes_ok s" unfolding sizes_ok_def by (simp del: not_None_eq fm_slot_upd_slot)
  show "keys_ok ?t = keys_ok s" by (simp add: keys_ok_def)
  show "key_chains ?t k R = key_chains s k R" by (rule key_chains_cong) simp_all
  show "free_next ?t = free_next s" using assms by (auto simp: free_next_def)
  show "slots_ok ?t" if "slots_ok s" "slot_ok s sl'"
    using that by (auto simp: slots_ok_def slot_ok_def split: if_splits)
  show "wlocked ?t = wlocked s" if "sl_wlock sl' = sl_wlock sl"
    using that assms by (auto simp: wlocked_def split: if_splits)
  show "held ?t = held s" by (simp add: held_def)
qed

section \<open>The structure mutex\<close>

lemma struct_frame [simp]:
  "sizes_ok (s\<lparr> sc_struct_mutex := g \<rparr>) = sizes_ok s"
  "keys_ok (s\<lparr> sc_struct_mutex := g \<rparr>) = keys_ok s"
  "slots_ok (s\<lparr> sc_struct_mutex := g \<rparr>) = slots_ok s"
  "key_chains (s\<lparr> sc_struct_mutex := g \<rparr>) k R = key_chains s k R"
  "free_list (s\<lparr> sc_struct_mutex := g \<rparr>) xs = free_list s xs"
  "covers (s\<lparr> sc_struct_mutex := g \<rparr>) A = covers s A"
  "held (s\<lparr> sc_struct_mutex := g \<rparr>) = held s"
  "wlocked (s\<lparr> sc_struct_mutex := g \<rparr>) = wlocked s"
proof -
  let ?t = "s\<lparr> sc_struct_mutex := g \<rparr>"
  show "key_chains ?t k R = key_chains s k R" by (rule key_chains_cong) simp_all
  have "free_next ?t = free_next s" by (auto simp: free_next_def)
  then show "free_list ?t xs = free_list s xs" by (simp add: free_list_def)
qed (simp_all add: sizes_ok_def keys_ok_def slots_ok_def slot_ok_def covers_def held_def wlocked_def)

lemma struct_inv [simp]:
  "core_inv (s\<lparr> sc_struct_mutex := g \<rparr>) = core_inv s"
  "core_hole (s\<lparr> sc_struct_mutex := g \<rparr>) i = core_hole s i"
  "limited (s\<lparr> sc_struct_mutex := g \<rparr>) = limited s"
  by (simp_all add: core_inv_def core_hole_def limited_def)

section \<open>Unique rows\<close>

lemma unique_rows_add:
  assumes "key_ok K" "unique_rows K R" "\<not> conflict K R r" "R i = None"
  shows "unique_rows K (R(i \<mapsto> r))"
  unfolding unique_rows_def
proof (intro impI allI notI)
  fix p q a b
  assume u: "is_unique K" and p: "(R(i \<mapsto> r)) p = Some a" and q: "(R(i \<mapsto> r)) q = Some b"
    and pq: "p \<noteq> q" and n: "\<not> has_null K a" and e: "same_key K a b"
  have n': "\<not> has_null K b" using n same_key_null [OF assms(1) e] by simp
  show False
  proof (cases "p = i")
    case True
    with p q pq have "a = r" "R q = Some b" by auto
    then show False using u n same_key_sym [OF assms(1) e] assms(3) by (auto simp: conflict_def)
  next
    case False
    with p have "R p = Some a" by simp
    then show False using u n n' e pq q assms(2,3)
      by (cases "q = i") (auto simp: conflict_def unique_rows_def)
  qed
qed

lemma unique_rows_remove: "unique_rows K R \<Longrightarrow> unique_rows K (R(i := None))"
  unfolding unique_rows_def by (auto split: if_splits)

section \<open>What every row operation keeps\<close>

definition same_shape :: "FM_SHARE_CORE \<Rightarrow> FM_SHARE_CORE \<Rightarrow> bool" where
  "same_shape s s' = (kstat s' = kstat s \<and> sc_keys s' = sc_keys s \<and>
     sc_reclength s' = sc_reclength s \<and> sc_max_records s' = sc_max_records s \<and>
     wlocked s' = wlocked s \<and> lasting s' = lasting s)"

lemma same_shape_refl [simp]: "same_shape s s"
  by (simp add: same_shape_def)

lemma same_shape_trans: "same_shape s t \<Longrightarrow> same_shape t u \<Longrightarrow> same_shape s u"
  by (simp add: same_shape_def)

lemma same_table_shape: "same_table s s' \<Longrightarrow> same_shape s s'"
  by (simp add: same_table_def same_shape_def)

lemma same_shape_struct [simp]:
  "same_shape s (t\<lparr> sc_struct_mutex := g \<rparr>) = same_shape s t"
  "same_shape (s\<lparr> sc_struct_mutex := g \<rparr>) t = same_shape s t"
proof -
  have k: "kstat (t\<lparr> sc_struct_mutex := g \<rparr>) = kstat t" for t by (rule ext) simp
  show "same_shape s (t\<lparr> sc_struct_mutex := g \<rparr>) = same_shape s t"
    "same_shape (s\<lparr> sc_struct_mutex := g \<rparr>) t = same_shape s t"
    by (simp_all add: same_shape_def k lasting_def chunk_blocks_def)
qed

lemma same_shape_alloc: "same_shape s s' \<Longrightarrow> alloc_fails s' = alloc_fails s"
  by (simp add: same_shape_def lasting_def alloc_fails_def)

end
