(* ===== verification/FM_Insert.thy ===== *)
theory FM_Insert
  imports FM_Write_Laws
begin

text \<open>
  \<^verbatim>\<open>fm_core_insert_row\<close> and its correctness. The key loop links the new slot into one chain
  per key; a duplicate unlinks it again from the chains of the earlier keys.
\<close>

section \<open>The operation\<close>

text \<open>The loop \<^verbatim>\<open>while (k-- > 0)\<close> that rolls the earlier keys back, and the value of the
  32-bit counter \<^verbatim>\<open>k\<close> after it: the test that ends the loop has decremented zero.\<close>

primrec insert_rollback ::
  "nat \<Rightarrow> FM_SHARE_CORE \<Rightarrow> image \<Rightarrow> fm_i32 \<Rightarrow> (FM_SHARE_CORE \<times> fm_u32) option" where
  "insert_rollback 0 s rec idx = Some (s, 0 - 1)"
| "insert_rollback (Suc k) s rec idx = do {
     kc2 \<leftarrow> get_key s k;
     b2 \<leftarrow> fm_core_key_bucket kc2 rec;
     s \<leftarrow> lock_bucket s k b2;
     (s, rc) \<leftarrow> fm_core_chain_unlink s k b2 idx;
     s \<leftarrow> unlock_bucket s k b2;
     insert_rollback k s rec idx }"

text \<open>The key loop with \<open>n\<close> keys left, at key \<open>k\<close>. The last component is the counter after
  the rollback if a duplicate was met.\<close>

primrec insert_keys ::
  "nat \<Rightarrow> nat \<Rightarrow> FM_SHARE_CORE \<Rightarrow> image \<Rightarrow> fm_i32 \<Rightarrow> image
     \<Rightarrow> (FM_SHARE_CORE \<times> image \<times> fm_u32 option) option" where
  "insert_keys 0 k s rec idx scratch = Some (s, scratch, None)"
| "insert_keys (Suc n) k s rec idx scratch = do {
     kc \<leftarrow> get_key s k;
     b \<leftarrow> fm_core_key_bucket kc rec;
     s \<leftarrow> lock_bucket s k b;
     (dup, scratch) \<leftarrow> (if hash_rec (kc_ops kc) \<noteq> None
                        then fm_core_dup_check s k b rec scratch else Some (FM_ERR_OK, scratch));
     if dup \<noteq> FM_ERR_OK then do {
       s \<leftarrow> unlock_bucket s k b;
       (s, k') \<leftarrow> insert_rollback k s rec idx;
       Some (s, scratch, Some k') }
     else do {
       s \<leftarrow> fm_core_chain_link s k b idx;
       s \<leftarrow> unlock_bucket s k b;
       insert_keys n (Suc k) s rec idx scratch } }"

text \<open>Results: share, code, \<^verbatim>\<open>*out_idx\<close>, \<^verbatim>\<open>*errkey\<close> (\<open>None\<close> for a null pointer), scratch
  buffer.\<close>

definition fm_core_insert_row ::
  "FM_SHARE_CORE \<Rightarrow> image \<Rightarrow> fm_i32 \<Rightarrow> int option \<Rightarrow> image
     \<Rightarrow> (FM_SHARE_CORE \<times> fm_err \<times> fm_i32 \<times> int option \<times> image) option" where
  "fm_core_insert_row s rec out_idx errkey scratch = do {
     s \<leftarrow> lock_struct s;
     (s, idx) \<leftarrow> fm_core_alloc_slot s;
     if idx = FM_NULL_SLOT then
       let s = unlock_struct s
       in Some (s, if sc_chunk_cnt s \<ge> sc_chunk_cap s then FM_ERR_FULL else FM_ERR_NOMEM,
            out_idx, errkey, scratch)
     else do {
       sl \<leftarrow> fm_slot s idx;
       let s1 = upd_slot s idx (sl\<lparr> sl_data := memcpy (sl_data sl) rec (sc_reclength s) \<rparr>);
       (s2, scratch, dup) \<leftarrow> insert_keys (sc_keys s1) 0 s1 rec idx scratch;
       case dup of
         Some k \<Rightarrow> do {
           s3 \<leftarrow> fm_core_free_slot s2 idx;
           Some (unlock_struct s3, FM_ERR_DUP_KEY, out_idx,
                 map_option (\<lambda>_. sint k + 1) errkey, scratch) }
       | None \<Rightarrow> do {
           sl \<leftarrow> fm_slot s2 idx;
           let s3 = upd_slot s2 idx (sl\<lparr> sl_state := FM_SLOT_ACTIVE \<rparr>);
           let s4 = s3\<lparr> sc_records := sc_records s3 + 1 \<rparr>;
           Some (unlock_struct s4, FM_ERR_OK, idx, errkey, scratch) } } }"

text \<open>The two sections of an insert. Up to the end of the key loop the slot is linked but not visible; while the mutex of the
  share is held, only other inserts are kept out.\<close>

definition insert_link ::
  "FM_SHARE_CORE \<Rightarrow> image \<Rightarrow> image \<Rightarrow> (FM_SHARE_CORE \<times> fm_i32 \<times> image \<times> fm_u32 option) option" where
  "insert_link s rec scratch = do {
     s \<leftarrow> lock_struct s;
     (s, idx) \<leftarrow> fm_core_alloc_slot s;
     if idx = FM_NULL_SLOT then Some (s, idx, scratch, None)
     else do {
       sl \<leftarrow> fm_slot s idx;
       let s1 = upd_slot s idx (sl\<lparr> sl_data := memcpy (sl_data sl) rec (sc_reclength s) \<rparr>);
       (s2, scratch, dup) \<leftarrow> insert_keys (sc_keys s1) 0 s1 rec idx scratch;
       Some (s2, idx, scratch, dup) } }"

definition insert_publish :: "FM_SHARE_CORE \<Rightarrow> fm_i32 \<Rightarrow> FM_SHARE_CORE option" where
  "insert_publish s idx = do {
     sl \<leftarrow> fm_slot s idx;
     let s1 = upd_slot s idx (sl\<lparr> sl_state := FM_SLOT_ACTIVE \<rparr>);
     let s2 = s1\<lparr> sc_records := sc_records s1 + 1 \<rparr>;
     Some (unlock_struct s2) }"

lemma insert_sections:
  "fm_core_insert_row s rec out_idx errkey scratch = do {
     (s, idx, scratch, dup) \<leftarrow> insert_link s rec scratch;
     if idx = FM_NULL_SLOT
     then Some (unlock_struct s, if sc_chunk_cnt s \<ge> sc_chunk_cap s then FM_ERR_FULL else FM_ERR_NOMEM, out_idx, errkey, scratch)
     else case dup of
       Some k \<Rightarrow> do {
         s \<leftarrow> fm_core_free_slot s idx;
         Some (unlock_struct s, FM_ERR_DUP_KEY, out_idx, map_option (\<lambda>_. sint k + 1) errkey, scratch) }
     | None \<Rightarrow> do { s \<leftarrow> insert_publish s idx; Some (s, FM_ERR_OK, idx, errkey, scratch) } }"
  unfolding fm_core_insert_row_def insert_link_def insert_publish_def
  by (auto simp: unlock_struct_def Let_def split: Option.bind_splits option.splits prod.splits intro!: arg_cong2 [where f = Option.bind])

section \<open>The key loop\<close>

text \<open>\<open>u\<close> is the table \<open>s\<close> with slot \<open>i\<close>, holding \<open>r\<close>, linked into the chains of the first
  \<open>k\<close> keys.\<close>

definition part_linked where
  "part_linked s r i k u = (links_step s u \<and> (\<forall>j < sc_keys s.
     key_chains u j (if j < k then (rows s)(i \<mapsto> r) else rows s)))"

lemma part_linkedD:
  assumes "part_linked s r i k u" "j < sc_keys s"
  shows "j < k \<Longrightarrow> key_chains u j ((rows s)(i \<mapsto> r))" "k \<le> j \<Longrightarrow> key_chains u j (rows s)"
proof -
  have c: "key_chains u j (if j < k then (rows s)(i \<mapsto> r) else rows s)"
    using assms unfolding part_linked_def by blast
  show "key_chains u j ((rows s)(i \<mapsto> r))" if "j < k" using c that by simp
  show "key_chains u j (rows s)" if "k \<le> j" using c that by simp
qed

lemma part_linked_move:
  assumes p: "part_linked s r i k u" and st: "chain_step m u u'"
    and c: "key_chains u' m (if m < k' then (rows s)(i \<mapsto> r) else rows s)"
    and o: "\<And>j. j \<noteq> m \<Longrightarrow> (j < k') = (j < k)"
  shows "part_linked s r i k' u'"
  unfolding part_linked_def
proof (intro conjI allI impI)
  show "links_step s u'" using p links_step_trans [OF _ chain_links [OF st]] by (auto simp: part_linked_def)
  fix j assume j: "j < sc_keys s"
  show "key_chains u' j (if j < k' then (rows s)(i \<mapsto> r) else rows s)"
  proof (cases "j = m")
    case True
    with c show ?thesis by simp
  next
    case False
    then show ?thesis
      using part_linkedD [OF p j] by (simp add: chain_step_chains [OF st] o [OF False])
  qed
qed

lemma part_linked_key:
  assumes h: "core_hole s i" "held s = {}" and p: "part_linked s r i m u" and k: "k < sc_keys s"
  shows "key_ok (kstat u k)" "kstat u = kstat s" "bkt (kstat s k) r < nbk (kstat s k)"
    "key_lock u k (bkt (kstat s k) r) = Some False" "rows u = rows s" "slots_ok u"
    "sc_reclength u = sc_reclength s"
proof -
  have st: "links_step s u" using p by (simp add: part_linked_def)
  note f = links_step_frame [OF st]
  have K: "key_ok (kstat s k)" and L: "\<forall>b < nbk (kstat s k). key_lock s k b \<noteq> None"
    using h(1) k by (auto simp: core_hole_def keys_ok_def)
  show "bkt (kstat s k) r < nbk (kstat s k)" using K by (rule bkt_less)
  with L h(2) show "key_lock u k (bkt (kstat s k) r) = Some False"
    by (simp add: f not_held)
  show "key_ok (kstat u k)" "kstat u = kstat s" "rows u = rows s" "slots_ok u"
    "sc_reclength u = sc_reclength s"
    using K f h(1) by (simp_all add: core_hole_def)
qed

lemma rollback_correct:
  assumes h: "core_hole s i" "held s = {}" and p: "part_linked s r i k u" and k: "k \<le> sc_keys s"
  shows "\<exists>u'. insert_rollback k u r i = Some (u', -1) \<and> part_linked s r i 0 u'"
  using p k
proof (induction k arbitrary: u)
  case 0
  then show ?case by simp
next
  case (Suc k)
  then have k: "k < sc_keys s" by simp
  note P = part_linked_key [OF h Suc.prems(1) k]
  from P(1) obtain kc where kc: "get_key u k = Some kc"
    "\<And>r. fm_core_key_bucket kc r = Some (bkt (kstat s k) r)"
    by (rule key_callE) (simp add: P(2))
  have C: "key_chains u k ((rows s)(i \<mapsto> r))"
    using part_linkedD(1) [OF Suc.prems(1) k] by simp
  have undo: "(rows s)(i := None) = rows s"
    using h(1) by (auto simp: core_hole_def)
  let ?b = "bkt (kstat s k) r"
  obtain u' where u': "do { s \<leftarrow> lock_bucket u k ?b;
      (s, e) \<leftarrow> fm_core_chain_unlink s k ?b i; unlock_bucket s k ?b } = Some u'"
    "chain_step k u u'" "key_chains u' k (rows s)"
    by (rule unlink_locked [OF C, of i r ?b]) (simp_all add: P undo)
  have "insert_rollback (Suc k) u r i = insert_rollback k u' r i"
    using kc u'(1) P(2) by (auto simp: bind_eq_Some_conv)
  moreover have "part_linked s r i k u'"
    by (rule part_linked_move [OF Suc.prems(1) u'(2)]) (use u'(3) in auto)
  ultimately show ?case using Suc.IH k by simp
qed

lemma insert_keys_correct:
  assumes h: "core_hole s i" "held s = {}" and p: "part_linked s r i k u"
    and k: "k + n = sc_keys s" and "length scratch = sc_reclength s"
  shows "\<exists>u' sc. length sc = sc_reclength s \<and>
    (if \<exists>j. k \<le> j \<and> j < sc_keys s \<and> conflict (kstat s j) (rows s) r
     then insert_keys n k u r i scratch = Some (u', sc, Some (-1)) \<and> part_linked s r i 0 u'
     else insert_keys n k u r i scratch = Some (u', sc, None) \<and> part_linked s r i (sc_keys s) u')"
  using p k assms(5)
proof (induction n arbitrary: k u scratch)
  case 0
  then show ?case by auto
next
  case (Suc n)
  then have k: "k < sc_keys s" by simp
  note P = part_linked_key [OF h Suc.prems(1) k]
  from P(1) obtain kc where kc: "get_key u k = Some kc"
    "\<And>r. fm_core_key_bucket kc r = Some (bkt (kstat s k) r)" "hash_rec (kc_ops kc) \<noteq> None"
    by (rule key_callE) (simp add: P(2))
  let ?b = "bkt (kstat s k) r"
  let ?t = "upd_lock u k ?b True"
  have C: "key_chains u k (rows s)" using part_linkedD(2) [OF Suc.prems(1) k] by simp
  have lk: "lock_bucket u k ?b = Some ?t" using P(4) by (rule lock_bucket_free)
  obtain sc where sc: "fm_core_dup_check ?t k ?b r scratch =
      Some (if conflict (kstat s k) (rows s) r then FM_ERR_DUP_KEY else FM_ERR_OK, sc)"
    "length sc = sc_reclength s"
    using dup_check_correct [where s = ?t and k = k and scratch = scratch and rec = r] P C Suc.prems(3) by auto
  show ?case
  proof (cases "conflict (kstat s k) (rows s) r")
    case True
    have un: "unlock_bucket ?t k ?b = Some u"
      using P(4) by (simp add: unlock_bucket_def spin_unlock_def upd_lock_restore)
    obtain u' where "insert_rollback k u r i = Some (u', -1)" "part_linked s r i 0 u'"
      using rollback_correct [OF h Suc.prems(1)] k by auto
    then have "insert_keys (Suc n) k u r i scratch = Some (u', sc, Some (-1)) \<and> part_linked s r i 0 u'"
      using kc lk sc(1) un True by simp
    with True k sc(2) show ?thesis by auto
  next
    case False
    obtain v u' where v: "fm_core_chain_link ?t k ?b i = Some v" "unlock_bucket v k ?b = Some u'"
      "chain_step k u u'" "key_chains u' k ((rows s)(i \<mapsto> r))"
    proof (rule link_locked [OF C, of i ?b r])
      show "rows s i = None" "fm_slot u i \<noteq> None"
        using h(1) Suc.prems(1) by (auto simp: core_hole_def part_linked_def links_step_frame)
    qed (use P in \<open>simp_all\<close>)
    have run: "insert_keys (Suc n) k u r i scratch = insert_keys n (Suc k) u' r i sc"
      using kc lk sc(1) v(1,2) False by simp
    have ex: "(\<exists>j. k \<le> j \<and> j < sc_keys s \<and> conflict (kstat s j) (rows s) r) =
      (\<exists>j. Suc k \<le> j \<and> j < sc_keys s \<and> conflict (kstat s j) (rows s) r)"
      using False by (metis Suc_leD le_antisym not_less_eq_eq)
    have "part_linked s r i (Suc k) u'"
      by (rule part_linked_move [OF Suc.prems(1) v(3)]) (use v(4) in auto)
    then show ?thesis unfolding run ex
      by (rule Suc.IH [OF _ _ sc(2)]) (use Suc.prems(2) in simp)
  qed
qed

section \<open>From a hole to a row, and back\<close>

text \<open>Copying the image into the slot that was allocated.\<close>

lemma hole_write:
  assumes h: "core_hole s i" and sl: "fm_slot s i = Some sl" and len: "length r = sc_reclength s"
  defines "t \<equiv> upd_slot s i (sl\<lparr> sl_data := memcpy (sl_data sl) r (sc_reclength s) \<rparr>)"
  shows "core_hole t i" "same_table s t" "limited s \<Longrightarrow> limited t"
    "fm_slot t i = Some (sl\<lparr> sl_data := r \<rparr>)"
proof -
  note ok = core_holeD(3) [OF h] and none = core_holeD(6) [OF h]
  then have so: "slot_ok s sl" and st: "sl_state sl \<noteq> FM_SLOT_ACTIVE"
    using sl by (auto simp: slots_ok_def rows_def)
  then have t: "t = upd_slot s i (sl\<lparr> sl_data := r \<rparr>)" using len by (simp add: t_def slot_ok_def)
  note w = slot_write [OF sl, of "sl\<lparr> sl_data := r \<rparr>", folded t]
  have r: "rows t = rows s"
    using sl none st by (simp add: t rows_upd_slot fun_upd_idem)
  have "slot_ok s (sl\<lparr> sl_data := r \<rparr>)" using so len st by (simp add: slot_ok_def)
  with w ok have ok': "slots_ok t" by simp
  have fl: "free_list t xs = free_list s xs" for xs using w(4) r by (simp add: free_list_def t)
  have ks: "kstat t = kstat s" by (rule ext) (simp add: t)
  have eq: "sc_keys t = sc_keys s" "sc_records t = sc_records s"
    "sc_max_records t = sc_max_records s" by (simp_all add: t)
  have cv: "covers t A = covers s A" for A using r by (simp add: covers_def t)
  show "fm_slot t i = Some (sl\<lparr> sl_data := r \<rparr>)" using sl by (simp add: t)
  then show "core_hole t i" using h ok' w(1-3) r by (simp add: core_hole_def fl eq ks cv)
  have "gens t = gens s" using sl by (auto simp: t gens_def fun_eq_iff)
  then show "same_table s t" using r w(6,7) eq ks by (simp add: same_table_def t)
  show "limited s \<Longrightarrow> limited t" by (simp add: limited_def fl eq r)
qed

text \<open>Publishing the row once its slot is in every chain.\<close>

lemma hole_publish:
  assumes h: "core_hole s i" and p: "part_linked s r i (sc_keys s) u"
    and sl: "fm_slot s i = Some sl" "sl_data sl = r" "length r = sc_reclength s"
    and nc: "\<forall>k < sc_keys s. \<not> conflict (kstat s k) (rows s) r"
  defines "t \<equiv> (upd_slot u i (sl\<lparr> sl_state := FM_SLOT_ACTIVE \<rparr>))\<lparr> sc_records := sc_records u + 1 \<rparr>"
  shows "core_inv t" "rows t = (rows s)(i \<mapsto> r)" "kstat t = kstat s" "held t = held s"
    "wlocked t = wlocked s" "limited s \<Longrightarrow> i < int (sc_max_records s) \<Longrightarrow> limited t"
    "gens t = gens s"
proof -
  define v where "v = upd_slot u i (sl\<lparr> sl_state := FM_SLOT_ACTIVE \<rparr>)"
  have t: "t = v\<lparr> sc_records := sc_records u + 1 \<rparr>" by (simp add: t_def v_def)
  have st: "links_step s u" using p by (simp add: part_linked_def)
  note f = links_step_frame [OF st] and H = core_holeD [OF h]
  have slu: "fm_slot u i = Some sl" using sl(1) f by simp
  note w = slot_write [OF slu, of "sl\<lparr> sl_state := FM_SLOT_ACTIVE \<rparr>", folded v_def]
  show r: "rows t = (rows s)(i \<mapsto> r)" using slu sl(2) f(1) by (simp add: t v_def rows_upd_slot)
  have "slot_ok s sl" using H(3) sl(1) by (simp add: slots_ok_def)
  then have "slot_ok u (sl\<lparr> sl_state := FM_SLOT_ACTIVE \<rparr>)"
    using sl(2,3) f(13) by (simp add: slot_ok_def)
  then have "slots_ok v" using w(5) f(5) H(3) by simp
  then have ok: "slots_ok t" by (simp add: t slots_ok_def slot_ok_def)
  show ks: "kstat t = kstat s" using f(9) by (simp add: t v_def fun_eq_iff)
  show "gens t = gens s" using sl(1) f(14) by (auto simp: t v_def gens_def fun_eq_iff)
  show "held t = held s" "wlocked t = wlocked s"
    using w(6,7) f(2,3) by (simp_all add: t held_def wlocked_def)
  have kc: "key_chains t k (rows t) \<and> unique_rows (kstat t k) (rows t)" if "k < sc_keys s" for k
  proof
    have "key_chains u k (rows t)" using part_linkedD(1) [OF p that] that r by simp
    then have "key_chains v k (rows t)" using w(3) by simp
    then show "key_chains t k (rows t)" by (subst key_chains_cong [of t k v]) (simp_all add: t)
    show "unique_rows (kstat t k) (rows t)" unfolding r ks
      using H(6-9) that nc by (intro unique_rows_add) auto
  qed
  from H(10) obtain xs where xs: "free_list s xs" "i \<notin> set xs" "covers s (insert i (set xs))"
    by blast
  have fn: "free_next t = free_next u" using w(4) by (auto simp: t free_next_def fun_eq_iff)
  have fl: "free_list t ys" if "free_list s ys" "i \<notin> set ys" for ys
    using that f(7) [of ys] f(1) r fn by (auto simp: free_list_def t v_def)
  have "covers u (insert i (set xs))" using xs(3) by (simp add: f(8))
  then have cv: "covers t (set xs)"
    unfolding covers_def r f(1) by (auto simp: t v_def)
  have "card (dom (rows t)) = Suc (card (dom (rows s)))"
    using r finite_rows [OF H(1)] H(6) by (simp add: card_insert_if domIff)
  then have rec: "sc_records t = int (card (dom (rows t)))"
    using H(4) f(11) by (simp add: t)
  have "sizes_ok v" "keys_ok v" "sc_keys t = sc_keys s" using w(1,2) f(4,6,10) H(1,2) by (simp_all add: t v_def)
  then have "sizes_ok t" "keys_ok t" "sc_keys t = sc_keys s"
    by (simp_all add: t sizes_ok_def keys_ok_def)
  then show "core_inv t" using ok kc fl [OF xs(1,2)] cv rec unfolding core_inv_def by auto
  have mx: "sc_max_records t = sc_max_records s" using f(16) by (simp add: t v_def)
  show "limited t" if "limited s" "i < int (sc_max_records s)"
  proof -
    from that(1) obtain zs where "free_list s zs"
      "\<forall>j \<in> set zs \<union> dom (rows s). j < int (sc_max_records s)" by (auto simp: limited_def)
    moreover from this xs(1) have "zs = xs" by (auto simp: free_list_def dest: linked_unique)
    ultimately show ?thesis using fl [OF xs(1,2)] that(2) unfolding limited_def r mx
      by (intro exI [of _ xs]) auto
  qed
qed

text \<open>Giving the slot back after a rollback.\<close>

lemma hole_free:
  assumes h: "core_hole s i" and p: "part_linked s r i 0 u"
  obtains t where "fm_core_free_slot u i = Some t" "core_inv t" "same_table s t" "gens t = gens s"
    "limited s \<and> i < int (sc_max_records s) \<longrightarrow> limited t"
proof -
  note H = core_holeD [OF h]
  have st: "links_step s u" using p by (simp add: part_linked_def)
  note f = links_step_frame [OF st]
  from H(10) obtain xs where xs: "free_list s xs" "i \<notin> set xs" "covers s (insert i (set xs))"
    by blast
  from xs(1) have fl: "free_list u xs" by (simp add: f(7))
  obtain t where t: "fm_core_free_slot u i = Some t" "free_step u t" "free_list t (i # xs)"
    by (rule free_slot_correct [OF fl _ _ xs(2)]) (use H(5,6) f(1,14) in auto)
  note g = free_step_frame [OF t(2)]
  have tab: "same_table s t"
    using links_step_same_table [OF st] free_step_same_table [OF t(2)] by (rule same_table_trans)
  have cv: "covers t (set (i # xs))" using xs(3) g(8) f(8) by simp
  have kc: "key_chains t k (rows t) \<and> unique_rows (kstat t k) (rows t)" if "k < sc_keys s" for k
    using part_linkedD(2) [OF p that] H(9) [OF that] by (simp add: g f)
  have inv: "core_inv t"
    unfolding core_inv_def using kc cv t(3) H(1-4) g f by (intro conjI) auto
  have lim: "limited t" if "limited s" "i < int (sc_max_records s)"
  proof -
    from that(1) obtain zs where "free_list s zs"
      "\<forall>j \<in> set zs \<union> dom (rows s). j < int (sc_max_records s)" by (auto simp: limited_def)
    moreover from this xs(1) have "zs = xs" by (auto simp: free_list_def dest: linked_unique)
    moreover have "sc_max_records t = sc_max_records s" "rows t = rows s"
      using tab by (simp_all add: same_table_def)
    ultimately show ?thesis using t(3) that(2) unfolding limited_def
      by (intro exI [of _ "i # xs"]) auto
  qed
  have "gens t = gens s" using free_step_gens [OF t(2)] gens_cong [OF f(14)] by simp
  then show thesis using t(1) inv tab lim by (intro that [of t]) auto
qed

section \<open>The whole operation\<close>

text \<open>The first section: \<open>w\<close> is the table with the image in its slot, \<open>u\<close> has the slot in the chains.\<close>

definition slot_taken :: "FM_SHARE_CORE \<Rightarrow> image \<Rightarrow> fm_i32 \<Rightarrow> FM_SLOT \<Rightarrow> FM_SHARE_CORE \<Rightarrow> bool" where
  "slot_taken s r i sl w = (core_hole w i \<and> held w = {} \<and> rows w = rows s \<and> same_shape s w \<and> gens s \<subseteq>\<^sub>m gens w \<and>
     fm_slot w i = Some sl \<and> sl_data sl = r \<and> i \<noteq> FM_NULL_SLOT \<and> (limited s \<longrightarrow> limited w \<and> i < int (sc_max_records w)))"

lemma alloc_taken:
  assumes inv: "core_inv s" "quiet s" and len: "length r = sc_reclength s"
    and a: "core_hole a i" "same_table (s\<lparr> sc_struct_mutex := True \<rparr>) a" "i \<noteq> FM_NULL_SLOT"
      "limited (s\<lparr> sc_struct_mutex := True \<rparr>) \<Longrightarrow> limited a \<and> i < int (sc_max_records (s\<lparr> sc_struct_mutex := True \<rparr>))"
    and sl: "fm_slot a i = Some sl"
  shows "slot_taken s r i (sl\<lparr> sl_data := r \<rparr>) (upd_slot a i (sl\<lparr> sl_data := memcpy (sl_data sl) r (sc_reclength a) \<rparr>))"
proof -
  let ?b = "s\<lparr> sc_struct_mutex := True \<rparr>"
  define w where "w = upd_slot a i (sl\<lparr> sl_data := memcpy (sl_data sl) r (sc_reclength a) \<rparr>)"
  have gm: "gens s \<subseteq>\<^sub>m gens a"
    using a(2) gens_cong [of ?b s] by (auto simp: same_table_def fun_eq_iff)
  have tab: "rows a = rows s" "held a = {}" "sc_reclength a = sc_reclength s" "sc_max_records a = sc_max_records s" "same_shape s a"
    using a(2) inv(2) same_table_shape [OF a(2)] by (auto simp: same_table_def quiet_def fun_eq_iff)
  have lr: "length r = sc_reclength a" using len tab by simp
  note W = hole_write [OF a(1) sl lr, folded w_def]
  have tw: "rows w = rows s" "held w = {}" "sc_max_records w = sc_max_records s" "same_shape s w"
    using tab W(2) same_shape_trans [OF tab(5) same_table_shape [OF W(2)]]
    by (simp_all add: same_table_def)
  have gw: "gens s \<subseteq>\<^sub>m gens w"
    using W(2) map_le_trans [OF gm] by (auto simp: same_table_def)
  show ?thesis
    unfolding w_def [symmetric] slot_taken_def using tw gw W(1,3,4) a(3,4) by auto
qed

lemma insert_link_cases:
  assumes inv: "core_inv s" "quiet s" and len: "length r = sc_reclength s" "length scratch = sc_reclength s"
  obtains (linked) w u i sl sc where "insert_link s r scratch = Some (u, i, sc, None)" "slot_taken s r i sl w"
    "part_linked w r i (sc_keys w) u" "\<forall>k < sc_keys s. \<not> conflict (kstat s k) (rows s) r" "length sc = sc_reclength s"
  | (dup) w u i sl sc where "insert_link s r scratch = Some (u, i, sc, Some (-1))" "slot_taken s r i sl w"
    "part_linked w r i 0 u" "\<exists>k < sc_keys s. conflict (kstat s k) (rows s) r" "length sc = sc_reclength s"
  | (none) m where "insert_link s r scratch = Some (s\<lparr> sc_struct_mutex := True, sc_nalloc := m \<rparr>, FM_NULL_SLOT, scratch, None)"
    "sc_free_head s = FM_NULL_SLOT" "sc_chunk_cap s \<le> sc_chunk_cnt s \<or> alloc_fails s"
proof -
  let ?b = "s\<lparr> sc_struct_mutex := True \<rparr>"
  have lk: "lock_struct s = Some ?b" using inv(2) by (simp add: lock_struct_def spin_lock_def quiet_def)
  from inv(1) have ib: "core_inv ?b" by simp
  show thesis
  proof (cases rule: alloc_slot_cases [OF ib])
    case (2 m)
    with lk show thesis by (intro none [of m]) (simp_all add: insert_link_def alloc_fails_def)
  next
    case (1 a i)
    obtain sl where sl: "fm_slot a i = Some sl" using core_holeD(5) [OF 1(3)] by blast
    define w where "w = upd_slot a i (sl\<lparr> sl_data := memcpy (sl_data sl) r (sc_reclength a) \<rparr>)"
    have t: "slot_taken s r i (sl\<lparr> sl_data := r \<rparr>) w"
      unfolding w_def by (rule alloc_taken [OF inv len(1) 1(3,4,2) _ sl]) (use 1(5) in simp)
    have W: "core_hole w i" "held w = {}" and tw: "rows w = rows s" "kstat w = kstat s" "sc_keys w = sc_keys s" "sc_reclength w = sc_reclength s"
      using t by (auto simp: slot_taken_def same_shape_def)
    have p0: "part_linked w r i 0 w"
      using core_holeD(8) [OF W(1)] by (simp add: part_linked_def)
    have lsc: "length scratch = sc_reclength w" using len(2) tw by simp
    obtain u sc where keys: "if \<exists>j < sc_keys s. conflict (kstat s j) (rows s) r
     then insert_keys (sc_keys w) 0 w r i scratch = Some (u, sc, Some (-1)) \<and> part_linked w r i 0 u
     else insert_keys (sc_keys w) 0 w r i scratch = Some (u, sc, None) \<and> part_linked w r i (sc_keys w) u"
      and sc: "length sc = sc_reclength s"
      using insert_keys_correct [OF W p0 _ lsc, of "sc_keys w"] tw by auto
    have run: "insert_link s r scratch = do { (s2, sc, dup) \<leftarrow> insert_keys (sc_keys w) 0 w r i scratch; Some (s2, i, sc, dup) }"
      using 1(1,2) sl unfolding insert_link_def lk w_def Let_def by simp
    show thesis
    proof (cases "\<exists>j < sc_keys s. conflict (kstat s j) (rows s) r")
      case True
      then show thesis using keys run t sc by (intro dup [of u i sc _ w]) auto
    next
      case False
      then show thesis using keys run t sc by (intro linked [of u i sc _ w]) auto
    qed
  qed
qed

lemma insert_row_cases:
  assumes inv: "core_inv s" "quiet s" and len: "length r = sc_reclength s" "length scratch = sc_reclength s"
  obtains (ok) s' i sc where "fm_core_insert_row s r out ek scratch = Some (s', FM_ERR_OK, i, ek, sc)"
    "core_inv s'" "quiet s'" "rows s i = None" "rows s' = (rows s)(i \<mapsto> r)" "same_shape s s'"
    "\<forall>k < sc_keys s. \<not> conflict (kstat s k) (rows s) r" "limited s \<longrightarrow> limited s'"
    "gens s \<subseteq>\<^sub>m gens s'" "length sc = sc_reclength s"
  | (dup) s' sc where
    "fm_core_insert_row s r out ek scratch = Some (s', FM_ERR_DUP_KEY, out, map_option (\<lambda>_. 0) ek, sc)"
    "core_inv s'" "quiet s'" "rows s' = rows s" "same_shape s s'"
    "\<exists>k < sc_keys s. conflict (kstat s k) (rows s) r" "limited s \<longrightarrow> limited s'"
    "gens s \<subseteq>\<^sub>m gens s'" "length sc = sc_reclength s"
  | (none) m where "fm_core_insert_row s r out ek scratch = Some (s\<lparr> sc_nalloc := m \<rparr>,
      if sc_chunk_cap s \<le> sc_chunk_cnt s then FM_ERR_FULL else FM_ERR_NOMEM, out, ek, scratch)"
    "sc_free_head s = FM_NULL_SLOT" "sc_chunk_cap s \<le> sc_chunk_cnt s \<or> alloc_fails s"
proof (cases rule: insert_link_cases [OF inv len])
  case (1 w u i sl sc)
  note T = 1(2) [unfolded slot_taken_def]
  have tw: "rows w = rows s" "kstat w = kstat s" "sc_keys w = sc_keys s" "sc_reclength w = sc_reclength s" "same_shape s w"
    "sc_max_records w = sc_max_records s" using T by (simp_all add: same_shape_def)
  have nc: "\<forall>k < sc_keys w. \<not> conflict (kstat w k) (rows w) r" using 1(4) tw by simp
  have wi: "fm_slot w i = Some sl" "sl_data sl = r" "core_hole w i" using T by simp_all
  note P = hole_publish [OF wi(3) 1(3) wi(1) wi(2) _ nc, OF len(1) [folded tw(4)]]
  have su: "fm_slot u i = Some sl"
    using 1(3) wi(1) links_step_frame(14) [of w u] by (simp add: part_linked_def)
  let ?t = "upd_slot u i (sl\<lparr> sl_state := FM_SLOT_ACTIVE \<rparr>)\<lparr> sc_records := sc_records u + 1 \<rparr>"
  have lu: "sc_keys u = sc_keys s" "sc_reclength u = sc_reclength s" "sc_max_records u = sc_max_records s"
    using 1(3) links_step_frame(10,13,16) [of w u] tw by (simp_all add: part_linked_def)
  have la: "lasting u = lasting w" using 1(3) by (auto simp: part_linked_def dest: links_step_lasting)
  have g0: "gens (unlock_struct ?t) = gens ?t" by (rule gens_cong) (auto simp: unlock_struct_def)
  show thesis
  proof (rule ok [of "unlock_struct ?t" i sc])
    show "fm_core_insert_row s r out ek scratch = Some (unlock_struct ?t, FM_ERR_OK, i, ek, sc)"
      unfolding insert_sections 1(1) insert_publish_def using T by (simp add: su Let_def)
    show "quiet (unlock_struct ?t)" "rows (unlock_struct ?t) = (rows s)(i \<mapsto> r)"
      using P tw T by (simp_all add: quiet_def unlock_struct_def spin_unlock_def)
    show "same_shape s (unlock_struct ?t)"
      unfolding unlock_struct_def same_shape_struct using P(3,5) tw lu la by (simp add: same_shape_def)
  qed (use P T 1(4,5) g0 core_holeD(6) [OF wi(3)] tw in \<open>simp_all add: unlock_struct_def\<close>)
next
  case (2 w u i sl sc)
  note T = 2(2) [unfolded slot_taken_def]
  have wi: "core_hole w i" and sh: "same_shape s w" using T by simp_all
  obtain t where t: "fm_core_free_slot u i = Some t" "core_inv t" "same_table w t" "gens t = gens w"
    "limited w \<and> i < int (sc_max_records w) \<longrightarrow> limited t"
    by (rule hole_free [OF wi 2(3)])
  have g0: "gens (unlock_struct t) = gens t" by (rule gens_cong) (auto simp: unlock_struct_def)
  show thesis
  proof (rule dup [of "unlock_struct t" sc])
    show "fm_core_insert_row s r out ek scratch =
      Some (unlock_struct t, FM_ERR_DUP_KEY, out, map_option (\<lambda>_. 0) ek, sc)"
      unfolding insert_sections 2(1) using T by (simp add: t(1))
    show "quiet (unlock_struct t)" "rows (unlock_struct t) = rows s"
      using t(3) T by (simp_all add: same_table_def quiet_def unlock_struct_def spin_unlock_def)
    show "same_shape s (unlock_struct t)"
      using same_shape_trans [OF sh same_table_shape [OF t(3)]] by (simp add: unlock_struct_def)
  qed (use t T 2(4,5) g0 in \<open>simp_all add: unlock_struct_def\<close>)
next
  case (3 m)
  have "(s\<lparr> sc_struct_mutex := True, sc_nalloc := m \<rparr>)\<lparr> sc_struct_mutex := False \<rparr> = s\<lparr> sc_nalloc := m \<rparr>"
    using inv(2) by (simp add: quiet_def)
  with 3 show thesis
    by (intro none [of m]) (simp_all add: insert_sections unlock_struct_def spin_unlock_def)
qed

text \<open>An insert is not refused as long as the table is not full, no row conflicts, and the
  allocator serves its requests.\<close>

lemma insert_row_succeeds:
  assumes inv: "core_inv s" "quiet s" and len: "length r = sc_reclength s" "length scratch = sc_reclength s"
    and room: "sc_records s < int (sc_max_records s)" "\<not> alloc_fails s"
    and nc: "\<forall>k < sc_keys s. \<not> conflict (kstat s k) (rows s) r"
  obtains s' i sc where "fm_core_insert_row s r out ek scratch = Some (s', FM_ERR_OK, i, ek, sc)"
    "core_inv s'" "quiet s'" "rows s i = None" "rows s' = (rows s)(i \<mapsto> r)" "same_shape s s'"
    "limited s \<longrightarrow> limited s'" "sc_records s' = sc_records s + 1"
proof (cases rule: insert_row_cases [OF inv len, where out = out and ek = ek])
  case (1 s' i sc)
  have "finite (dom (rows s))" by (rule finite_rows [OF core_invD(1) [OF inv(1)]])
  moreover have "i \<notin> dom (rows s)" using 1(4) by auto
  ultimately have "sc_records s' = sc_records s + 1"
    using core_invD(4) [OF inv(1)] core_invD(4) [OF 1(2)] 1(5) by simp
  then show thesis using that 1 by blast
next
  case (2 s' sc)
  then show thesis using nc by blast
next
  case (3 m)
  then have "sc_chunk_cap s \<le> sc_chunk_cnt s" using room(2) by blast
  then show thesis using full_records [OF inv(1) 3(2)] room(1) by simp
qed

end
