(* ===== verification/FM_Lockset.thy ===== *)
theory FM_Lockset
  imports FM_Write_Laws
begin

text \<open>
  The bucket locks of a key-changing update: \<^verbatim>\<open>fm_core_update_row\<close> and
  \<^verbatim>\<open>fm_core_update_row_locked\<close> collect the old and the new bucket of every changed key, sort
  the pairs by insertion, and lock them in that order, skipping repetitions.
\<close>

section \<open>Collecting, sorting, locking\<close>

type_synonym FMB = "nat \<times> nat"

definition u16 :: "nat \<Rightarrow> nat" where
  "u16 n = n mod 2 ^ 16"

text \<open>The changed keys, at most 64: the loop has \<open>n\<close> keys left and is at key \<open>k\<close>.\<close>

primrec changed_loop ::
  "nat \<Rightarrow> nat \<Rightarrow> FM_SHARE_CORE \<Rightarrow> image \<Rightarrow> image \<Rightarrow> nat list \<Rightarrow> nat list option" where
  "changed_loop 0 k s old_rec new_rec changed = Some changed"
| "changed_loop (Suc n) k s old_rec new_rec changed =
     (if length changed < FM_MAX_CHANGED_KEYS then do {
        kc \<leftarrow> get_key s k;
        c \<leftarrow> (if hash_rec (kc_ops kc) \<noteq> None then cmp_rec kc old_rec new_rec else Some 0);
        changed_loop n (Suc k) s old_rec new_rec (if c \<noteq> 0 then changed @ [u16 k] else changed) }
      else Some changed)"

definition changed_keys :: "FM_SHARE_CORE \<Rightarrow> image \<Rightarrow> image \<Rightarrow> nat list option" where
  "changed_keys s old_rec new_rec = changed_loop (sc_keys s) 0 s old_rec new_rec []"

text \<open>The buckets of one changed key. When both are the same bucket and it is not there yet,
  it is appended twice: both tests look at the entries before this key.\<close>

definition add_locks ::
  "FM_SHARE_CORE \<Rightarrow> image \<Rightarrow> image \<Rightarrow> nat \<Rightarrow> FMB list \<Rightarrow> FMB list option" where
  "add_locks s old_rec new_rec k lockset = do {
     kc \<leftarrow> get_key s k;
     bnew \<leftarrow> fm_core_key_bucket kc new_rec;
     bold \<leftarrow> fm_core_key_bucket kc old_rec;
     let have_new = (k, bnew) \<in> set lockset;
     let have_old = (k, bold) \<in> set lockset;
     Some (lockset @ (if have_new then [] else [(k, bnew)]) @ (if have_old then [] else [(k, bold)])) }"

definition collect_locks ::
  "FM_SHARE_CORE \<Rightarrow> image \<Rightarrow> image \<Rightarrow> nat list \<Rightarrow> FMB list option" where
  "collect_locks s old_rec new_rec changed = foldM (add_locks s old_rec new_rec) changed []"

text \<open>The sort key \<^verbatim>\<open>((fm_u64)key << 32) | b\<close> and the in-place insertion sort.\<close>

definition lock_code :: "FMB \<Rightarrow> fm_u64" where
  "lock_code p = push_bit 32 (of_nat (fst p)) OR of_nat (snd p)"

fun shift_loop :: "FMB list \<Rightarrow> nat \<Rightarrow> fm_u64 \<Rightarrow> FMB list \<times> nat" where
  "shift_loop ls 0 vi = (ls, 0)"
| "shift_loop ls (Suc j) vi =
     (let p = ls ! j
      in if lock_code p \<le> vi then (ls, Suc j) else shift_loop (ls[Suc j := p]) j vi)"

definition sort_step :: "nat \<Rightarrow> FMB list \<Rightarrow> FMB list" where
  "sort_step i ls = (let v = ls ! i; (ls, j) = shift_loop ls i (lock_code v) in ls[j := v])"

definition sort_locks :: "FMB list \<Rightarrow> FMB list" where
  "sort_locks ls = fold sort_step [1..<length ls] ls"

definition first_entry :: "FMB list \<Rightarrow> nat \<Rightarrow> bool" where
  "first_entry ls i = (i = 0 \<or> ls ! i \<noteq> ls ! (i - 1))"

definition lock_buckets :: "FMB list \<Rightarrow> FM_SHARE_CORE \<Rightarrow> FM_SHARE_CORE option" where
  "lock_buckets ls = foldM (\<lambda>i s. if first_entry ls i
     then lock_bucket s (fst (ls ! i)) (snd (ls ! i)) else Some s) [0..<length ls]"

definition unlock_buckets :: "FMB list \<Rightarrow> FM_SHARE_CORE \<Rightarrow> FM_SHARE_CORE option" where
  "unlock_buckets ls = foldM (\<lambda>j s. if first_entry ls j
     then unlock_bucket s (fst (ls ! j)) (snd (ls ! j)) else Some s) (rev [0..<length ls])"

section \<open>The insertion sort\<close>

text \<open>The inner loop finds where \<open>v\<close> belongs and makes room for it.\<close>

lemma shift_loop_insert:
  assumes "shift_loop ls j vi = (ls', p)" "j < length ls"
  shows "p \<le> j \<and> ls'[p := v] = take p ls @ v # drop p (take j ls) @ drop (Suc j) ls \<and>
    (p = 0 \<or> lock_code (ls ! (p - 1)) \<le> vi) \<and> (\<forall>q. p \<le> q \<longrightarrow> q < j \<longrightarrow> vi < lock_code (ls ! q))"
  using assms
proof (induction j arbitrary: ls)
  case 0
  then show ?case by (cases ls) auto
next
  case (Suc j)
  show ?case
  proof (cases "lock_code (ls ! j) \<le> vi")
    case True
    with Suc.prems show ?thesis by (auto simp: upd_conv_take_nth_drop)
  next
    case False
    let ?l = "ls[Suc j := ls ! j]"
    from False Suc.prems have IH: "p \<le> j \<and>
      ls'[p := v] = take p ?l @ v # drop p (take j ?l) @ drop (Suc j) ?l \<and>
      (p = 0 \<or> lock_code (?l ! (p - 1)) \<le> vi) \<and> (\<forall>q. p \<le> q \<longrightarrow> q < j \<longrightarrow> vi < lock_code (?l ! q))"
      by (intro Suc.IH) (auto simp: Let_def)
    have d: "drop (Suc j) ?l = ls ! j # drop (Suc (Suc j)) ls"
      using Suc.prems(2) by (simp add: Cons_nth_drop_Suc [symmetric])
    have t: "drop p (take (Suc j) ls) = drop p (take j ls) @ [ls ! j]"
      using Suc.prems(2) IH by (simp add: take_Suc_conv_app_nth)
    have "vi < lock_code (ls ! q)" if "p \<le> q" "q < Suc j" for q
      using IH that False by (cases "q = j") auto
    moreover have "p = 0 \<or> lock_code (ls ! (p - 1)) \<le> vi" using IH by (cases p) auto
    ultimately show ?thesis using IH by (simp add: d t)
  qed
qed

lemma sort_step_sorts:
  assumes "i < length ls" "sorted (map lock_code (take i ls))"
  shows "length (sort_step i ls) = length ls" "mset (sort_step i ls) = mset ls"
    "sorted (map lock_code (take (Suc i) (sort_step i ls)))"
proof -
  define v where "v = ls ! i"
  obtain ls' p where sh: "shift_loop ls i (lock_code v) = (ls', p)" by fastforce
  from shift_loop_insert [OF sh assms(1), of v] have p: "p \<le> i"
    "ls'[p := v] = take p ls @ v # drop p (take i ls) @ drop (Suc i) ls"
    "p = 0 \<or> lock_code (ls ! (p - 1)) \<le> lock_code v"
    "\<And>q. p \<le> q \<Longrightarrow> q < i \<Longrightarrow> lock_code v < lock_code (ls ! q)" by auto
  have st: "sort_step i ls = take p ls @ v # drop p (take i ls) @ drop (Suc i) ls"
    using sh p(2) by (simp add: sort_step_def v_def [symmetric])
  have tk: "take i ls = take p ls @ drop p (take i ls)"
    using p(1) by (metis append_take_drop_id min.absorb1 take_take)
  have ls: "ls = take i ls @ v # drop (Suc i) ls"
    using assms(1) by (simp add: v_def id_take_nth_drop [symmetric])
  have "mset ls = mset (take i ls) + mset (v # drop (Suc i) ls)"
    by (subst ls) simp
  also have "mset (take i ls) = mset (take p ls) + mset (drop p (take i ls))"
    by (subst tk) simp
  finally show "mset (sort_step i ls) = mset ls" unfolding st by (simp add: union_ac)
  then show "length (sort_step i ls) = length ls" by (rule mset_eq_length)
  have t: "take (Suc i) (sort_step i ls) = take p ls @ v # drop p (take i ls)"
    using assms(1) p(1) by (simp add: st Suc_diff_le)
  have srt: "sorted (map lock_code (take p ls))" "sorted (map lock_code (drop p (take i ls)))"
    using assms(2) by (subst (asm) tk, simp add: sorted_append)+
  have lo: "lock_code x \<le> lock_code v" if "x \<in> set (take p ls)" for x
  proof -
    from that obtain q where q: "q < p" "x = ls ! q" by (auto simp: in_set_conv_nth)
    with p(1,3) have "lock_code (ls ! (p - 1)) \<le> lock_code v" by auto
    moreover have "lock_code (ls ! q) \<le> lock_code (ls ! (p - 1))"
      using q p(1) assms sorted_nth_mono [OF assms(2), of q "p - 1"] by simp
    ultimately show ?thesis using q by simp
  qed
  have hi: "lock_code v \<le> lock_code x" if "x \<in> set (drop p (take i ls))" for x
  proof -
    from that obtain q where q: "q < length (drop p (take i ls))" "x = drop p (take i ls) ! q"
      by (metis in_set_conv_nth)
    then have "x = ls ! (p + q)" "p + q < i" using p(1) assms(1) by simp_all
    with p(4) [of "p + q"] show ?thesis by simp
  qed
  show "sorted (map lock_code (take (Suc i) (sort_step i ls)))"
    unfolding t using srt lo hi order_trans [OF lo hi] by (simp add: sorted_append)
qed

lemma sort_locks_sorts: "sorted (map lock_code (sort_locks ls)) \<and> mset (sort_locks ls) = mset ls"
proof -
  have "length (fold sort_step [1..<n] ls) = length ls \<and> mset (fold sort_step [1..<n] ls) = mset ls \<and>
    sorted (map lock_code (take n (fold sort_step [1..<n] ls)))" if "1 \<le> n" "n \<le> length ls" for n
    using that
  proof (induction n rule: dec_induct)
    case base
    then show ?case by (cases ls) auto
  next
    case (step n)
    then show ?case using sort_step_sorts [of n "fold sort_step [1..<n] ls"] by simp
  qed
  from this [of "length ls"] show ?thesis by (cases ls) (auto simp: sort_locks_def)
qed

section \<open>The lock order\<close>

text \<open>On key numbers and bucket numbers of their width, the sort key is an exact encoding:
  equal codes are equal pairs, and codes are ordered by key and then by bucket.\<close>

lemma lock_code_unat:
  assumes "k < 2 ^ 16" "b < 2 ^ 32"
  shows "unat (lock_code (k, b)) = k * 2 ^ 32 + b"
proof -
  have hi: "\<not> bit b n" if "32 \<le> n" for n
    using assms(2) that by (metis bit_take_bit_iff leD take_bit_nat_eq_self)
  have "push_bit 32 (of_nat k) AND (of_nat b :: fm_u64) = 0"
    by (rule bit_eqI) (use hi in \<open>auto simp: bit_simps\<close>)
  then have "lock_code (k, b) = push_bit 32 (of_nat k) + of_nat b"
    by (simp add: lock_code_def disjunctive_add_eq_or)
  also have "\<dots> = of_nat (k * 2 ^ 32 + b)" by (simp add: push_bit_eq_mult)
  finally have e: "lock_code (k, b) = of_nat (k * 2 ^ 32 + b)" .
  have "k * 2 ^ 32 + b < 2 ^ LENGTH(64)" using assms by simp
  then show ?thesis unfolding e unsigned_of_nat of_nat_id by (rule take_bit_nat_eq_self)
qed

lemma lock_code_inj:
  assumes "k < 2 ^ 16" "b < 2 ^ 32" "k' < 2 ^ 16" "b' < 2 ^ 32" "lock_code (k, b) = lock_code (k', b')"
  shows "(k, b) = (k', b')"
proof -
  have e: "k * 2 ^ 32 + b = k' * 2 ^ 32 + b'"
    using assms(5) lock_code_unat [OF assms(1,2)] lock_code_unat [OF assms(3,4)] by simp
  then have "(k * 2 ^ 32 + b) div 2 ^ 32 = (k' * 2 ^ 32 + b') div 2 ^ 32" by simp
  then have "k = k'" using assms(2,4) by simp
  with e show ?thesis by simp
qed

definition lock_range :: "FMB list \<Rightarrow> bool" where
  "lock_range ls = (\<forall>(k, b) \<in> set ls. k < 2 ^ 16 \<and> b < 2 ^ 32)"

lemma first_entry_new:
  assumes "sorted (map lock_code ls)" "lock_range ls" "i < length ls"
  shows "first_entry ls i = (ls ! i \<notin> set (take i ls))"
proof (cases i)
  case 0
  then show ?thesis by (simp add: first_entry_def)
next
  case (Suc j)
  have eq: "ls ! p = ls ! q" if "p < length ls" "q < length ls" "lock_code (ls ! p) = lock_code (ls ! q)" for p q
  proof -
    obtain k b k' b' where x: "ls ! p = (k, b)" "ls ! q = (k', b')" by fastforce
    have "k < 2 ^ 16 \<and> b < 2 ^ 32" "k' < 2 ^ 16 \<and> b' < 2 ^ 32"
      using assms(2) nth_mem [OF that(1)] nth_mem [OF that(2)] x unfolding lock_range_def by force+
    then show ?thesis using lock_code_inj [of k b k' b'] that(3) x by simp
  qed
  show ?thesis
  proof (cases "ls ! i = ls ! j")
    case True
    with Suc assms(3) have "ls ! i \<in> set (take i ls)" by (auto simp: in_set_conv_nth)
    with True Suc show ?thesis by (simp add: first_entry_def)
  next
    case False
    have "ls ! i \<notin> set (take i ls)"
    proof
      assume "ls ! i \<in> set (take i ls)"
      then obtain q where q: "q < i" "ls ! q = ls ! i" by (auto simp: in_set_conv_nth)
      have le: "lock_code (ls ! a) \<le> lock_code (ls ! b)" if "a \<le> b" "b < length ls" for a b
        using that assms sorted_nth_mono [OF assms(1), of a b] by simp
      have "lock_code (ls ! q) \<le> lock_code (ls ! j)" "lock_code (ls ! j) \<le> lock_code (ls ! i)"
        using le [of q j] le [of j i] q Suc assms(3) by auto
      with q have "lock_code (ls ! j) = lock_code (ls ! i)" by simp
      then show False using eq [of j i] False Suc assms(3) by simp
    qed
    with False Suc show ?thesis by (simp add: first_entry_def)
  qed
qed

section \<open>The state under the locks\<close>

text \<open>\<open>s'\<close> is \<open>s\<close> with exactly the bucket locks \<open>A\<close> set to \<open>g\<close>.\<close>

definition locks_set :: "(nat \<times> nat) set \<Rightarrow> bool \<Rightarrow> FM_SHARE_CORE \<Rightarrow> FM_SHARE_CORE \<Rightarrow> bool" where
  "locks_set A g s s' = (scal s' = scal s \<and> sc_chunks s' = sc_chunks s \<and>
     (sc_keydef s' = None) = (sc_keydef s = None) \<and> kstat s' = kstat s \<and>
     key_head s' = key_head s \<and> (\<forall>k b. key_lock s' k b =
       (if (k, b) \<in> A then map_option (\<lambda>_. g) (key_lock s k b) else key_lock s k b)))"

lemma locks_set_refl [simp]: "locks_set {} g s s"
  by (simp add: locks_set_def)

lemma locks_set_None: "locks_set A g s t \<Longrightarrow> (key_lock t k b = None) = (key_lock s k b = None)"
  by (simp add: locks_set_def)

lemma locks_set_add:
  assumes "locks_set A g s t" "key_lock t k b \<noteq> None"
  shows "locks_set (insert (k, b) A) g s (upd_lock t k b g)"
proof -
  have "kstat (upd_lock t k b g) = kstat t" "key_head (upd_lock t k b g) = key_head t"
    by (auto simp: fun_eq_iff)
  with assms show ?thesis by (auto simp: locks_set_def scal_def split: if_splits)
qed

lemma locks_set_frame:
  assumes "locks_set A g s s'"
  shows "fm_slot s' = fm_slot s" "fm_key_next s' = fm_key_next s" "rows s' = rows s"
    "sizes_ok s' = sizes_ok s" "keys_ok s' = keys_ok s" "slots_ok s' = slots_ok s"
    "key_chains s' k R = key_chains s k R" "free_list s' xs = free_list s xs"
    "covers s' B = covers s B" "kstat s' = kstat s" "wlocked s' = wlocked s" "scal s' = scal s"
proof -
  note f = assms [unfolded locks_set_def]
  have c: "chunk_at s' i = chunk_at s i" for i using f by (simp add: chunk_at_def)
  show sl: "fm_slot s' = fm_slot s" and nx: "fm_key_next s' = fm_key_next s"
    by (auto simp: fun_eq_iff fm_slot_def fm_key_next_def c)
  show r: "rows s' = rows s" by (rule rows_cong) (simp add: sl)
  have "(key_lock s' k b = None) = (key_lock s k b = None)" for k b using f by simp
  then show "keys_ok s' = keys_ok s" unfolding keys_ok_def using f by (simp add: scal_def)
  have fn: "free_next s' = free_next s" by (auto simp: free_next_def sl)
  show "sizes_ok s' = sizes_ok s" "slots_ok s' = slots_ok s" "key_chains s' k R = key_chains s k R"
    "free_list s' xs = free_list s xs" "covers s' B = covers s B" "wlocked s' = wlocked s"
    using f by (simp_all add: sizes_ok_def slots_ok_def slot_ok_def key_chains_def free_list_def
        covers_def wlocked_def scal_def sl nx r fn)
  show "kstat s' = kstat s" "scal s' = scal s" using f by simp_all
qed

text \<open>The lock loop takes each bucket of the set once and returns; the unlock loop releases
  them all.\<close>

lemma lock_buckets_correct:
  assumes "sorted (map lock_code ls)" "lock_range ls"
    and free: "\<And>k b. (k, b) \<in> set ls \<Longrightarrow> key_lock s k b = Some False"
  obtains s' where "lock_buckets ls s = Some s'" "locks_set (set ls) True s s'"
proof -
  have "\<exists>s'. lock_buckets ls s = Some s' \<and> locks_set (set (take (length ls) ls)) True s s'"
    unfolding lock_buckets_def
  proof (rule foldM_upt)
    fix i t assume i: "i < length ls" and t: "locks_set (set (take i ls)) True s t"
    obtain k b where x: "ls ! i = (k, b)" by fastforce
    have set: "set (take (Suc i) ls) = insert (k, b) (set (take i ls))"
      using i x by (simp add: take_Suc_conv_app_nth)
    show "\<exists>u. (if first_entry ls i then lock_bucket t (fst (ls ! i)) (snd (ls ! i)) else Some t) = Some u \<and>
      locks_set (set (take (Suc i) ls)) True s u"
    proof (cases "first_entry ls i")
      case True
      then have "(k, b) \<notin> set (take i ls)" using first_entry_new [OF assms(1,2) i] x by simp
      moreover have "key_lock s k b = Some False" using free i x by (metis nth_mem)
      ultimately have "key_lock t k b = Some False" using t by (simp add: locks_set_def)
      then show ?thesis using True x set locks_set_add [OF t, of k b] by (simp add: lock_bucket_free)
    next
      case False
      then have "(k, b) \<in> set (take i ls)" using first_entry_new [OF assms(1,2) i] x by simp
      then show ?thesis using False t set by (simp add: insert_absorb)
    qed
  qed simp
  then show thesis using that by auto
qed

lemma unlock_buckets_correct:
  assumes "sorted (map lock_code ls)" "lock_range ls"
    and ex: "\<And>k b. (k, b) \<in> set ls \<Longrightarrow> key_lock s k b \<noteq> None"
  obtains s' where "unlock_buckets ls s = Some s'" "locks_set (set ls) False s s'"
proof -
  let ?f = "\<lambda>j s. if first_entry ls j then unlock_bucket s (fst (ls ! j)) (snd (ls ! j)) else Some s"
  let ?F = "\<lambda>n. {ls ! j |j. j < n \<and> first_entry ls j}"
  have run: "\<exists>t. foldM ?f (rev [0..<n]) u = Some t \<and> locks_set (A \<union> ?F n) False s t"
    if "n \<le> length ls" "locks_set A False s u" for n A u
    using that
  proof (induction n arbitrary: A u)
    case 0
    then show ?case by simp
  next
    case (Suc n)
    obtain k b where x: "ls ! n = (k, b)" by fastforce
    show ?case
    proof (cases "first_entry ls n")
      case True
      have "key_lock s k b \<noteq> None" using ex x Suc.prems(1) by (metis Suc_le_lessD nth_mem)
      then have kl: "key_lock u k b \<noteq> None" by (simp only: locks_set_None [OF Suc.prems(2)] not_False_eq_True)
      then have "?f n u = Some (upd_lock u k b False)" using True x by (auto simp: unlock_bucket_held)
      moreover have "A \<union> ?F (Suc n) = insert (k, b) A \<union> ?F n"
        using True x by (auto simp: less_Suc_eq) metis
      ultimately show ?thesis
        using Suc.IH [OF _ locks_set_add [OF Suc.prems(2) kl]] Suc.prems(1) by simp
    next
      case False
      then have "?F (Suc n) = ?F n" by (auto simp: less_Suc_eq)
      then show ?thesis using Suc.IH [OF _ Suc.prems(2)] Suc.prems(1) False by simp
    qed
  qed
  have "x \<in> ?F (length ls)" if x: "x \<in> set ls" for x
  proof -
    define j where "j = (LEAST j. j < length ls \<and> ls ! j = x)"
    have j: "j < length ls \<and> ls ! j = x"
      unfolding j_def by (rule LeastI_ex) (use x in \<open>auto simp: in_set_conv_nth\<close>)
    have "x \<notin> set (take j ls)"
    proof
      assume "x \<in> set (take j ls)"
      then obtain q where "q < j" "ls ! q = x" "q < length ls" by (auto simp: in_set_conv_nth)
      then show False using not_less_Least [of q "\<lambda>j. j < length ls \<and> ls ! j = x"] by (simp add: j_def)
    qed
    then show ?thesis using j first_entry_new [OF assms(1,2), of j] by auto
  qed
  then have "?F (length ls) = set ls" by (auto simp: in_set_conv_nth)
  with run [of "length ls" "{}" s] show thesis using that by (auto simp: unlock_buckets_def)
qed

section \<open>What is collected\<close>

lemma changed_loop_filter:
  assumes "k + n = sc_keys s" "length acc \<le> k" "keys_ok s"
  shows "changed_loop n k s old_rec new_rec acc =
    Some (acc @ filter (\<lambda>j. \<not> same_key (kstat s j) old_rec new_rec) [k..<sc_keys s])"
  using assms
proof (induction n arbitrary: k acc)
  case 0
  then show ?case by simp
next
  case (Suc n)
  then have k: "k < sc_keys s" "k < 64" by (auto simp: keys_ok_def)
  then have "key_ok (kstat s k)" using Suc.prems(3) by (simp add: keys_ok_def)
  then obtain kc where kc: "get_key s k = Some kc" "hash_rec (kc_ops kc) \<noteq> None"
    "\<And>a b. \<exists>x. cmp_rec kc a b = Some x \<and> (x = 0) = same_key (kstat s k) a b"
    by (rule key_callE) blast
  then obtain x where x: "cmp_rec kc old_rec new_rec = Some x"
    "(x = 0) = same_key (kstat s k) old_rec new_rec" by blast
  let ?a = "if x \<noteq> 0 then acc @ [k] else acc"
  have "changed_loop n (Suc k) s old_rec new_rec ?a =
    Some (?a @ filter (\<lambda>j. \<not> same_key (kstat s j) old_rec new_rec) [Suc k..<sc_keys s])"
    using Suc.prems by (intro Suc.IH) auto
  moreover have "changed_loop (Suc n) k s old_rec new_rec acc = changed_loop n (Suc k) s old_rec new_rec ?a"
    using kc x(1) k Suc.prems(2) by (simp add: u16_def)
  moreover have "[k..<sc_keys s] = k # [Suc k..<sc_keys s]" using k(1) by (rule upt_conv_Cons)
  ultimately show ?case using x(2) by simp
qed

lemma changed_keys_filter:
  "keys_ok s \<Longrightarrow> changed_keys s old_rec new_rec =
     Some (filter (\<lambda>j. \<not> same_key (kstat s j) old_rec new_rec) [0..<sc_keys s])"
  by (simp add: changed_keys_def changed_loop_filter)

definition lock_need :: "FM_SHARE_CORE \<Rightarrow> image \<Rightarrow> image \<Rightarrow> nat list \<Rightarrow> (nat \<times> nat) set" where
  "lock_need s old_rec new_rec ks =
     (\<Union>k \<in> set ks. {(k, bkt (kstat s k) new_rec), (k, bkt (kstat s k) old_rec)})"

lemma collect_locks_need:
  assumes "\<And>k. k \<in> set ks \<Longrightarrow> key_ok (kstat s k)"
  obtains ls where "collect_locks s old_rec new_rec ks = Some ls" "set ls = lock_need s old_rec new_rec ks"
proof -
  have "\<exists>ls. foldM (add_locks s old_rec new_rec) ks l0 = Some ls \<and>
      set ls = set l0 \<union> lock_need s old_rec new_rec ks" for l0
    using assms
  proof (induction ks arbitrary: l0)
    case Nil
    then show ?case by (simp add: lock_need_def)
  next
    case (Cons k ks)
    then have "key_ok (kstat s k)" by simp
    then obtain kc where kc: "get_key s k = Some kc"
      "\<And>r. fm_core_key_bucket kc r = Some (bkt (kstat s k) r)" by (rule key_callE) blast
    have "\<exists>l1. add_locks s old_rec new_rec k l0 = Some l1 \<and>
      set l1 = set l0 \<union> {(k, bkt (kstat s k) new_rec), (k, bkt (kstat s k) old_rec)}"
      unfolding add_locks_def Let_def kc(1) by (auto simp: kc(2))
    then obtain l1 where l1: "add_locks s old_rec new_rec k l0 = Some l1"
      "set l1 = set l0 \<union> {(k, bkt (kstat s k) new_rec), (k, bkt (kstat s k) old_rec)}" by blast
    from Cons.IH [of l1] Cons.prems l1 show ?case by (auto simp: lock_need_def)
  qed
  from this [of "[]"] that show thesis by (auto simp: collect_locks_def)
qed

lemma bkt_u32: "bkt K r < 2 ^ 32"
proof -
  have "unat (w :: fm_u32) < 2 ^ 32" for w using unsigned_less [of w] by simp
  then show ?thesis by (simp add: bkt_def split: option.split prod.split)
qed

lemma lock_need_range:
  assumes "set ls = lock_need s old_rec new_rec ks" "\<And>k. k \<in> set ks \<Longrightarrow> k < FM_MAX_CHANGED_KEYS"
  shows "lock_range ls"
  unfolding lock_range_def assms(1)
  using bkt_u32 assms(2) by (fastforce simp: lock_need_def)

text \<open>The lock set of an update: all the buckets it touches, in ascending order.\<close>

lemma lockset_ready:
  assumes "\<And>k. k \<in> set ks \<Longrightarrow> key_ok (kstat s k) \<and> k < FM_MAX_CHANGED_KEYS"
  obtains ls where "collect_locks s old_rec new_rec ks = Some ls"
    "sorted (map lock_code (sort_locks ls))" "lock_range (sort_locks ls)"
    "set (sort_locks ls) = lock_need s old_rec new_rec ks"
proof -
  obtain ls where ls: "collect_locks s old_rec new_rec ks = Some ls" "set ls = lock_need s old_rec new_rec ks"
    by (rule collect_locks_need) (use assms in auto)
  from sort_locks_sorts have st: "set (sort_locks ls) = set ls" by (metis set_mset_mset)
  show thesis
    by (rule that [OF ls(1)]) (use ls(2) st sort_locks_sorts lock_need_range assms in auto)
qed

end
