(* ===== verification/FM_Update.thy ===== *)
theory FM_Update
  imports FM_Lockset
begin

text \<open>
  \<^verbatim>\<open>fm_core_update_row\<close> and \<^verbatim>\<open>fm_core_update_row_locked\<close>: the image write under the seqlock, the
  duplicate checks and the chain moves under the bucket locks.
\<close>

section \<open>The operations\<close>

definition fm_core_write_image :: "FM_SHARE_CORE \<Rightarrow> fm_i32 \<Rightarrow> image \<Rightarrow> FM_SHARE_CORE option" where
  "fm_core_write_image s idx rec = do {
     sl \<leftarrow> fm_slot s idx;
     let odd = sl\<lparr> sl_seq := sl_seq sl + 1 \<rparr>;
     let copied = odd\<lparr> sl_data := memcpy (sl_data odd) rec (sc_reclength s) \<rparr>;
     let even = copied\<lparr> sl_seq := sl_seq copied + 1 \<rparr>;
     Some (upd_slot s idx even) }"

definition slot_stale :: "FM_SLOT \<Rightarrow> fm_u32 \<Rightarrow> bool" where
  "slot_stale sl expect_gen = (sl_state sl \<noteq> FM_SLOT_ACTIVE \<or> sl_gen sl \<noteq> expect_gen)"

text \<open>The duplicate checks of the changed keys, in order. The result has the key that was
  refused.\<close>

fun update_dups ::
  "FM_SHARE_CORE \<Rightarrow> nat list \<Rightarrow> image \<Rightarrow> image \<Rightarrow> (nat option \<times> image) option" where
  "update_dups s [] new_rec scratch = Some (None, scratch)"
| "update_dups s (k # ks) new_rec scratch = do {
     kc \<leftarrow> get_key s k;
     bnew \<leftarrow> fm_core_key_bucket kc new_rec;
     (dup, scratch) \<leftarrow> fm_core_dup_check s k bnew new_rec scratch;
     if dup \<noteq> FM_ERR_OK then Some (Some k, scratch) else update_dups s ks new_rec scratch }"

text \<open>The commit loop. The result of the unlink is not looked at.\<close>

definition move_key ::
  "image \<Rightarrow> image \<Rightarrow> fm_i32 \<Rightarrow> nat \<Rightarrow> FM_SHARE_CORE \<Rightarrow> FM_SHARE_CORE option" where
  "move_key old_rec new_rec idx k s = do {
     kc \<leftarrow> get_key s k;
     bnew \<leftarrow> fm_core_key_bucket kc new_rec;
     bold \<leftarrow> fm_core_key_bucket kc old_rec;
     (s, rc) \<leftarrow> fm_core_chain_unlink s k bold idx;
     fm_core_chain_link s k bnew idx }"

definition fm_core_update_row ::
  "FM_SHARE_CORE \<Rightarrow> fm_i32 \<Rightarrow> fm_u32 \<Rightarrow> image \<Rightarrow> image \<Rightarrow> int option \<Rightarrow> image
     \<Rightarrow> (FM_SHARE_CORE \<times> fm_err \<times> int option \<times> image) option" where
  "fm_core_update_row s idx expect_gen old_rec new_rec errkey scratch = do {
     changed \<leftarrow> changed_keys s old_rec new_rec;
     if changed = [] then do {
       s \<leftarrow> lock_slot s idx;
       sl \<leftarrow> fm_slot s idx;
       if slot_stale sl expect_gen then do {
         s \<leftarrow> unlock_slot s idx;
         Some (s, FM_ERR_DELETED, errkey, scratch) }
       else do {
         s \<leftarrow> fm_core_write_image s idx new_rec;
         s \<leftarrow> unlock_slot s idx;
         Some (s, FM_ERR_OK, errkey, scratch) } }
     else do {
       ls \<leftarrow> collect_locks s old_rec new_rec changed;
       let ls = sort_locks ls;
       s \<leftarrow> lock_buckets ls s;
       (dup, scratch) \<leftarrow> update_dups s changed new_rec scratch;
       case dup of
         Some k \<Rightarrow> do {
           s \<leftarrow> unlock_buckets ls s;
           Some (s, FM_ERR_DUP_KEY, map_option (\<lambda>_. int k + 1) errkey, scratch) }
       | None \<Rightarrow> do {
           s \<leftarrow> lock_slot s idx;
           sl \<leftarrow> fm_slot s idx;
           if slot_stale sl expect_gen then do {
             s \<leftarrow> unlock_slot s idx;
             s \<leftarrow> unlock_buckets ls s;
             Some (s, FM_ERR_DELETED, errkey, scratch) }
           else do {
             s \<leftarrow> fm_core_write_image s idx new_rec;
             s \<leftarrow> foldM (move_key old_rec new_rec idx) changed s;
             s \<leftarrow> unlock_slot s idx;
             s \<leftarrow> unlock_buckets ls s;
             Some (s, FM_ERR_OK, errkey, scratch) } } } }"

definition fm_core_update_row_locked ::
  "FM_SHARE_CORE \<Rightarrow> fm_i32 \<Rightarrow> fm_u32 \<Rightarrow> image \<Rightarrow> image \<Rightarrow> int option \<Rightarrow> image
     \<Rightarrow> (FM_SHARE_CORE \<times> fm_err \<times> int option \<times> image) option" where
  "fm_core_update_row_locked s idx expect_gen old_rec new_rec errkey scratch = do {
     sl \<leftarrow> fm_slot s idx;
     if slot_stale sl expect_gen then Some (s, FM_ERR_DELETED, errkey, scratch)
     else do {
       changed \<leftarrow> changed_keys s old_rec new_rec;
       if changed = [] then do {
         s \<leftarrow> fm_core_write_image s idx new_rec;
         Some (s, FM_ERR_OK, errkey, scratch) }
       else do {
         ls \<leftarrow> collect_locks s old_rec new_rec changed;
         let ls = sort_locks ls;
         s \<leftarrow> lock_buckets ls s;
         (dup, scratch) \<leftarrow> update_dups s changed new_rec scratch;
         case dup of
           Some k \<Rightarrow> do {
             s \<leftarrow> unlock_buckets ls s;
             Some (s, FM_ERR_DUP_KEY, map_option (\<lambda>_. int k + 1) errkey, scratch) }
         | None \<Rightarrow> do {
             s \<leftarrow> fm_core_write_image s idx new_rec;
             s \<leftarrow> foldM (move_key old_rec new_rec idx) changed s;
             s \<leftarrow> unlock_buckets ls s;
             Some (s, FM_ERR_OK, errkey, scratch) } } } }"

section \<open>The duplicate checks\<close>

lemma update_dups_correct:
  assumes "slots_ok s" "length scratch = sc_reclength s"
    and "\<And>k. k \<in> set ks \<Longrightarrow> key_ok (kstat s k) \<and> key_chains s k R" and R: "linked_rows s R"
  shows "\<exists>sc. length sc = sc_reclength s \<and> update_dups s ks new_rec scratch =
    Some (List.find (\<lambda>k. conflict (kstat s k) (rows s) new_rec) ks, sc)"
  using assms(2,3)
proof (induction ks arbitrary: scratch)
  case Nil
  then show ?case by simp
next
  case (Cons k ks)
  then have K: "key_ok (kstat s k)" "key_chains s k R" by auto
  from K(1) obtain kc where kc: "get_key s k = Some kc"
    "\<And>r. fm_core_key_bucket kc r = Some (bkt (kstat s k) r)" by (rule key_callE) blast
  obtain sc where sc: "fm_core_dup_check s k (bkt (kstat s k) new_rec) new_rec scratch =
      Some (if conflict (kstat s k) (rows s) new_rec then FM_ERR_DUP_KEY else FM_ERR_OK, sc)"
    "length sc = sc_reclength s"
    by (rule dup_check_linked [OF K(1) assms(1) K(2) R Cons.prems(1)])
  show ?case
  proof (cases "conflict (kstat s k) (rows s) new_rec")
    case True
    then show ?thesis using kc sc by simp
  next
    case False
    then show ?thesis using kc sc Cons.IH [OF sc(2)] Cons.prems(2) by simp
  qed
qed

section \<open>The chain moves\<close>

text \<open>A key that did not change keeps its chains: the row stays in its bucket.\<close>

lemma chains_same_bucket:
  assumes "key_chains s k R" "R i = Some old_rec" "bkt (kstat s k) new_rec = bkt (kstat s k) old_rec"
  shows "key_chains s k (R(i \<mapsto> new_rec))"
proof -
  have "{j. \<exists>r. (R(i \<mapsto> new_rec)) j = Some r \<and> bkt (kstat s k) r = b} =
    {j. \<exists>r. R j = Some r \<and> bkt (kstat s k) r = b}" for b
    using assms(2,3) by auto
  with assms(1) show ?thesis by (simp add: key_chains_def)
qed

lemma move_key_correct:
  assumes K: "key_ok (kstat s k)" and C: "key_chains s k R" and R: "R i = Some old_rec"
    and sl: "fm_slot s i \<noteq> None"
  obtains s' where "move_key old_rec new_rec i k s = Some s'" "chain_step k s s'"
    "key_chains s' k (R(i \<mapsto> new_rec))"
proof -
  from K obtain kc where kc: "get_key s k = Some kc"
    "\<And>r. fm_core_key_bucket kc r = Some (bkt (kstat s k) r)" by (rule key_callE) blast
  obtain t where t: "fm_core_chain_unlink s k (bkt (kstat s k) old_rec) i = Some (t, FM_ERR_OK)"
    "chain_step k s t" "key_chains t k (R(i := None))"
    by (rule chain_unlink_correct [OF C R refl bkt_less [OF K]])
  have f: "kstat t k = kstat s k" "fm_slot t i \<noteq> None"
    using links_step_frame(9,14) [OF chain_links [OF t(2)]] sl by simp_all
  obtain u where u: "fm_core_chain_link t k (bkt (kstat s k) new_rec) i = Some u" "chain_step k t u"
    "key_chains u k ((R(i := None))(i \<mapsto> new_rec))"
    by (rule chain_link_correct [OF t(3) _ f(2), of "bkt (kstat s k) new_rec" new_rec])
      (simp_all add: f(1) bkt_less [OF K])
  show thesis
  proof (rule that)
    show "move_key old_rec new_rec i k s = Some u"
      using kc t(1) u(1) by (simp add: move_key_def)
    show "chain_step k s u" using t(2) u(2) by (rule chain_step_trans)
    show "key_chains u k (R(i \<mapsto> new_rec))" using u(3) by simp
  qed
qed

text \<open>After the commit loop every key, changed or not, has the chains of the updated table.\<close>

lemma move_keys_correct:
  assumes R: "R i = Some old_rec" and sl: "fm_slot s i \<noteq> None"
    and ks: "distinct ks" "\<And>k. k \<in> set ks \<Longrightarrow> key_ok (kstat s k) \<and> key_chains s k R"
  obtains s' where "foldM (move_key old_rec new_rec i) ks s = Some s'" "links_step s s'"
    "\<forall>k \<in> set ks. key_chains s' k (R(i \<mapsto> new_rec))"
    "\<forall>k Q. k \<notin> set ks \<longrightarrow> key_chains s' k Q = key_chains s k Q"
proof -
  have "\<exists>s'. foldM (move_key old_rec new_rec i) ks s = Some s' \<and> links_step s s' \<and>
    (\<forall>k \<in> set ks. key_chains s' k (R(i \<mapsto> new_rec))) \<and>
    (\<forall>k Q. k \<notin> set ks \<longrightarrow> key_chains s' k Q = key_chains s k Q)"
    using sl ks
  proof (induction ks arbitrary: s)
    case Nil
    then show ?case by simp
  next
    case (Cons k ks)
    then have K: "key_ok (kstat s k)" "key_chains s k R" "k \<notin> set ks" by auto
    obtain t where t: "move_key old_rec new_rec i k s = Some t" "chain_step k s t"
      "key_chains t k (R(i \<mapsto> new_rec))"
      by (rule move_key_correct [OF K(1,2) R Cons.prems(1)])
    note ls = chain_links [OF t(2)]
    note f = links_step_frame(9,14) [OF ls]
    have oth: "key_chains t j Q = key_chains s j Q" if "j \<noteq> k" for j Q
      using chain_step_chains [OF t(2) that] .
    have "key_ok (kstat t j) \<and> key_chains t j R" if "j \<in> set ks" for j
      using Cons.prems(3) [of j] that K(3) oth [of j R] f by (cases "j = k") simp_all
    then have pre: "fm_slot t i \<noteq> None" "distinct ks"
      "\<And>j. j \<in> set ks \<Longrightarrow> key_ok (kstat t j) \<and> key_chains t j R"
      using Cons.prems(1,2) f by auto
    from Cons.IH [OF pre] obtain u where u: "foldM (move_key old_rec new_rec i) ks t = Some u"
      "links_step t u" "\<forall>j \<in> set ks. key_chains u j (R(i \<mapsto> new_rec))"
      "\<forall>j Q. j \<notin> set ks \<longrightarrow> key_chains u j Q = key_chains t j Q" by blast
    then show ?case using t K(3) oth links_step_trans [OF ls u(2)] by (auto simp del: fun_upd_apply)
  qed
  with that show thesis by blast
qed

section \<open>Writing the image of a row\<close>

text \<open>A write to slot \<open>i\<close> that keeps its state, generation and free link, and leaves the
  sequence number even.\<close>

definition rewrite_ok :: "FM_SHARE_CORE \<Rightarrow> FM_SLOT \<Rightarrow> FM_SLOT \<Rightarrow> bool" where
  "rewrite_ok s sl sl' = (sl_state sl' = sl_state sl \<and> sl_gen sl' = sl_gen sl \<and>
     sl_free_next sl' = sl_free_next sl \<and> (sl_seq sl AND 1 = 0 \<longrightarrow> sl_seq sl' AND 1 = 0) \<and>
     (sl_data sl' = sl_data sl \<or> length (sl_data sl') = sc_reclength s))"

lemma rewrite_ok_frame:
  assumes sl: "fm_slot s i = Some sl" and rw: "rewrite_ok s sl sl'" and ok: "slots_ok s"
  defines "t \<equiv> upd_slot s i sl'"
  shows "slots_ok t" "sizes_ok t = sizes_ok s" "keys_ok t = keys_ok s" "kstat t = kstat s"
    "key_chains t k R = key_chains s k R" "free_list t xs = free_list s xs" "covers t A = covers s A"
    "dom (rows t) = dom (rows s)" "held t = held s" "gens t = gens s" "key_lock t = key_lock s"
    "rows t = (if sl_state sl = FM_SLOT_ACTIVE then (rows s)(i \<mapsto> sl_data sl') else rows s)"
proof -
  have fn: "sl_free_next sl' = sl_free_next sl" using rw by (simp add: rewrite_ok_def)
  note w = slot_write [OF sl fn, folded t_def]
  have "slot_ok s sl" using ok sl by (simp add: slots_ok_def)
  then have "slot_ok s sl'" using rw by (auto simp: slot_ok_def rewrite_ok_def)
  with w ok show "slots_ok t" "sizes_ok t = sizes_ok s" "keys_ok t = keys_ok s"
    "key_chains t k R = key_chains s k R" "held t = held s" by simp_all
  show "kstat t = kstat s" "key_lock t = key_lock s" by (auto simp: t_def fun_eq_iff)
  show "gens t = gens s" using sl rw by (auto simp: gens_def t_def rewrite_ok_def fun_eq_iff)
  show r: "rows t = (if sl_state sl = FM_SLOT_ACTIVE then (rows s)(i \<mapsto> sl_data sl') else rows s)"
    using sl rw by (auto simp: t_def rows_upd_slot rewrite_ok_def fun_eq_iff) (auto simp: rows_def)
  show d: "dom (rows t) = dom (rows s)"
    unfolding r using sl by (auto simp: rows_def)
  have "(rows t j = None) = (rows s j = None)" for j using d by (metis domIff)
  then show "free_list t xs = free_list s xs" using w(4) by (simp add: free_list_def t_def)
  show "covers t A = covers s A" unfolding covers_def d by (simp add: t_def)
qed

text \<open>Rows outside of a change in contents stay unique.\<close>

lemma unique_rows_update:
  assumes K: "key_ok K" and U: "unique_rows K R" and R: "R i = Some a"
    and c: "same_key K a r \<or> \<not> conflict K R r"
  shows "unique_rows K (R(i \<mapsto> r))"
proof -
  have "\<not> conflict K (R(i := None)) r"
  proof
    assume "conflict K (R(i := None)) r"
    then obtain j b where j: "is_unique K" "\<not> has_null K r" "j \<noteq> i" "R j = Some b" "same_key K b r"
      by (auto simp: conflict_def split: if_splits)
    then have "\<not> has_null K b" using same_key_null [OF K] by blast
    moreover have "same_key K a r \<Longrightarrow> same_key K b a"
      using j(5) same_key_sym [OF K] same_key_trans [OF K] by blast
    ultimately show False using c j R U by (auto simp: conflict_def unique_rows_def)
  qed
  from unique_rows_add [OF K unique_rows_remove [OF U] this, of i] show ?thesis by simp
qed

lemma unchanged_same:
  "k < sc_keys s \<Longrightarrow> k \<notin> set (filter (\<lambda>j. \<not> same_key (kstat s j) a r) [0..<sc_keys s]) \<Longrightarrow>
     same_key (kstat s k) a r"
  by simp

text \<open>The commit of an update: image, then chains.\<close>

lemma update_commit:
  assumes inv: "core_inv s" and sl: "fm_slot s i = Some sl" "sl_state sl = FM_SLOT_ACTIVE"
    and rw: "rewrite_ok s sl sl'" and len: "length (sl_data sl') = sc_reclength s"
  defines "a \<equiv> sl_data sl" and "r \<equiv> sl_data sl'"
  defines "ks \<equiv> filter (\<lambda>j. \<not> same_key (kstat s j) a r) [0..<sc_keys s]"
  assumes nc: "\<forall>k \<in> set ks. \<not> conflict (kstat s k) (rows s) r"
  obtains u where "foldM (move_key a r i) ks (upd_slot s i sl') = Some u"
    "links_step (upd_slot s i sl') u" "core_inv u" "rows u = (rows s)(i \<mapsto> r)" "kstat u = kstat s"
    "gens u = gens s" "limited s \<longrightarrow> limited u"
proof -
  note D = core_invD [OF inv]
  define t where "t = upd_slot s i sl'"
  note T = rewrite_ok_frame [OF sl(1) rw D(3), folded t_def]
  have Ri: "rows s i = Some a" using sl by (simp add: rows_def a_def)
  have rt: "rows t = (rows s)(i \<mapsto> r)" using T(12) sl(2) by (simp add: r_def)
  have st: "fm_slot t i \<noteq> None" using sl(1) by (simp add: t_def)
  have kk: "key_ok (kstat t k) \<and> key_chains t k (rows s)" if "k \<in> set ks" for k
    using that D(5,6) by (auto simp: ks_def T(4,5))
  have dk: "distinct ks" by (simp add: ks_def)
  obtain u where u: "foldM (move_key a r i) ks t = Some u" "links_step t u"
    "\<forall>k \<in> set ks. key_chains u k ((rows s)(i \<mapsto> r))"
    "\<forall>k Q. k \<notin> set ks \<longrightarrow> key_chains u k Q = key_chains t k Q"
    by (rule move_keys_correct [where R = "rows s" and i = i and new_rec = r, OF Ri st dk kk])
  note f = links_step_frame [OF u(2)]
  have kc: "key_chains u k (rows u) \<and> unique_rows (kstat u k) (rows u)" if k: "k < sc_keys s" for k
  proof
    have ks': "k \<notin> set ks \<Longrightarrow> same_key (kstat s k) a r"
      using unchanged_same [OF k] by (simp add: ks_def)
    show "key_chains u k (rows u)"
    proof (cases "k \<in> set ks")
      case True
      with u(3) f(1) rt show ?thesis by simp
    next
      case False
      then have "bkt (kstat s k) a = bkt (kstat s k) r"
        using same_key_bkt [OF D(5) [OF k]] ks' by blast
      then have "key_chains s k ((rows s)(i \<mapsto> r))"
        using chains_same_bucket [OF D(6) [OF k] Ri] by simp
      then show ?thesis using False u(4) f(1) rt T(5) by simp
    qed
    show "unique_rows (kstat u k) (rows u)"
      unfolding f(1,9) rt T(4)
      using unique_rows_update [OF D(5) [OF k] D(7) [OF k] Ri] ks' nc by blast
  qed
  have ru: "rows u = (rows s)(i \<mapsto> r)" using f(1) rt by simp
  obtain xs where xs: "free_list s xs" "covers s (set xs)" using inv by (auto simp: core_inv_def)
  have rec: "sc_records u = int (card (dom (rows u)))"
    using D(4) T(8) f(1,11) by (simp add: t_def)
  have keys: "sc_keys u = sc_keys s" "sc_max_records u = sc_max_records s"
    using f(10,16) by (simp_all add: t_def)
  have inv': "core_inv u"
    unfolding core_inv_def keys
    using kc rec xs T(1-3,6,7) f(4-8) D(1-3) by (intro conjI exI [of _ xs]) auto
  have lim: "limited u" if "limited s"
    using that unfolding limited_def f(1,7) T(6,8) keys .
  have "gens u = gens s" using T(10) f(14) by (simp add: gens_def fun_eq_iff)
  then show thesis using u(1,2) inv' ru f(9) T(4) lim by (intro that [of u]) (simp_all add: t_def)
qed

section \<open>Locked states satisfy the invariant\<close>

lemma locks_set_inv:
  assumes "locks_set A g s s'"
  shows "core_inv s' = core_inv s" "limited s' = limited s" "gens s' = gens s" "lasting s' = lasting s"
proof -
  note f = locks_set_frame [OF assms]
  show "lasting s' = lasting s" using assms by (intro lasting_scal) (auto simp: locks_set_def)
  have c: "sc_keys s' = sc_keys s" "sc_records s' = sc_records s" "sc_max_records s' = sc_max_records s"
    using f(12) by (simp_all add: scal_def)
  show "core_inv s' = core_inv s" by (simp add: core_inv_def f c)
  show "limited s' = limited s" by (simp add: limited_def f c)
  show "gens s' = gens s" by (simp add: gens_def f fun_eq_iff)
qed

lemma rewrite_inv:
  assumes inv: "core_inv s" and sl: "fm_slot s i = Some sl" and rw: "rewrite_ok s sl sl'"
    and d: "sl_data sl' = sl_data sl"
  shows "core_inv (upd_slot s i sl')" "rows (upd_slot s i sl') = rows s" "gens (upd_slot s i sl') = gens s"
    "limited (upd_slot s i sl') = limited s" "kstat (upd_slot s i sl') = kstat s"
    "key_lock (upd_slot s i sl') = key_lock s"
proof -
  let ?t = "upd_slot s i sl'"
  note D = core_invD [OF inv]
  note f = rewrite_ok_frame [OF sl rw D(3)]
  show r: "rows ?t = rows s" using f(12) sl d by (auto simp: rows_def fun_eq_iff)
  show "core_inv ?t" using inv f(1-7) by (simp add: core_inv_def r)
  show "gens ?t = gens s" "kstat ?t = kstat s" "key_lock ?t = key_lock s" by (rule f)+
  show "limited ?t = limited s" by (simp add: limited_def f(6) r)
qed

text \<open>An operation that leaves the table consistent, with rows \<open>R\<close>, no lock held that was
  not held before, and every generation as it was.\<close>

definition good_step :: "FM_SHARE_CORE \<Rightarrow> (fm_i32 \<rightharpoonup> image) \<Rightarrow> FM_SHARE_CORE \<Rightarrow> bool" where
  "good_step s R s' = (core_inv s' \<and> quiet s' \<and> rows s' = R \<and> same_shape s s' \<and> gens s' = gens s \<and>
     (limited s \<longrightarrow> limited s'))"

lemma good_step_refl: "core_inv s \<Longrightarrow> quiet s \<Longrightarrow> good_step s (rows s) s"
  by (simp add: good_step_def)

lemma lock_slot_free:
  "fm_slot s i = Some sl \<Longrightarrow> \<not> sl_wlock sl \<Longrightarrow> lock_slot s i = Some (upd_slot s i (sl\<lparr> sl_wlock := True \<rparr>))"
  by (simp add: lock_slot_def spin_lock_def)

lemma unlock_slot_run:
  "fm_slot s i = Some sl \<Longrightarrow> unlock_slot s i = Some (upd_slot s i (sl\<lparr> sl_wlock := False \<rparr>))"
  by (simp add: unlock_slot_def spin_unlock_def)

lemma write_image_run:
  "fm_slot s i = Some sl \<Longrightarrow> length (sl_data sl) \<le> length r \<Longrightarrow> length r = sc_reclength s \<Longrightarrow>
     fm_core_write_image s i r = Some (upd_slot s i (sl\<lparr> sl_data := r, sl_seq := sl_seq sl + 1 + 1 \<rparr>))"
  by (simp add: fm_core_write_image_def Let_def)

lemma seq_even: "x AND 1 = 0 \<Longrightarrow> (x + 1 + 1) AND 1 = (0 :: fm_u32)"
  by (simp add: and_one_eq mod2_eq_if)

text \<open>Taking the lock set, an inner step that keeps the locks, releasing the lock set.\<close>

lemma locked_cycle:
  assumes "core_inv s" "quiet s"
    and A: "\<And>k b. (k, b) \<in> set ls \<Longrightarrow> key_lock s k b = Some False"
    and ls: "sorted (map lock_code ls)" "lock_range ls"
    and s1: "locks_set (set ls) True s s1"
    and t: "core_inv t" "kstat t = kstat s" "key_lock t = key_lock s1" "gens t = gens s"
      "same_shape s t" "sc_struct_mutex t = sc_struct_mutex s" "limited s \<longrightarrow> limited t"
  obtains s3 where "unlock_buckets ls t = Some s3" "good_step s (rows t) s3"
proof -
  have "key_lock t k b \<noteq> None" if "(k, b) \<in> set ls" for k b
    using A [OF that] s1 t(3) by (auto simp: locks_set_def)
  then obtain s3 where s3: "unlock_buckets ls t = Some s3" "locks_set (set ls) False t s3"
    by (rule unlock_buckets_correct [OF ls])
  note f = locks_set_frame [OF s3(2)] and g = locks_set_inv [OF s3(2)]
  have "key_lock s3 k b \<noteq> Some True" for k b
    using s1 t(3) s3(2) assms(2) by (auto simp: locks_set_def quiet_def held_def split: if_splits)
  then have "quiet s3" using assms(2) t(6) f(12) by (auto simp: quiet_def held_def scal_def)
  moreover have "same_shape s s3" using t(5) f(10,11,12) g(4) by (simp add: same_shape_def scal_def)
  ultimately have "good_step s (rows t) s3"
    using g t(1,4,7) f(3) by (simp add: good_step_def)
  with s3(1) show thesis by (rule that)
qed

section \<open>The whole operations\<close>

text \<open>The keys an update may be refused for: changed ones on which another row conflicts.\<close>

definition refused :: "FM_SHARE_CORE \<Rightarrow> image \<Rightarrow> image \<Rightarrow> nat \<Rightarrow> bool" where
  "refused s old_rec new_rec k = (k < sc_keys s \<and> \<not> same_key (kstat s k) old_rec new_rec \<and>
     conflict (kstat s k) (rows s) new_rec)"

lemma find_refused:
  fixes s :: FM_SHARE_CORE and old_rec new_rec :: image
  defines "ks \<equiv> filter (\<lambda>j. \<not> same_key (kstat s j) old_rec new_rec) [0..<sc_keys s]"
  shows "List.find (\<lambda>k. conflict (kstat s k) (rows s) new_rec) ks =
    (if \<exists>k. refused s old_rec new_rec k then Some (LEAST k. refused s old_rec new_rec k) else None)"
proof (cases "\<exists>k. refused s old_rec new_rec k")
  case False
  then show ?thesis by (auto simp: find_None_iff ks_def refused_def)
next
  case True
  define m where "m = (LEAST k. refused s old_rec new_rec k)"
  have k: "refused s old_rec new_rec m" unfolding m_def using True by (rule LeastI_ex)
  have less: "\<not> refused s old_rec new_rec j" if "j < m" for j
    using that unfolding m_def by (rule not_less_Least)
  have "ks = filter (\<lambda>j. \<not> same_key (kstat s j) old_rec new_rec) [0..<m] @ m #
    filter (\<lambda>j. \<not> same_key (kstat s j) old_rec new_rec) [Suc m..<sc_keys s]"
    using k upt_add_eq_append [of 0 m "sc_keys s - m"] upt_conv_Cons [of m "sc_keys s"]
    by (simp add: ks_def refused_def)
  moreover have "filter (\<lambda>k. conflict (kstat s k) (rows s) new_rec)
      (filter (\<lambda>j. \<not> same_key (kstat s j) old_rec new_rec) [0..<m]) = []"
    using less k by (auto simp: filter_empty_conv refused_def)
  ultimately have "List.find (\<lambda>k. conflict (kstat s k) (rows s) new_rec) ks = Some m"
    using k by (simp add: find_filter refused_def)
  with True show ?thesis by (simp add: m_def)
qed

text \<open>The part that both operations share once the lock set is taken: no duplicate, then
  image and chains, with the slot's write lock as the caller has it (\<open>sl'\<close>).\<close>

lemma locked_commit:
  fixes g :: bool
  assumes inv: "core_inv s" "quiet s" and sl: "fm_slot s i = Some sl" "sl_state sl = FM_SLOT_ACTIVE"
    and s1: "locks_set A True s s1" and len: "length r = sc_reclength s"
    and nr: "\<nexists>k. refused s (sl_data sl) r k"
  defines "sl' \<equiv> sl\<lparr> sl_wlock := g, sl_data := r, sl_seq := sl_seq sl + 1 + 1 \<rparr>"
  defines "ks \<equiv> filter (\<lambda>j. \<not> same_key (kstat s j) (sl_data sl) r) [0..<sc_keys s]"
  obtains u where "foldM (move_key (sl_data sl) r i) ks (upd_slot s1 i sl') = Some u"
    "fm_slot u i = Some sl'" "core_inv u" "rows u = (rows s)(i \<mapsto> r)" "kstat u = kstat s"
    "key_lock u = key_lock s1" "gens u = gens s" "limited s \<longrightarrow> limited u" "sc_keys u = sc_keys s"
    "sc_reclength u = sc_reclength s" "sc_max_records u = sc_max_records s"
    "sc_struct_mutex u = sc_struct_mutex s" "wlocked u - {i} = wlocked s - {i}" "lasting u = lasting s"
proof -
  note f = locks_set_frame [OF s1] and g = locks_set_inv [OF s1]
  have eq: "sc_keys s1 = sc_keys s" "sc_reclength s1 = sc_reclength s" "sc_max_records s1 = sc_max_records s"
    "sc_struct_mutex s1 = sc_struct_mutex s" using f(12) by (simp_all add: scal_def)
  have i1: "core_inv s1" using g(1) inv(1) by simp
  have sl1: "fm_slot s1 i = Some sl" using sl(1) f(1) by simp
  have rw: "rewrite_ok s1 sl sl'"
    using len eq(2) seq_even by (auto simp: rewrite_ok_def sl'_def simp del: add.commute)
  have len': "length (sl_data sl') = sc_reclength s1" using len eq(2) by (simp add: sl'_def)
  have d': "sl_data sl' = r" by (simp add: sl'_def)
  have ks1: "filter (\<lambda>j. \<not> same_key (kstat s1 j) (sl_data sl) r) [0..<sc_keys s1] = ks"
    by (simp add: ks_def eq f(10))
  have nc: "\<forall>k \<in> set ks. \<not> conflict (kstat s1 k) (rows s1) (sl_data sl')"
    using nr by (auto simp: ks_def refused_def d' f(3,10))
  obtain u where u: "foldM (move_key (sl_data sl) r i) ks (upd_slot s1 i sl') = Some u"
    "links_step (upd_slot s1 i sl') u" "core_inv u" "rows u = (rows s1)(i \<mapsto> r)" "kstat u = kstat s1"
    "gens u = gens s1" "limited s1 \<longrightarrow> limited u"
    by (rule update_commit [OF i1 sl1 sl(2) rw len', unfolded ks1 d', OF nc [unfolded d']])
  note h = links_step_frame [OF u(2)]
  show thesis
  proof (rule that [OF u(1)])
    show "fm_slot u i = Some sl'" using h(14) sl1 by simp
    show "wlocked u - {i} = wlocked s - {i}"
      using h(3) f(11) by (auto simp: wlocked_def f(1) h(14) split: if_splits)
    show "key_lock u = key_lock s1" using h(15) by (auto simp: fun_eq_iff)
    show "lasting u = lasting s" using links_step_lasting [OF u(2)] g(4) by simp
  qed (use u h f g eq in \<open>simp_all\<close>)
qed

text \<open>Up to the duplicate checks.\<close>

lemma update_prepare:
  fixes old_rec new_rec :: image
  assumes ok: "keys_ok s" "slots_ok s" "held s = {}" and C: "\<And>k. k < sc_keys s \<Longrightarrow> key_chains s k R" and R: "linked_rows s R"
    and len: "length scratch = sc_reclength s"
  defines "ks \<equiv> filter (\<lambda>j. \<not> same_key (kstat s j) old_rec new_rec) [0..<sc_keys s]"
  obtains l0 ls s1 sc where "collect_locks s old_rec new_rec ks = Some l0" "ls = sort_locks l0"
    "sorted (map lock_code ls)" "lock_range ls" "\<forall>k b. (k, b) \<in> set ls \<longrightarrow> key_lock s k b = Some False"
    "lock_buckets ls s = Some s1" "locks_set (set ls) True s s1"
    "update_dups s1 ks new_rec scratch = Some (if \<exists>k. refused s old_rec new_rec k
       then Some (LEAST k. refused s old_rec new_rec k) else None, sc)" "length sc = sc_reclength s"
proof -
  have ks: "key_ok (kstat s k) \<and> k < FM_MAX_CHANGED_KEYS" if "k \<in> set ks" for k
    using that ok(1) by (auto simp: ks_def keys_ok_def)
  obtain l0 where l0: "collect_locks s old_rec new_rec ks = Some l0"
    "sorted (map lock_code (sort_locks l0))" "lock_range (sort_locks l0)"
    "set (sort_locks l0) = lock_need s old_rec new_rec ks"
    by (rule lockset_ready [OF ks])
  have free: "key_lock s k b = Some False" if "(k, b) \<in> set (sort_locks l0)" for k b
  proof -
    from that l0(4) have "k \<in> set ks" "b = bkt (kstat s k) new_rec \<or> b = bkt (kstat s k) old_rec"
      by (auto simp: lock_need_def)
    then have "k < sc_keys s" "b < nbk (kstat s k)" using bkt_less ks by (auto simp: ks_def)
    then show ?thesis using ok(1,3) by (intro not_held) (auto simp: keys_ok_def)
  qed
  obtain s1 where s1: "lock_buckets (sort_locks l0) s = Some s1" "locks_set (set (sort_locks l0)) True s s1"
    by (rule lock_buckets_correct [OF l0(2,3) free])
  note f = locks_set_frame [OF s1(2)]
  have dk: "key_ok (kstat s1 k) \<and> key_chains s1 k R" if "k \<in> set ks" for k
    using that ks C by (auto simp: ks_def f)
  have R1: "linked_rows s1 R" using R by (simp add: linked_rows_def f)
  have "length scratch = sc_reclength s1" using len f(12) by (simp add: scal_def)
  from update_dups_correct [OF _ this dk R1, where new_rec = new_rec] f(6) ok(2)
  obtain sc where "update_dups s1 ks new_rec scratch =
      Some (List.find (\<lambda>k. conflict (kstat s k) (rows s) new_rec) ks, sc)" "length sc = sc_reclength s1"
    by (auto simp: f(3,10))
  moreover have "sc_reclength s1 = sc_reclength s" using f(12) by (simp add: scal_def)
  ultimately show thesis
    using that [OF l0(1) refl l0(2,3) _ s1] free unfolding ks_def find_refused by simp
qed

text \<open>The commit when no key changes, and the rest of the update when some do.\<close>

lemma wlocked_same:
  assumes "fm_slot s i = Some sl" "fm_slot u i = Some sl'" "sl_wlock sl' = sl_wlock sl" "wlocked u - {i} = wlocked s - {i}"
  shows "wlocked u = wlocked s"
proof -
  have "(i \<in> wlocked u) = (i \<in> wlocked s)" using assms(1-3) by (simp add: wlocked_def)
  with assms(4) show ?thesis by blast
qed

lemma update_locked_image:
  assumes inv: "core_inv s" "quiet s" and sl: "fm_slot s i = Some sl" and act: "sl_state sl = FM_SLOT_ACTIVE"
    and len: "length new_rec = sc_reclength s"
    and same: "filter (\<lambda>j. \<not> same_key (kstat s j) (sl_data sl) new_rec) [0..<sc_keys s] = []"
  obtains u where "fm_core_write_image s i new_rec = Some u" "good_step s ((rows s)(i \<mapsto> new_rec)) u"
    "\<nexists>k. refused s (sl_data sl) new_rec k"
proof -
  let ?sl = "sl\<lparr> sl_wlock := sl_wlock sl, sl_data := new_rec, sl_seq := sl_seq sl + 1 + 1 \<rparr>"
  have dl: "length (sl_data sl) \<le> length new_rec"
    using core_invD(3) [OF inv(1)] sl len by (simp add: slots_ok_def slot_ok_def)
  have nr: "\<nexists>k. refused s (sl_data sl) new_rec k" using same by (auto simp: refused_def filter_empty_conv)
  obtain u where u: "foldM (move_key (sl_data sl) new_rec i) [] (upd_slot s i ?sl) = Some u"
    "fm_slot u i = Some ?sl" "core_inv u" "rows u = (rows s)(i \<mapsto> new_rec)" "kstat u = kstat s"
    "key_lock u = key_lock s" "gens u = gens s" "limited s \<longrightarrow> limited u" "sc_keys u = sc_keys s"
    "sc_reclength u = sc_reclength s" "sc_max_records u = sc_max_records s"
    "sc_struct_mutex u = sc_struct_mutex s" "wlocked u - {i} = wlocked s - {i}" "lasting u = lasting s"
    by (rule locked_commit [OF inv sl act locks_set_refl len nr, where g = "sl_wlock sl", unfolded same])
  have "good_step s ((rows s)(i \<mapsto> new_rec)) u"
    using u inv(2) wlocked_same [OF sl u(2) _ u(13)] by (simp add: good_step_def same_shape_def quiet_def held_def)
  moreover have "fm_core_write_image s i new_rec = Some u" using write_image_run [OF sl dl len] u(1) by simp
  ultimately show thesis using nr by (intro that)
qed

lemma update_locked_move:
  assumes inv: "core_inv s" "quiet s" and sl: "fm_slot s i = Some sl" and fresh: "\<not> slot_stale sl g" and o: "old_rec = sl_data sl"
    and len: "length new_rec = sc_reclength s" "length scratch = sc_reclength s"
    and moved: "changed_keys s old_rec new_rec = Some ks" "ks \<noteq> []"
  obtains (ok) s' sc where
    "fm_core_update_row_locked s i g old_rec new_rec ek scratch = Some (s', FM_ERR_OK, ek, sc)"
    "\<nexists>k. refused s old_rec new_rec k" "good_step s ((rows s)(i \<mapsto> new_rec)) s'"
    "length sc = sc_reclength s"
  | (dup) s' sc where
    "fm_core_update_row_locked s i g old_rec new_rec ek scratch = Some (s', FM_ERR_DUP_KEY,
       map_option (\<lambda>_. int (LEAST k. refused s old_rec new_rec k) + 1) ek, sc)"
    "\<exists>k. refused s old_rec new_rec k" "good_step s (rows s) s'" "length sc = sc_reclength s"
proof -
  note D = core_invD [OF inv(1)]
  have act: "sl_state sl = FM_SLOT_ACTIVE" using fresh by (simp add: slot_stale_def)
  have ks_def: "ks = filter (\<lambda>j. \<not> same_key (kstat s j) old_rec new_rec) [0..<sc_keys s]"
    using moved(1) D(2) by (simp add: changed_keys_filter)
  let ?sl = "sl\<lparr> sl_wlock := sl_wlock sl, sl_data := new_rec, sl_seq := sl_seq sl + 1 + 1 \<rparr>"
  have dl: "length (sl_data sl) \<le> length new_rec"
    using D(3) sl len(1) by (simp add: slots_ok_def slot_ok_def)
  have held: "held s = {}" using inv(2) by (simp add: quiet_def)
  obtain l0 ls s1 sc where p: "collect_locks s old_rec new_rec ks = Some l0" "ls = sort_locks l0"
    "sorted (map lock_code ls)" "lock_range ls" "\<forall>k b. (k, b) \<in> set ls \<longrightarrow> key_lock s k b = Some False"
    "lock_buckets ls s = Some s1" "locks_set (set ls) True s s1"
    "update_dups s1 ks new_rec scratch = Some (if \<exists>k. refused s old_rec new_rec k
       then Some (LEAST k. refused s old_rec new_rec k) else None, sc)" "length sc = sc_reclength s"
    by (rule update_prepare [OF core_invD(2,3) [OF inv(1)] held core_invD(6) [OF inv(1)] linked_rows_refl len(2),
          where old_rec = old_rec and new_rec = new_rec, folded ks_def])
  have fr: "\<And>k b. (k, b) \<in> set ls \<Longrightarrow> key_lock s k b = Some False" using p(5) by blast
  note cycle = locked_cycle [OF inv fr p(3,4,7)]
  note f = locks_set_frame [OF p(7)] and h = locks_set_inv [OF p(7)]
  show thesis
  proof (cases "\<exists>k. refused s old_rec new_rec k")
    case True
    have sh: "same_shape s s1" "sc_struct_mutex s1 = sc_struct_mutex s"
      using f h(4) by (simp_all add: same_shape_def scal_def)
    obtain s3 where s3: "unlock_buckets ls s1 = Some s3" "good_step s (rows s1) s3"
      by (rule cycle [of s1]) (use h inv f(10) sh in simp_all)
    have "fm_core_update_row_locked s i g old_rec new_rec ek scratch = Some (s3, FM_ERR_DUP_KEY,
       map_option (\<lambda>_. int (LEAST k. refused s old_rec new_rec k) + 1) ek, sc)"
      using fresh sl moved p(1,2,6,8) s3(1) True by (simp add: fm_core_update_row_locked_def)
    then show thesis using dup True s3(2) f(3) p(9) by simp
  next
    case nr: False
    obtain u where u: "foldM (move_key old_rec new_rec i) ks (upd_slot s1 i ?sl) = Some u"
      "fm_slot u i = Some ?sl" "core_inv u" "rows u = (rows s)(i \<mapsto> new_rec)" "kstat u = kstat s"
      "key_lock u = key_lock s1" "gens u = gens s" "limited s \<longrightarrow> limited u" "sc_keys u = sc_keys s"
      "sc_reclength u = sc_reclength s" "sc_max_records u = sc_max_records s"
      "sc_struct_mutex u = sc_struct_mutex s" "wlocked u - {i} = wlocked s - {i}" "lasting u = lasting s"
      using locked_commit [OF inv sl act p(7) len(1), where g = "sl_wlock sl"] nr
      unfolding ks_def o by metis
    have sh: "same_shape s u" using u wlocked_same [OF sl u(2) _ u(13)] by (simp add: same_shape_def)
    obtain s3 where s3: "unlock_buckets ls u = Some s3" "good_step s (rows u) s3"
      by (rule cycle [of u]) (use u sh in simp_all)
    have sl1: "fm_slot s1 i = Some sl" and len1: "length new_rec = sc_reclength s1"
      using sl len(1) f(1,12) by (simp_all add: scal_def)
    have "fm_core_update_row_locked s i g old_rec new_rec ek scratch = Some (s3, FM_ERR_OK, ek, sc)"
      using fresh sl moved p(1,2,6,8) s3(1) nr u(1) write_image_run [OF sl1 dl len1]
      by (simp add: fm_core_update_row_locked_def)
    then show thesis using ok nr s3(2) u(4) p(9) by simp
  qed
qed

text \<open>The outcomes of \<^verbatim>\<open>fm_core_update_row_locked\<close>.\<close>

lemma update_locked_cases:
  assumes inv: "core_inv s" "quiet s" and sl: "fm_slot s i = Some sl"
    and len: "length new_rec = sc_reclength s" "length scratch = sc_reclength s"
    and old: "\<not> slot_stale sl g \<Longrightarrow> old_rec = sl_data sl"
  obtains (ok) s' sc where
    "fm_core_update_row_locked s i g old_rec new_rec ek scratch = Some (s', FM_ERR_OK, ek, sc)"
    "\<not> slot_stale sl g" "\<nexists>k. refused s old_rec new_rec k" "good_step s ((rows s)(i \<mapsto> new_rec)) s'"
    "length sc = sc_reclength s"
  | (dup) s' sc where
    "fm_core_update_row_locked s i g old_rec new_rec ek scratch = Some (s', FM_ERR_DUP_KEY,
       map_option (\<lambda>_. int (LEAST k. refused s old_rec new_rec k) + 1) ek, sc)"
    "\<exists>k. refused s old_rec new_rec k" "good_step s (rows s) s'" "length sc = sc_reclength s"
  | (deleted) "fm_core_update_row_locked s i g old_rec new_rec ek scratch = Some (s, FM_ERR_DELETED, ek, scratch)"
    "slot_stale sl g"
proof (cases "slot_stale sl g")
  case True
  then show thesis using deleted sl by (simp add: fm_core_update_row_locked_def)
next
  case False
  then have o: "old_rec = sl_data sl" and act: "sl_state sl = FM_SLOT_ACTIVE"
    using old by (auto simp: slot_stale_def)
  obtain ks where ch: "changed_keys s old_rec new_rec = Some ks" "ks = filter (\<lambda>j. \<not> same_key (kstat s j) old_rec new_rec) [0..<sc_keys s]"
    using core_invD(2) [OF inv(1)] by (simp add: changed_keys_filter)
  show thesis
  proof (cases "ks = []")
    case True
    then obtain u where u: "fm_core_write_image s i new_rec = Some u" "good_step s ((rows s)(i \<mapsto> new_rec)) u"
      "\<nexists>k. refused s old_rec new_rec k"
      using update_locked_image [OF inv sl act len(1)] ch(2) o by metis
    then have "fm_core_update_row_locked s i g old_rec new_rec ek scratch = Some (u, FM_ERR_OK, ek, scratch)"
      using False sl ch(1) True by (simp add: fm_core_update_row_locked_def)
    then show thesis using ok False u(2,3) len(2) by blast
  next
    case ne: False
    show thesis
    proof (cases rule: update_locked_move [OF inv sl False o len ch(1) ne, where ek = ek])
      case 1
      then show thesis using ok False by blast
    next
      case 2
      then show thesis using dup by blast
    qed
  qed
qed

text \<open>For \<^verbatim>\<open>fm_core_update_row\<close> the write lock of the slot is taken before and released after the
  commit.\<close>

lemma unlock_slot_restores:
  assumes "fm_slot s i = Some sl" "\<not> sl_wlock sl"
  shows "unlock_slot (upd_slot s i (sl\<lparr> sl_wlock := True \<rparr>)) i = Some s"
proof -
  have "sl\<lparr> sl_wlock := False \<rparr> = sl" using assms(2) by (cases sl) simp
  then show ?thesis using assms(1) upd_slot_same [OF assms(1)] by (simp add: unlock_slot_run)
qed

lemma commit_unlock:
  assumes inv: "core_inv s" "quiet s" and sl: "fm_slot s i = Some sl" "sl_state sl = FM_SLOT_ACTIVE"
    and free: "\<not> sl_wlock sl"
    and s1: "locks_set A True s s1" and len: "length r = sc_reclength s"
    and nr: "\<nexists>k. refused s (sl_data sl) r k"
  defines "ks \<equiv> filter (\<lambda>j. \<not> same_key (kstat s j) (sl_data sl) r) [0..<sc_keys s]"
  obtains u v where "lock_slot s1 i = Some (upd_slot s1 i (sl\<lparr> sl_wlock := True \<rparr>))"
    "do { t \<leftarrow> fm_core_write_image (upd_slot s1 i (sl\<lparr> sl_wlock := True \<rparr>)) i r;
       t \<leftarrow> foldM (move_key (sl_data sl) r i) ks t; unlock_slot t i } = Some v"
    "core_inv v" "rows v = (rows s)(i \<mapsto> r)" "kstat v = kstat s" "key_lock v = key_lock s1"
    "gens v = gens s" "same_shape s v" "sc_struct_mutex v = sc_struct_mutex s" "limited s \<longrightarrow> limited v"
proof -
  let ?sl = "sl\<lparr> sl_wlock := True, sl_data := r, sl_seq := sl_seq sl + 1 + 1 \<rparr>"
  note f = locks_set_frame [OF s1]
  have sl1: "fm_slot s1 i = Some sl" using sl(1) f(1) by simp
  have dl: "length (sl_data sl) \<le> length r"
    using core_invD(3) [OF inv(1)] sl len by (simp add: slots_ok_def slot_ok_def)
  have len1: "length r = sc_reclength s1" using len f(12) by (simp add: scal_def)
  obtain u where u: "foldM (move_key (sl_data sl) r i) ks (upd_slot s1 i ?sl) = Some u"
    "fm_slot u i = Some ?sl" "core_inv u" "rows u = (rows s)(i \<mapsto> r)" "kstat u = kstat s"
    "key_lock u = key_lock s1" "gens u = gens s" "limited s \<longrightarrow> limited u" "sc_keys u = sc_keys s"
    "sc_reclength u = sc_reclength s" "sc_max_records u = sc_max_records s"
    "sc_struct_mutex u = sc_struct_mutex s" "wlocked u - {i} = wlocked s - {i}" "lasting u = lasting s"
    by (rule locked_commit [OF inv sl s1 len nr, where g = True, folded ks_def])
  let ?v = "upd_slot u i (?sl\<lparr> sl_wlock := False \<rparr>)"
  have rw: "rewrite_ok u ?sl (?sl\<lparr> sl_wlock := False \<rparr>)" by (simp add: rewrite_ok_def)
  note R = rewrite_inv [OF u(3,2) rw]
  have "wlocked ?v - {i} = wlocked s - {i}" "i \<notin> wlocked ?v" "i \<notin> wlocked s"
    using u(2,13) sl(1) free by (auto simp: wlocked_def split: if_splits)
  then have wl: "wlocked ?v = wlocked s" by blast
  show thesis
  proof (rule that)
    show "lock_slot s1 i = Some (upd_slot s1 i (sl\<lparr> sl_wlock := True \<rparr>))"
      using sl1 free by (rule lock_slot_free)
    show "do { t \<leftarrow> fm_core_write_image (upd_slot s1 i (sl\<lparr> sl_wlock := True \<rparr>)) i r;
       t \<leftarrow> foldM (move_key (sl_data sl) r i) ks t; unlock_slot t i } = Some ?v"
      using u(1,2) write_image_run [of "upd_slot s1 i (sl\<lparr> sl_wlock := True \<rparr>)" i "sl\<lparr> sl_wlock := True \<rparr>" r]
        dl len1 sl1 by (simp add: unlock_slot_run)
    show "same_shape s ?v" using R(5) u(5,9-11,14) wl by (simp add: same_shape_def)
  qed (use R u in \<open>simp_all\<close>)
qed

lemma update_plain_cases:
  assumes inv: "core_inv s" "quiet s" and sl: "fm_slot s i = Some sl" "\<not> sl_wlock sl"
    and len: "length new_rec = sc_reclength s" and old: "\<not> slot_stale sl g \<Longrightarrow> old_rec = sl_data sl"
    and same: "changed_keys s old_rec new_rec = Some []"
  obtains (ok) s' where "fm_core_update_row s i g old_rec new_rec ek scratch = Some (s', FM_ERR_OK, ek, scratch)"
    "\<not> slot_stale sl g" "\<nexists>k. refused s old_rec new_rec k" "good_step s ((rows s)(i \<mapsto> new_rec)) s'"
  | (deleted) "fm_core_update_row s i g old_rec new_rec ek scratch = Some (s, FM_ERR_DELETED, ek, scratch)" "slot_stale sl g"
proof -
  let ?sT = "sl\<lparr> sl_wlock := True \<rparr>"
  have stT: "slot_stale (sl\<lparr> sl_wlock := True \<rparr>) g = slot_stale sl g" by (simp add: slot_stale_def)
  have ks0: "filter (\<lambda>j. \<not> same_key (kstat s j) old_rec new_rec) [0..<sc_keys s] = []"
    using same core_invD(2) [OF inv(1)] by (simp add: changed_keys_filter)
  then have nr: "\<nexists>k. refused s old_rec new_rec k" by (auto simp: refused_def filter_empty_conv)
  show thesis
  proof (cases "slot_stale sl g")
    case st: True
    then have "fm_core_update_row s i g old_rec new_rec ek scratch = Some (s, FM_ERR_DELETED, ek, scratch)"
      using same(1) sl stT lock_slot_free [OF sl] unlock_slot_restores [OF sl]
      by (simp add: fm_core_update_row_def)
    then show thesis using deleted st good_step_refl [OF inv] by blast
  next
    case st: False
    then have o: "old_rec = sl_data sl" and act: "sl_state sl = FM_SLOT_ACTIVE"
      using old by (auto simp: slot_stale_def)
    have k0: "filter (\<lambda>j. \<not> same_key (kstat s j) (sl_data sl) new_rec) [0..<sc_keys s] = []"
      using ks0 o by simp
    have nr': "\<nexists>k. refused s (sl_data sl) new_rec k" using nr o by simp
    obtain v where v: "lock_slot s i = Some (upd_slot s i ?sT)"
      "do { t \<leftarrow> fm_core_write_image (upd_slot s i ?sT) i new_rec;
         t \<leftarrow> foldM (move_key (sl_data sl) new_rec i) [] t; unlock_slot t i } = Some v"
      "core_inv v" "rows v = (rows s)(i \<mapsto> new_rec)" "kstat v = kstat s" "key_lock v = key_lock s"
      "gens v = gens s" "same_shape s v" "sc_struct_mutex v = sc_struct_mutex s" "limited s \<longrightarrow> limited v"
      by (rule commit_unlock [OF inv sl(1) act sl(2) locks_set_refl len(1) nr', unfolded k0])
    have "fm_core_update_row s i g old_rec new_rec ek scratch = Some (v, FM_ERR_OK, ek, scratch)"
      using same(1) st stT sl v(1,2) by (auto simp: fm_core_update_row_def bind_eq_Some_conv)
    moreover have "good_step s ((rows s)(i \<mapsto> new_rec)) v"
      using v inv(2) by (simp add: good_step_def quiet_def held_def)
    ultimately show thesis using ok st nr by blast
  qed
qed

lemma update_row_move:
  assumes inv: "core_inv s" "quiet s" and sl: "fm_slot s i = Some sl" "\<not> sl_wlock sl"
    and len: "length new_rec = sc_reclength s" "length scratch = sc_reclength s"
    and old: "\<not> slot_stale sl g \<Longrightarrow> old_rec = sl_data sl"
    and moved: "changed_keys s old_rec new_rec = Some ks" "ks \<noteq> []"
  obtains (ok) s' sc where
    "fm_core_update_row s i g old_rec new_rec ek scratch = Some (s', FM_ERR_OK, ek, sc)"
    "\<not> slot_stale sl g" "\<nexists>k. refused s old_rec new_rec k" "good_step s ((rows s)(i \<mapsto> new_rec)) s'" "length sc = sc_reclength s"
  | (dup) s' sc where
    "fm_core_update_row s i g old_rec new_rec ek scratch = Some (s', FM_ERR_DUP_KEY,
       map_option (\<lambda>_. int (LEAST k. refused s old_rec new_rec k) + 1) ek, sc)"
    "\<exists>k. refused s old_rec new_rec k" "good_step s (rows s) s'" "length sc = sc_reclength s"
  | (deleted) s' sc where
    "fm_core_update_row s i g old_rec new_rec ek scratch = Some (s', FM_ERR_DELETED, ek, sc)"
    "slot_stale sl g" "good_step s (rows s) s'" "length sc = sc_reclength s"
proof -
  let ?sT = "sl\<lparr> sl_wlock := True \<rparr>"
  have stT: "slot_stale (sl\<lparr> sl_wlock := True \<rparr>) g = slot_stale sl g" by (simp add: slot_stale_def)
  have ks_def: "ks = filter (\<lambda>j. \<not> same_key (kstat s j) old_rec new_rec) [0..<sc_keys s]"
    using moved(1) core_invD(2) [OF inv(1)] by (simp add: changed_keys_filter)
  have held: "held s = {}" using inv(2) by (simp add: quiet_def)
  obtain l0 ls s1 sc where p: "collect_locks s old_rec new_rec ks = Some l0" "ls = sort_locks l0"
    "sorted (map lock_code ls)" "lock_range ls" "\<forall>k b. (k, b) \<in> set ls \<longrightarrow> key_lock s k b = Some False"
    "lock_buckets ls s = Some s1" "locks_set (set ls) True s s1"
    "update_dups s1 ks new_rec scratch = Some (if \<exists>k. refused s old_rec new_rec k
       then Some (LEAST k. refused s old_rec new_rec k) else None, sc)" "length sc = sc_reclength s"
    by (rule update_prepare [OF core_invD(2,3) [OF inv(1)] held core_invD(6) [OF inv(1)] linked_rows_refl len(2),
          where old_rec = old_rec and new_rec = new_rec, folded ks_def])
  have fr: "\<And>k b. (k, b) \<in> set ls \<Longrightarrow> key_lock s k b = Some False" using p(5) by blast
  note cycle = locked_cycle [OF inv fr p(3,4,7)]
  note f = locks_set_frame [OF p(7)] and h = locks_set_inv [OF p(7)]
  have sh: "same_shape s s1" "sc_struct_mutex s1 = sc_struct_mutex s"
    using f h(4) by (simp_all add: same_shape_def scal_def)
  obtain s3 where s3: "unlock_buckets ls s1 = Some s3" "good_step s (rows s1) s3"
    by (rule cycle [of s1]) (use h inv f(10) sh in simp_all)
  have sl1: "fm_slot s1 i = Some sl" using sl(1) f(1) by simp
  note run = fm_core_update_row_def Let_def moved p(1,6,8) p(2) [symmetric]
  show thesis
  proof (cases "\<exists>k. refused s old_rec new_rec k")
    case True
    then have "fm_core_update_row s i g old_rec new_rec ek scratch = Some (s3, FM_ERR_DUP_KEY,
       map_option (\<lambda>_. int (LEAST k. refused s old_rec new_rec k) + 1) ek, sc)"
      using moved(2) s3(1) by (simp add: run)
    then show thesis using dup True s3(2) f(3) p(9) by simp
  next
    case nr: False
    show thesis
    proof (cases "slot_stale sl g")
      case True
      then have "fm_core_update_row s i g old_rec new_rec ek scratch = Some (s3, FM_ERR_DELETED, ek, sc)"
        using moved(2) s3(1) nr sl1 stT lock_slot_free [OF sl1 sl(2)] unlock_slot_restores [OF sl1 sl(2)]
        by (simp add: run)
      then show thesis using deleted True s3(2) f(3) p(9) by simp
    next
      case st: False
      then have o: "old_rec = sl_data sl" and act: "sl_state sl = FM_SLOT_ACTIVE"
        using old by (auto simp: slot_stale_def)
      have nr': "\<nexists>k. refused s (sl_data sl) new_rec k" using nr o by simp
      obtain v where v: "lock_slot s1 i = Some (upd_slot s1 i ?sT)"
        "do { t \<leftarrow> fm_core_write_image (upd_slot s1 i ?sT) i new_rec;
           t \<leftarrow> foldM (move_key old_rec new_rec i) ks t; unlock_slot t i } = Some v"
        "core_inv v" "rows v = (rows s)(i \<mapsto> new_rec)" "kstat v = kstat s" "key_lock v = key_lock s1"
        "gens v = gens s" "same_shape s v" "sc_struct_mutex v = sc_struct_mutex s" "limited s \<longrightarrow> limited v"
        unfolding ks_def o
        by (rule commit_unlock [OF inv sl(1) act sl(2) p(7) len(1) nr'])
      obtain s4 where s4: "unlock_buckets ls v = Some s4" "good_step s (rows v) s4"
        by (rule cycle [of v]) (use v in simp_all)
      have "fm_core_update_row s i g old_rec new_rec ek scratch = Some (s4, FM_ERR_OK, ek, sc)"
        using moved(2) nr sl1 stT st v(1,2) s4(1) by (auto simp: run bind_eq_Some_conv)
      then show thesis using ok st nr s4(2) v(4) p(9) by simp
    qed
  qed
qed

text \<open>The outcomes of \<^verbatim>\<open>fm_core_update_row\<close>. A duplicate is reported before the slot is looked
  at.\<close>

lemma update_row_cases:
  assumes inv: "core_inv s" "quiet s" and sl: "fm_slot s i = Some sl" "\<not> sl_wlock sl"
    and len: "length new_rec = sc_reclength s" "length scratch = sc_reclength s"
    and old: "\<not> slot_stale sl g \<Longrightarrow> old_rec = sl_data sl"
  obtains (ok) s' sc where
    "fm_core_update_row s i g old_rec new_rec ek scratch = Some (s', FM_ERR_OK, ek, sc)"
    "\<not> slot_stale sl g" "\<nexists>k. refused s old_rec new_rec k" "good_step s ((rows s)(i \<mapsto> new_rec)) s'" "length sc = sc_reclength s"
  | (dup) s' sc where
    "fm_core_update_row s i g old_rec new_rec ek scratch = Some (s', FM_ERR_DUP_KEY,
       map_option (\<lambda>_. int (LEAST k. refused s old_rec new_rec k) + 1) ek, sc)"
    "\<exists>k. refused s old_rec new_rec k" "good_step s (rows s) s'" "length sc = sc_reclength s"
  | (deleted) s' sc where
    "fm_core_update_row s i g old_rec new_rec ek scratch = Some (s', FM_ERR_DELETED, ek, sc)"
    "slot_stale sl g" "good_step s (rows s) s'" "length sc = sc_reclength s"
proof -
  obtain ks where ch: "changed_keys s old_rec new_rec = Some ks"
    using core_invD(2) [OF inv(1)] by (simp add: changed_keys_filter)
  show thesis
  proof (cases "ks = []")
    case True
    with ch have same: "changed_keys s old_rec new_rec = Some []" by simp
    show thesis
    proof (cases rule: update_plain_cases [OF inv sl len(1) _ same, where ek = ek and scratch = scratch and g = g])
      case 1
      then show ?case by (rule old)
    next
      case 2
      then show thesis using ok len(2) by blast
    next
      case 3
      then show thesis using deleted good_step_refl [OF inv] len(2) by blast
    qed
  next
    case False
    show thesis 
      by (rule update_row_move [OF inv sl len _ ch False, where ek = ek and g = g]) (erule old, (fact ok dup deleted)+)
  qed
qed

end
