(* ===== verification/FM_Delete.thy ===== *)
theory FM_Delete
  imports FM_Insert FM_Update
begin

text \<open>
  \<^verbatim>\<open>fm_core_delete_row\<close>, \<^verbatim>\<open>fm_core_delete_row_locked\<close> and their correctness: the row leaves
  every chain, the generation of its slot is increased, and the slot is recycled.
\<close>

section \<open>The operations\<close>

definition delete_key :: "image \<Rightarrow> fm_i32 \<Rightarrow> nat \<Rightarrow> FM_SHARE_CORE \<Rightarrow> FM_SHARE_CORE option" where
  "delete_key rec idx k s = do {
     kc \<leftarrow> get_key s k;
     b \<leftarrow> fm_core_key_bucket kc rec;
     s \<leftarrow> lock_bucket s k b;
     (s, rc) \<leftarrow> fm_core_chain_unlink s k b idx;
     unlock_bucket s k b }"

text \<open>The code after the slot has been flipped to DELETING, the same in both operations:
  unlink, flip to DELETED, recycle.\<close>

definition delete_frozen ::
  "FM_SHARE_CORE \<Rightarrow> fm_i32 \<Rightarrow> image \<Rightarrow> (FM_SHARE_CORE \<times> fm_err \<times> image) option" where
  "delete_frozen s idx scratch = do {
     sl \<leftarrow> fm_slot s idx;
     let scratch = memcpy scratch (sl_data sl) (sc_reclength s);
     s \<leftarrow> foldM (delete_key scratch idx) [0..<sc_keys s] s;
     sl \<leftarrow> fm_slot s idx;
     let s1 = upd_slot s idx (sl\<lparr> sl_state := FM_SLOT_DELETED, sl_gen := sl_gen sl + 1 \<rparr>);
     let s2 = s1\<lparr> sc_records := sc_records s1 - 1 \<rparr>;
     s3 \<leftarrow> lock_struct s2;
     s4 \<leftarrow> fm_core_free_slot s3 idx;
     Some (unlock_struct s4, FM_ERR_OK, scratch) }"

definition fm_core_delete_row ::
  "FM_SHARE_CORE \<Rightarrow> fm_i32 \<Rightarrow> fm_u32 \<Rightarrow> image \<Rightarrow> (FM_SHARE_CORE \<times> fm_err \<times> image) option" where
  "fm_core_delete_row s idx expect_gen scratch = do {
     s \<leftarrow> lock_slot s idx;
     sl \<leftarrow> fm_slot s idx;
     if slot_stale sl expect_gen then do {
       s \<leftarrow> unlock_slot s idx;
       Some (s, FM_ERR_DELETED, scratch) }
     else do {
       s \<leftarrow> unlock_slot (upd_slot s idx (sl\<lparr> sl_state := FM_SLOT_DELETING \<rparr>)) idx;
       delete_frozen s idx scratch } }"

definition fm_core_delete_row_locked ::
  "FM_SHARE_CORE \<Rightarrow> fm_i32 \<Rightarrow> fm_u32 \<Rightarrow> image \<Rightarrow> (FM_SHARE_CORE \<times> fm_err \<times> image) option" where
  "fm_core_delete_row_locked s idx expect_gen scratch = do {
     sl \<leftarrow> fm_slot s idx;
     if slot_stale sl expect_gen then Some (s, FM_ERR_DELETED, scratch)
     else delete_frozen (upd_slot s idx (sl\<lparr> sl_state := FM_SLOT_DELETING \<rparr>)) idx scratch }"

section \<open>Unlinking from every key\<close>

lemma delete_key_correct:
  assumes K: "key_ok (kstat s k)" and C: "key_chains s k R" and R: "R i = Some r"
    and free: "key_lock s k (bkt (kstat s k) r) = Some False"
  obtains s' where "delete_key r i k s = Some s'" "chain_step k s s'" "key_chains s' k (R(i := None))"
proof -
  from K obtain kc where kc: "get_key s k = Some kc"
    "\<And>r. fm_core_key_bucket kc r = Some (bkt (kstat s k) r)" by (rule key_callE) blast
  let ?b = "bkt (kstat s k) r"
  obtain t where t: "do { s \<leftarrow> lock_bucket s k ?b;
      (s, e) \<leftarrow> fm_core_chain_unlink s k ?b i; unlock_bucket s k ?b } = Some t"
    "chain_step k s t" "key_chains t k (R(i := None))"
    by (rule unlink_locked [OF C R refl bkt_less [OF K] free])
  show thesis by (rule that [OF _ t(2,3)]) (use kc t(1) in \<open>simp add: delete_key_def\<close>)
qed

lemma delete_keys_correct:
  assumes R: "R i = Some r"
    and ok: "\<And>k. k < n \<Longrightarrow> key_ok (kstat s k) \<and> key_chains s k R \<and>
      key_lock s k (bkt (kstat s k) r) = Some False"
  obtains s' where "foldM (delete_key r i) [0..<n] s = Some s'" "links_step s s'"
    "\<forall>k < n. key_chains s' k (R(i := None))"
proof -
  let ?P = "\<lambda>m t. links_step s t \<and> (\<forall>k < n. key_chains t k (if k < m then R(i := None) else R))"
  have "\<exists>t. foldM (delete_key r i) [0..<n] s = Some t \<and> ?P n t"
  proof (rule foldM_upt [where P = ?P])
    show "?P 0 s" using ok by simp
  next
    fix m t assume m: "m < n" and P: "?P m t"
    note f = links_step_frame [of s t]
    have "key_chains t m (if m < m then R(i := None) else R)" using P m by blast
    then have C: "key_chains t m R" by simp
    obtain u where u: "delete_key r i m t = Some u" "chain_step m t u" "key_chains u m (R(i := None))"
      by (rule delete_key_correct [OF _ C R]) (use ok [OF m] P f in auto)
    have "key_chains u k (if k < Suc m then R(i := None) else R)" if "k < n" for k
    proof (cases "k = m")
      case True
      with u(3) show ?thesis by simp
    next
      case False
      have "key_chains t k (if k < m then R(i := None) else R)" using P that by blast
      then have "key_chains u k (if k < m then R(i := None) else R)"
        using chain_step_chains [OF u(2) False] by simp
      moreover have "(k < Suc m) = (k < m)" using False by auto
      ultimately show ?thesis by simp
    qed
    then show "\<exists>u. delete_key r i m t = Some u \<and> ?P (Suc m) u"
      using u(1) P links_step_trans [OF _ chain_links [OF u(2)]] by blast
  qed
  then show thesis using that by auto
qed

section \<open>Recycling the slot\<close>

text \<open>Between DELETING and the recycling the slot is a hole of the table.\<close>

lemma deleted_hole:
  assumes inv: "core_inv s" and sl: "fm_slot s i = Some sl" "sl_state sl = FM_SLOT_ACTIVE"
    and st: "links_step (upd_slot s i sl1) u" and s1: "sl_free_next sl1 = sl_free_next sl"
    and ch: "\<forall>k < sc_keys s. key_chains u k ((rows s)(i := None))"
    and s2: "sl_state sl2 = FM_SLOT_DELETED" "sl_free_next sl2 = sl_free_next sl"
      "sl_seq sl2 = sl_seq sl" "sl_data sl2 = sl_data sl"
  defines "w \<equiv> (upd_slot u i sl2)\<lparr> sc_records := sc_records u - 1 \<rparr>"
  shows "core_hole w i" "rows w = (rows s)(i := None)" "limited s \<Longrightarrow> limited w \<and> i < int (sc_max_records s)"
    "gens w = (gens s)(i \<mapsto> sl_gen sl2)" "kstat w = kstat s" "held w = held s"
    "sl_wlock sl2 = sl_wlock sl \<Longrightarrow> wlocked w = wlocked s"
proof -
  note D = core_invD [OF inv]
  let ?t = "upd_slot s i sl1" and ?v = "upd_slot u i sl2"
  note f = links_step_frame [OF st]
  note a = slot_write [OF sl(1) s1]
  have su: "fm_slot u i = Some sl1" using f(14) sl(1) by simp
  have fn: "sl_free_next sl2 = sl_free_next sl1" using s1 s2(2) by simp
  note b = slot_write [OF su fn]
  have slots: "fm_slot w j = (if j = i then Some sl2 else fm_slot s j)" for j
    using su f(14) by (simp add: w_def)
  show r: "rows w = (rows s)(i := None)" using s2(1) by (auto simp: rows_def slots fun_eq_iff)
  show "gens w = (gens s)(i \<mapsto> sl_gen sl2)" by (auto simp: gens_def slots fun_eq_iff)
  show "wlocked w = wlocked s" if "sl_wlock sl2 = sl_wlock sl"
    using that sl(1) by (auto simp: wlocked_def slots split: if_splits)
  have ks0: "kstat ?t = kstat s" "kstat ?v = kstat u" by (auto simp: fun_eq_iff)
  show ks: "kstat w = kstat s" using ks0 f(9) by (auto simp: w_def fun_eq_iff)
  show "held w = held s" using a(7) b(7) f(2) by (simp add: w_def held_def)
  have keys: "sc_keys w = sc_keys s" "sc_max_records w = sc_max_records s" "sc_reclength w = sc_reclength s"
    "sc_records w = sc_records s - 1" "sc_chunk_cnt w = sc_chunk_cnt s"
    using f(10,11,13,16) st by (simp_all add: w_def links_step_def scal_def)
  have "slot_ok s sl" using D(3) sl(1) by (simp add: slots_ok_def)
  then have "slot_ok w sl2" using s2 keys(3) by (simp add: slot_ok_def)
  then have ok: "slots_ok w" using D(3) keys(3) by (auto simp: slots_ok_def slots slot_ok_def)
  have "sizes_ok ?v" "keys_ok ?v" using a(1,2) b(1,2) f(4,6) D(1,2) by simp_all
  then have sz: "sizes_ok w" "keys_ok w" by (simp_all add: w_def sizes_ok_def keys_ok_def)
  have kc: "key_chains w k (rows w) \<and> unique_rows (kstat w k) (rows w)" if "k < sc_keys w" for k
  proof
    have "key_chains ?v k (rows w)" using ch that b(3) r keys(1) by simp
    then show "key_chains w k (rows w)" by (subst key_chains_cong [of w k ?v]) (simp_all add: w_def)
    show "unique_rows (kstat w k) (rows w)"
      unfolding r ks using D(7) that keys(1) by (intro unique_rows_remove) simp
  qed
  have act: "rows s i \<noteq> None" using sl by (simp add: rows_def)
  obtain xs where xs: "free_list s xs" "covers s (set xs)" using inv by (auto simp: core_inv_def)
  then have ni: "i \<notin> set xs" using act by (auto simp: free_list_def)
  have fnx: "free_next w = free_next s" using sl(1) s2(2) by (auto simp: free_next_def slots fun_eq_iff)
  have fh: "sc_free_head w = sc_free_head s" using st by (simp add: w_def links_step_def scal_def)
  have fl: "free_list w xs" using xs(1) by (auto simp: free_list_def fnx fh r)
  have cv: "covers w (insert i (set xs))" using xs(2) unfolding covers_def keys r by auto
  have "card (dom (rows s)) = Suc (card (dom (rows w)))"
  proof -
    have "dom (rows w) = dom (rows s) - {i}" unfolding r by auto
    then show ?thesis
      using card.remove [OF finite_rows [OF D(1)], of i] act by (simp add: domIff)
  qed
  then have rec: "sc_records w = int (card (dom (rows w)))" using D(4) keys(4) by simp
  show "core_hole w i"
    unfolding core_hole_def using sz ok kc fl ni cv rec by (auto simp: slots r)
  show "limited w \<and> i < int (sc_max_records s)" if "limited s"
  proof -
    from that obtain zs where zs: "free_list s zs"
      "\<forall>j \<in> set zs \<union> dom (rows s). j < int (sc_max_records s)" by (auto simp: limited_def)
    then have "zs = xs" using xs(1) by (auto simp: free_list_def dest: linked_unique)
    then show ?thesis using zs fl act unfolding limited_def keys r by auto
  qed
qed

section \<open>The whole operations\<close>

text \<open>The table after a row has left it.\<close>

definition removed :: "FM_SHARE_CORE \<Rightarrow> fm_i32 \<Rightarrow> FM_SLOT \<Rightarrow> FM_SHARE_CORE \<Rightarrow> bool" where
  "removed s i sl s' = (core_inv s' \<and> quiet s' \<and> rows s' = (rows s)(i := None) \<and> same_shape s s' \<and>
     gens s' = (gens s)(i \<mapsto> sl_gen sl + 1) \<and> (limited s \<longrightarrow> limited s'))"

lemma removed_records:
  assumes inv: "core_inv s" and r: "rows s i \<noteq> None" and rm: "removed s i sl s'"
  shows "sc_records s' = sc_records s - 1"
proof -
  have f: "finite (dom (rows s))" by (rule finite_rows [OF core_invD(1) [OF inv]])
  have i: "i \<in> dom (rows s)" using r by auto
  from f i have "card (dom (rows s)) > 0" by (auto simp: card_gt_0_iff)
  then show ?thesis
    using f i rm core_invD(4) [OF inv] core_invD(4) [of s'] by (auto simp: removed_def)
qed

lemma delete_frozen_correct:
  assumes inv: "core_inv s" "quiet s" and sl: "fm_slot s i = Some sl" "sl_state sl = FM_SLOT_ACTIVE"
    and len: "length scratch = sc_reclength s"
  obtains s' where "delete_frozen (upd_slot s i (sl\<lparr> sl_state := FM_SLOT_DELETING \<rparr>)) i scratch =
      Some (s', FM_ERR_OK, sl_data sl)" "removed s i sl s'"
proof -
  note D = core_invD [OF inv(1)]
  let ?sl1 = "sl\<lparr> sl_state := FM_SLOT_DELETING \<rparr>" and ?r = "sl_data sl"
  let ?sl2 = "sl\<lparr> sl_state := FM_SLOT_DELETED, sl_gen := sl_gen sl + 1 \<rparr>"
  define t where "t = upd_slot s i ?sl1"
  have ri: "rows s i = Some ?r" using sl by (simp add: rows_def)
  have lr: "length ?r = sc_reclength s" using row_length [OF D(3) ri] .
  note a = slot_write [OF sl(1), of ?sl1, folded t_def]
  have pre: "key_ok (kstat t k) \<and> key_chains t k (rows s) \<and> key_lock t k (bkt (kstat t k) ?r) = Some False"
    if "k < sc_keys s" for k
    using D(5,6) [OF that] a(3) quiet_unlocked [OF inv that] bkt_less [OF D(5) [OF that]]
    by (simp add: t_def)
  obtain u where u: "foldM (delete_key ?r i) [0..<sc_keys s] t = Some u" "links_step t u"
    "\<forall>k < sc_keys s. key_chains u k ((rows s)(i := None))"
    by (rule delete_keys_correct [OF ri pre])
  note f = links_step_frame [OF u(2)]
  have su: "fm_slot u i = Some ?sl1" using f(14) sl(1) by (simp add: t_def)
  define w where "w = (upd_slot u i ?sl2)\<lparr> sc_records := sc_records u - 1 \<rparr>"
  note W = deleted_hole [OF inv(1) sl u(2) [unfolded t_def] _ u(3), of ?sl2, folded w_def, simplified]
  let ?m = "w\<lparr> sc_struct_mutex := True \<rparr>"
  have mx: "\<not> sc_struct_mutex w" using inv(2) f(12) by (simp add: w_def t_def quiet_def)
  have hole: "core_hole ?m i" using W(1) by simp
  have p0: "part_linked ?m ?r i 0 ?m" using core_holeD(8) [OF hole] by (simp add: part_linked_def)
  obtain v where v: "fm_core_free_slot ?m i = Some v" "core_inv v" "same_table ?m v" "gens v = gens ?m"
    "limited ?m \<and> i < int (sc_max_records ?m) \<longrightarrow> limited v"
    by (rule hole_free [OF hole p0])
  have gm: "gens ?m = gens w" "gens (unlock_struct v) = gens v"
    by (rule gens_cong, simp add: fun_eq_iff unlock_struct_def)+
  have eq: "sc_keys w = sc_keys s" "sc_reclength w = sc_reclength s" "sc_max_records w = sc_max_records s"
    using f(10,13,16) by (simp_all add: w_def t_def)
  have "lasting w = lasting s" using links_step_lasting [OF u(2)] by (simp add: w_def t_def)
  then have "same_shape s w" using W(5,7) eq by (simp add: same_shape_def)
  then have sh: "same_shape s (unlock_struct v)"
    using same_shape_trans [OF _ same_table_shape [OF v(3)]] by (simp add: unlock_struct_def)
  have "quiet (unlock_struct v)" "rows (unlock_struct v) = (rows s)(i := None)"
    using v(3) W(2,6) inv(2) by (simp_all add: same_table_def quiet_def unlock_struct_def spin_unlock_def)
  then have "removed s i sl (unlock_struct v)"
    using v(2,4,5) gm W(3,4) sh eq(3) by (simp add: removed_def) (simp add: unlock_struct_def)
  moreover have "delete_frozen t i scratch = Some (unlock_struct v, FM_ERR_OK, ?r)"
  proof -
    have m: "memcpy scratch ?r (sc_reclength s) = ?r" using lr len by simp
    have lk: "lock_struct w = Some ?m" using mx by (simp add: lock_struct_def spin_lock_def)
    have "sc_records (upd_slot u i ?sl2) = sc_records u" by simp
    then show ?thesis
      using u(1) su sl(1) m lk v(1) unfolding delete_frozen_def
      by (simp add: t_def w_def [symmetric] Let_def)
  qed
  ultimately show thesis using that by (simp add: t_def)
qed

lemma delete_locked_cases:
  assumes inv: "core_inv s" "quiet s" and sl: "fm_slot s i = Some sl" and len: "length scratch = sc_reclength s"
  obtains (ok) s' where "fm_core_delete_row_locked s i g scratch = Some (s', FM_ERR_OK, sl_data sl)"
    "\<not> slot_stale sl g" "removed s i sl s'"
  | (deleted) "fm_core_delete_row_locked s i g scratch = Some (s, FM_ERR_DELETED, scratch)" "slot_stale sl g"
proof (cases "slot_stale sl g")
  case True
  then show thesis using deleted sl by (simp add: fm_core_delete_row_locked_def)
next
  case False
  then have "sl_state sl = FM_SLOT_ACTIVE" by (simp add: slot_stale_def)
  from delete_frozen_correct [OF inv sl this len] obtain s' where
    "delete_frozen (upd_slot s i (sl\<lparr> sl_state := FM_SLOT_DELETING \<rparr>)) i scratch =
      Some (s', FM_ERR_OK, sl_data sl)" "removed s i sl s'" .
  then show thesis using ok False sl by (simp add: fm_core_delete_row_locked_def)
qed

lemma delete_row_cases:
  assumes inv: "core_inv s" "quiet s" and sl: "fm_slot s i = Some sl" "\<not> sl_wlock sl"
    and len: "length scratch = sc_reclength s"
  obtains (ok) s' where "fm_core_delete_row s i g scratch = Some (s', FM_ERR_OK, sl_data sl)"
    "\<not> slot_stale sl g" "removed s i sl s'"
  | (deleted) "fm_core_delete_row s i g scratch = Some (s, FM_ERR_DELETED, scratch)" "slot_stale sl g"
proof -
  let ?sT = "sl\<lparr> sl_wlock := True \<rparr>"
  have stT: "slot_stale ?sT g = slot_stale sl g" by (simp add: slot_stale_def)
  note lk = lock_slot_free [OF sl]
  show thesis
  proof (cases "slot_stale sl g")
    case True
    then show thesis using deleted sl stT lk unlock_slot_restores [OF sl]
      by (simp add: fm_core_delete_row_def)
  next
    case False
    then have "sl_state sl = FM_SLOT_ACTIVE" by (simp add: slot_stale_def)
    from delete_frozen_correct [OF inv sl(1) this len] obtain s' where s':
      "delete_frozen (upd_slot s i (sl\<lparr> sl_state := FM_SLOT_DELETING \<rparr>)) i scratch =
        Some (s', FM_ERR_OK, sl_data sl)" "removed s i sl s'" .
    have "sl\<lparr> sl_state := FM_SLOT_DELETING, sl_wlock := False \<rparr> = sl\<lparr> sl_state := FM_SLOT_DELETING \<rparr>"
      using sl(2) by (cases sl) simp
    then have "unlock_slot (upd_slot s i (?sT\<lparr> sl_state := FM_SLOT_DELETING \<rparr>)) i =
        Some (upd_slot s i (sl\<lparr> sl_state := FM_SLOT_DELETING \<rparr>))"
      using sl(1) by (simp add: unlock_slot_run)
    then show thesis using ok False sl stT lk s' by (simp add: fm_core_delete_row_def)
  qed
qed

end
