(* ===== verification/FM_Clear.thy ===== *)
theory FM_Clear
  imports FM_Delete
begin

text \<open>
  \<^verbatim>\<open>fm_core_clear\<close> (DELETE FROM without a condition, TRUNCATE): the chains are cut, every slot
  is freed under a new generation, and the free list is built anew.
\<close>

section \<open>The operation\<close>

definition clear_bucket :: "nat \<Rightarrow> nat \<Rightarrow> FM_SHARE_CORE \<Rightarrow> FM_SHARE_CORE option" where
  "clear_bucket k b s = do {
     s \<leftarrow> lock_bucket s k b;
     h \<leftarrow> key_head s k b;
     unlock_bucket (upd_head s k b FM_NULL_SLOT) k b }"

definition clear_key :: "nat \<Rightarrow> FM_SHARE_CORE \<Rightarrow> FM_SHARE_CORE option" where
  "clear_key k s = do {
     kc \<leftarrow> get_key s k;
     foldM (clear_bucket k) [0..<unat (kc_nbuckets kc)] s }"

definition clear_slot :: "nat \<Rightarrow> FM_SHARE_CORE \<Rightarrow> FM_SHARE_CORE option" where
  "clear_slot i s = do {
     s \<leftarrow> lock_slot s (fm_i32_of i);
     sl \<leftarrow> fm_slot s (fm_i32_of i);
     unlock_slot (upd_slot s (fm_i32_of i)
       (sl\<lparr> sl_state := FM_SLOT_FREE, sl_gen := sl_gen sl + 1 \<rparr>)) (fm_i32_of i) }"

definition clear_push :: "nat \<Rightarrow> FM_SHARE_CORE \<Rightarrow> FM_SHARE_CORE option" where
  "clear_push i s = do {
     sl \<leftarrow> fm_slot s (fm_i32_of i);
     Some ((upd_free_next s (fm_i32_of i) (sc_free_head s))\<lparr> sc_free_head := fm_i32_of i \<rparr>) }"

definition fm_core_clear :: "FM_SHARE_CORE \<Rightarrow> FM_SHARE_CORE option" where
  "fm_core_clear s = do {
     s \<leftarrow> lock_struct s;
     s \<leftarrow> foldM clear_key [0..<sc_keys s] s;
     let total = u32 (sc_chunk_cnt s * FM_CHUNK_SIZE);
     s \<leftarrow> foldM clear_slot [0..<total] s;
     s \<leftarrow> foldM clear_push [0..<total] (s\<lparr> sc_free_head := FM_NULL_SLOT \<rparr>);
     Some (unlock_struct (s\<lparr> sc_records := 0 \<rparr>)) }"

section \<open>Cutting the chains\<close>

lemma clear_bucket_run:
  assumes "key_lock s k b = Some False" "key_head s k b \<noteq> None"
  obtains u where "clear_bucket k b s = Some u" "links_step s u"
    "\<forall>j c. key_head u j c = (if j = k \<and> c = b then Some FM_NULL_SLOT else key_head s j c)"
proof -
  let ?t = "upd_lock s k b True"
  let ?v = "upd_head ?t k b FM_NULL_SLOT"
  note L = lock_sandwich [OF assms(1) chain_step_upd(1) [of k ?t b FM_NULL_SLOT]]
  have "clear_bucket k b s = Some (upd_lock ?v k b False)"
    using assms L(2) by (auto simp: clear_bucket_def lock_bucket_free)
  moreover have "\<forall>j c. key_head (upd_lock ?v k b False) j c =
      (if j = k \<and> c = b then Some FM_NULL_SLOT else key_head s j c)"
    using assms(2) by simp
  ultimately show thesis using chain_links [OF L(1)] that by blast
qed

definition heads_cut :: "FM_SHARE_CORE \<Rightarrow> nat \<Rightarrow> nat \<Rightarrow> FM_SHARE_CORE \<Rightarrow> bool" where
  "heads_cut s k b t = (links_step s t \<and> (\<forall>j c. key_head t j c =
     (if j < k \<and> c < nbk (kstat s j) \<or> j = k \<and> c < b then Some FM_NULL_SLOT else key_head s j c)))"

lemma clear_key_run:
  assumes inv: "core_inv s" "held s = {}" and k: "k < sc_keys s" and t: "heads_cut s k 0 t"
  obtains u where "clear_key k t = Some u" "heads_cut s (Suc k) 0 u"
proof -
  note D = core_invD [OF inv(1)]
  have ls: "links_step s t" using t by (simp add: heads_cut_def)
  note f = links_step_frame [OF ls]
  have K: "key_ok (kstat t k)" using D(5) [OF k] f(9) by simp
  then obtain kc where kc: "get_key t k = Some kc" by (rule key_callE)
  have n: "unat (kc_nbuckets kc) = nbk (kstat s k)"
    using kc f(9) by (metis (no_types, lifting) kstat_def nbk_def option.simps(5,9) prod.simps(2))
  have "\<exists>u. foldM (clear_bucket k) [0..<nbk (kstat s k)] t = Some u \<and> heads_cut s k (nbk (kstat s k)) u"
  proof (rule foldM_upt [where P = "heads_cut s k"])
    show "heads_cut s k 0 t" by (rule t)
  next
    fix b v assume b: "b < nbk (kstat s k)" and v: "heads_cut s k b v"
    have lv: "links_step s v" using v by (simp add: heads_cut_def)
    have hd0: "key_head s k b \<noteq> None" "key_lock s k b \<noteq> None"
      using D(2) k b by (auto simp: keys_ok_def)
    have free: "key_lock v k b = Some False"
      using hd0(2) inv(2) links_step_frame(15) [OF lv] by (simp add: not_held)
    have hv: "key_head v k b \<noteq> None" using v hd0(1) by (simp add: heads_cut_def)
    obtain u where u: "clear_bucket k b v = Some u" "links_step v u"
      "\<forall>j c. key_head u j c = (if j = k \<and> c = b then Some FM_NULL_SLOT else key_head v j c)"
      by (rule clear_bucket_run [OF free hv])
    have "heads_cut s k (Suc b) u"
      using v u(3) links_step_trans [OF lv u(2)] by (auto simp: heads_cut_def less_Suc_eq)
    with u(1) show "\<exists>u. clear_bucket k b v = Some u \<and> heads_cut s k (Suc b) u" by blast
  qed
  then obtain u where u: "foldM (clear_bucket k) [0..<nbk (kstat s k)] t = Some u"
    "heads_cut s k (nbk (kstat s k)) u" by blast
  have "heads_cut s (Suc k) 0 u" using u(2) by (auto simp: heads_cut_def less_Suc_eq)
  with u(1) show thesis using that kc n by (simp add: clear_key_def)
qed

lemma clear_keys_run:
  assumes inv: "core_inv s" "held s = {}"
  obtains u where "foldM clear_key [0..<sc_keys s] s = Some u" "links_step s u"
    "\<forall>k < sc_keys s. key_chains u k Map.empty"
proof -
  have "\<exists>u. foldM clear_key [0..<sc_keys s] s = Some u \<and> heads_cut s (sc_keys s) 0 u"
  proof (rule foldM_upt [where P = "\<lambda>k. heads_cut s k 0"])
    show "heads_cut s 0 0 s" by (simp add: heads_cut_def)
  next
    fix k t assume "k < sc_keys s" "heads_cut s k 0 t"
    then show "\<exists>u. clear_key k t = Some u \<and> heads_cut s (Suc k) 0 u"
      by (rule clear_key_run [OF inv]) blast
  qed
  then obtain u where u: "foldM clear_key [0..<sc_keys s] s = Some u" "heads_cut s (sc_keys s) 0 u" by blast
  then have ls: "links_step s u" by (simp add: heads_cut_def)
  have "key_chains u k Map.empty" if "k < sc_keys s" for k
    using u(2) that unfolding key_chains_def heads_cut_def by (auto simp: links_step_def intro!: exI [of _ "[]"])
  with u(1) ls show thesis using that by blast
qed

section \<open>Freeing the slots\<close>

abbreviation cleared :: "FM_SLOT \<Rightarrow> FM_SLOT" where
  "cleared sl \<equiv> sl\<lparr> sl_state := FM_SLOT_FREE, sl_gen := sl_gen sl + 1 \<rparr>"

definition slots_cut :: "FM_SHARE_CORE \<Rightarrow> nat \<Rightarrow> FM_SHARE_CORE \<Rightarrow> bool" where
  "slots_cut s n t = (scal t = scal s \<and> (sc_chunks t = None) = (sc_chunks s = None) \<and>
     sc_keydef t = sc_keydef s \<and> fm_key_next t = fm_key_next s \<and>
     (\<forall>j. fm_slot t j = (if 0 \<le> j \<and> j < int n then map_option cleared (fm_slot s j) else fm_slot s j)))"

lemma clear_slot_run:
  assumes t: "slots_cut s n t" and sl: "fm_slot s (int n) = Some sl" "\<not> sl_wlock sl" and n: "n < 2 ^ 31"
  obtains u where "clear_slot n t = Some u" "slots_cut s (Suc n) u"
proof -
  have st: "fm_slot t (int n) = Some sl" using t sl(1) by (simp add: slots_cut_def)
  let ?u = "upd_slot t (int n) (cleared sl)"
  have e: "sl\<lparr> sl_wlock := False \<rparr> = sl" using sl(2) by (cases sl) simp
  have "(cleared (sl\<lparr> sl_wlock := True \<rparr>))\<lparr> sl_wlock := False \<rparr> = cleared (sl\<lparr> sl_wlock := False \<rparr>)"
    by simp
  then have "clear_slot n t = Some ?u"
    using st n lock_slot_free [OF st sl(2)] e by (simp add: clear_slot_def unlock_slot_run)
  moreover have "slots_cut s (Suc n) ?u"
    using t st sl(1) by (auto simp: slots_cut_def scal_def fun_eq_iff)
  ultimately show thesis by (rule that)
qed

lemma clear_slots_run:
  assumes free: "\<And>i. i < n \<Longrightarrow> \<exists>sl. fm_slot s (int i) = Some sl \<and> \<not> sl_wlock sl" and n: "n < 2 ^ 31"
  obtains u where "foldM clear_slot [0..<n] s = Some u" "slots_cut s n u"
proof -
  have "\<exists>u. foldM clear_slot [0..<n] s = Some u \<and> slots_cut s n u"
  proof (rule foldM_upt [where P = "slots_cut s"])
    show "slots_cut s 0 s" by (auto simp: slots_cut_def)
  next
    fix i t assume i: "i < n" and t: "slots_cut s i t"
    obtain sl where "fm_slot s (int i) = Some sl" "\<not> sl_wlock sl" using free [OF i] by blast
    with t show "\<exists>u. clear_slot i t = Some u \<and> slots_cut s (Suc i) u"
      by (rule clear_slot_run) (use i n in auto)
  qed
  with that show thesis by blast
qed

lemma clear_push_run:
  assumes fl: "free_list s []" and ex: "\<And>i. i < n \<Longrightarrow> fm_slot s (int i) \<noteq> None \<and> rows s (int i) = None"
    and n: "n < 2 ^ 31"
  obtains u where "foldM clear_push [0..<n] s = Some u" "free_step s u" "free_list u (map int (rev [0..<n]))"
proof -
  let ?P = "\<lambda>m t. free_step s t \<and> free_list t (map int (rev [0..<m]))"
  have "\<exists>u. foldM clear_push [0..<n] s = Some u \<and> ?P n u"
  proof (rule foldM_upt [where P = ?P])
    show "?P 0 s" using fl by simp
  next
    fix i t assume i: "i < n" and t: "?P i t"
    have sl: "fm_slot t (int i) \<noteq> None" "rows t (int i) = None"
      using ex [OF i] t free_step_slot(1) [of s t] free_step_frame(1) [of s t] by auto
    let ?u = "(upd_free_next t (int i) (sc_free_head t))\<lparr> sc_free_head := int i \<rparr>"
    have fu: "free_list ?u (int i # map int (rev [0..<i]))"
      using t sl by (intro free_list_push) auto
    have fi: "fm_i32_of i = int i" using i n by simp
    have "clear_push i t = Some ?u" using sl(1) by (auto simp: clear_push_def fi)
    moreover have "free_step s ?u" using t free_step_push [OF sl(1)] free_step_trans by blast
    ultimately show "\<exists>u. clear_push i t = Some u \<and> ?P (Suc i) u" using fu by simp
  qed
  with that show thesis by blast
qed

section \<open>The whole operation\<close>

lemma slots_cut_frame:
  assumes S: "sizes_ok s" and c: "slots_cut s (sc_chunk_cnt s * FM_CHUNK_SIZE) t"
  shows "fm_slot t j = map_option cleared (fm_slot s j)" "rows t = Map.empty" "sizes_ok t"
    "keys_ok t = keys_ok s" "slots_ok s \<Longrightarrow> slots_ok t" "key_chains t k R = key_chains s k R"
    "kstat t = kstat s" "held t = held s" "wlocked t = wlocked s"
    "gens t = map_option (\<lambda>g. g + 1) \<circ> gens s"
proof -
  have sl: "fm_slot t j = map_option cleared (fm_slot s j)" for j
    using c slot_exists [OF S, of j] unfolding slots_cut_def by (cases "fm_slot s j") auto
  then show "fm_slot t j = map_option cleared (fm_slot s j)" .
  show "rows t = Map.empty" by (auto simp: rows_def sl fun_eq_iff split: option.splits)
  have f: "scal t = scal s" "(sc_chunks t = None) = (sc_chunks s = None)" "sc_keydef t = sc_keydef s"
    "fm_key_next t = fm_key_next s" using c by (simp_all add: slots_cut_def)
  have gk: "get_key t = get_key s" using f(3) by (auto simp: get_key_def fun_eq_iff)
  show ks: "kstat t = kstat s" by (simp add: kstat_def gk fun_eq_iff)
  have kh: "key_head t = key_head s" "key_lock t = key_lock s"
    by (simp_all add: key_head_def key_lock_def gk fun_eq_iff)
  show "key_chains t k R = key_chains s k R" by (rule key_chains_cong) (simp_all add: ks kh f(4))
  have "(fm_slot t j \<noteq> None) = (fm_slot s j \<noteq> None)" for j by (simp add: sl)
  then show "sizes_ok t" using S f unfolding sizes_ok_def scal_def by (simp del: not_None_eq)
  show "keys_ok t = keys_ok s" "held t = held s" using f(1) by (simp_all add: keys_ok_def held_def ks kh scal_def)
  show "slots_ok s \<Longrightarrow> slots_ok t" using f(1) by (auto simp: slots_ok_def slot_ok_def sl scal_def)
  show "wlocked t = wlocked s" by (auto simp: wlocked_def sl)
  show "gens t = map_option (\<lambda>g. g + 1) \<circ> gens s" by (simp add: gens_def sl fun_eq_iff option.map_comp comp_def)
qed

text \<open>The three loops one after the other.\<close>

lemma clear_run:
  assumes inv: "core_inv s" "quiet s" and wl: "wlocked s = {}"
  obtains u v w where "links_step (s\<lparr> sc_struct_mutex := True \<rparr>) u" "\<forall>k < sc_keys s. key_chains u k Map.empty"
    "slots_cut u (sc_chunk_cnt s * FM_CHUNK_SIZE) v" "sc_chunk_cnt u = sc_chunk_cnt s" "sizes_ok u"
    "free_step (v\<lparr> sc_free_head := FM_NULL_SLOT \<rparr>) w" "free_list w (map int (rev [0..<sc_chunk_cnt s * FM_CHUNK_SIZE]))"
    "fm_core_clear s = Some (unlock_struct (w\<lparr> sc_records := 0 \<rparr>))"
proof -
  let ?n = "sc_chunk_cnt s * FM_CHUNK_SIZE"
  let ?b = "s\<lparr> sc_struct_mutex := True \<rparr>"
  have lk: "lock_struct s = Some ?b" using inv(2) by (simp add: lock_struct_def spin_lock_def quiet_def)
  have ib: "core_inv ?b" "held ?b = {}" using inv by (simp_all add: quiet_def)
  note D = core_invD [OF inv(1)] and B = core_invD [OF ib(1)]
  have n: "?n < 2 ^ 31" "u32 ?n = ?n" using sizes_bound(1) [OF D(1)] by simp_all
  obtain u where u: "foldM clear_key [0..<sc_keys ?b] ?b = Some u" "links_step ?b u"
    "\<forall>k < sc_keys ?b. key_chains u k Map.empty" by (rule clear_keys_run [OF ib])
  note f = links_step_frame [OF u(2)]
  have cu: "sc_chunk_cnt u = sc_chunk_cnt s" using u(2) by (simp add: links_step_def scal_def)
  have Su: "sizes_ok u" using f(4) B(1) by simp
  have "\<exists>sl. fm_slot u (int i) = Some sl \<and> \<not> sl_wlock sl" if "i < ?n" for i
  proof -
    have "fm_slot s (int i) \<noteq> None" using that slot_exists [OF D(1), of "int i"] by simp
    then show ?thesis using wl f(14) by (auto simp: wlocked_def)
  qed
  then obtain v where v: "foldM clear_slot [0..<?n] u = Some v" "slots_cut u ?n v"
    using n(1) by (rule clear_slots_run)
  note g = slots_cut_frame [OF Su v(2) [folded cu]]
  let ?v = "v\<lparr> sc_free_head := FM_NULL_SLOT \<rparr>"
  have exv: "fm_slot ?v (int i) \<noteq> None \<and> rows ?v (int i) = None" if "i < ?n" for i
    using that slot_exists [OF Su, of "int i"] g(1,2) cu by simp
  have "free_list ?v []" by (simp add: free_list_def)
  then obtain w where w: "foldM clear_push [0..<?n] ?v = Some w" "free_step ?v w"
    "free_list w (map int (rev [0..<?n]))" by (rule clear_push_run [OF _ exv n(1)])
  have "fm_core_clear s = Some (unlock_struct (w\<lparr> sc_records := 0 \<rparr>))"
    unfolding fm_core_clear_def lk using u(1) v(1) w(1) n(2) cu by (simp add: Let_def)
  then show thesis using that [of u v w] u(2,3) v(2) w(2,3) cu Su by simp
qed

lemma covers_all: "covers w (set (map int (rev [0..<sc_chunk_cnt w * FM_CHUNK_SIZE])))"
  unfolding covers_def
proof (intro allI impI disjI1)
  fix i :: int assume "0 \<le> i" "i < int (sc_chunk_cnt w * FM_CHUNK_SIZE)"
  then have "nat i \<in> set [0..<sc_chunk_cnt w * FM_CHUNK_SIZE]" "i = int (nat i)" by auto
  then show "i \<in> set (map int (rev [0..<sc_chunk_cnt w * FM_CHUNK_SIZE]))" by (metis image_eqI list.set_map set_rev)
qed

text \<open>A table without rows whose slots are all free.\<close>

lemma emptied_inv:
  assumes ok: "sizes_ok w" "keys_ok w" "slots_ok w" and r: "rows w = Map.empty" "\<And>k. k < sc_keys w \<Longrightarrow> key_chains w k Map.empty"
    and fl: "free_list w xs" "covers w (set xs)"
  shows "core_inv (w\<lparr> sc_records := 0 \<rparr>)"
proof -
  let ?y = "w\<lparr> sc_records := 0 \<rparr>"
  have ky: "key_chains ?y k R = key_chains w k R" for k R by (rule key_chains_cong) simp_all
  have fy: "free_next ?y = free_next w" by (auto simp: free_next_def)
  have y: "sizes_ok ?y = sizes_ok w" "keys_ok ?y = keys_ok w" "slots_ok ?y = slots_ok w"
    "\<And>xs. free_list ?y xs = free_list w xs" "\<And>A. covers ?y A = covers w A"
    by (simp_all add: sizes_ok_def keys_ok_def slots_ok_def slot_ok_def free_list_def covers_def fy)
  have ry: "rows ?y = Map.empty" "sc_keys ?y = sc_keys w" "sc_records ?y = 0" using r(1) by simp_all
  have "\<exists>xs. free_list w xs \<and> covers w (set xs)" using fl by blast
  then show ?thesis unfolding core_inv_def y ry ky unique_rows_def using ok r(2) by simp
qed

lemma clear_correct:
  assumes inv: "core_inv s" "quiet s" and wl: "wlocked s = {}"
  obtains s' where "fm_core_clear s = Some s'" "core_inv s'" "quiet s'" "rows s' = Map.empty"
    "same_shape s s'" "gens s' = map_option (\<lambda>g. g + 1) \<circ> gens s" "sc_chunk_cnt s' = sc_chunk_cnt s"
    "free_list s' (map int (rev [0..<sc_chunk_cnt s * FM_CHUNK_SIZE]))"
proof -
  let ?n = "sc_chunk_cnt s * FM_CHUNK_SIZE" and ?b = "s\<lparr> sc_struct_mutex := True \<rparr>"
  obtain u v w where u: "links_step ?b u" "\<forall>k < sc_keys s. key_chains u k Map.empty"
    and v: "slots_cut u ?n v" "sc_chunk_cnt u = sc_chunk_cnt s" "sizes_ok u"
    and w: "free_step (v\<lparr> sc_free_head := FM_NULL_SLOT \<rparr>) w" "free_list w (map int (rev [0..<?n]))"
    and run: "fm_core_clear s = Some (unlock_struct (w\<lparr> sc_records := 0 \<rparr>))" by (rule clear_run [OF inv wl])
  let ?v = "v\<lparr> sc_free_head := FM_NULL_SLOT \<rparr>" and ?z = "unlock_struct (w\<lparr> sc_records := 0 \<rparr>)"
  have ib: "core_inv ?b" "held ?b = {}" using inv by (simp_all add: quiet_def)
  note f = links_step_frame [OF u(1)] and h = free_step_frame [OF w(1)] and g = slots_cut_frame [OF v(3) v(1) [folded v(2)]]
  have eq: "sc_keys w = sc_keys s" "sc_reclength w = sc_reclength s" "sc_max_records w = sc_max_records s"
    "sc_chunk_cnt w = sc_chunk_cnt s"
    using w(1) v(1) u(1) by (simp_all add: free_step_def slots_cut_def links_step_def scal_def)
  have "lasting v = lasting u" using v(1) by (intro lasting_scal) (simp_all add: slots_cut_def)
  then have la: "lasting w = lasting s" using free_step_lasting [OF w(1)] links_step_lasting [OF u(1)] by simp
  have "kstat ?v = kstat v" by (auto simp: fun_eq_iff)
  then have kw: "kstat w = kstat s" using h(9) g(7) f(9) by (auto simp: fun_eq_iff)
  have "key_chains ?v k R = key_chains v k R" for k R by (rule key_chains_cong) simp_all
  then have chw: "key_chains w k Map.empty" if "k < sc_keys w" for k using u(2) that eq(1) by (simp add: h(7) g(6))
  have "sizes_ok ?v = sizes_ok v" "keys_ok ?v = keys_ok v" "slots_ok ?v = slots_ok v" "held ?v = held v" "wlocked ?v = wlocked v"
    by (simp_all add: sizes_ok_def keys_ok_def slots_ok_def slot_ok_def held_def wlocked_def)
  then have ok: "sizes_ok w" "keys_ok w" "slots_ok w" "held w = {}" "wlocked w = {}"
    using h(2-6) g(3,4,5,8,9) f(2,3,5,6) core_invD(2,3) [OF ib(1)] ib(2) wl by simp_all
  have rw: "rows w = Map.empty" using h(1) g(2) by simp
  have "core_inv (w\<lparr> sc_records := 0 \<rparr>)"
    by (rule emptied_inv [OF ok(1-3) rw chw w(2)]) (use covers_all [of w] eq(4) in simp_all)
  moreover have zk: "kstat ?z = kstat w" "held (w\<lparr> sc_records := 0 \<rparr>) = held w"
    "wlocked (w\<lparr> sc_records := 0 \<rparr>) = wlocked w"
    by (simp_all add: fun_eq_iff unlock_struct_def held_def wlocked_def)
  moreover have "quiet ?z" "rows ?z = Map.empty" "same_shape s ?z"
    using ok(4,5) rw eq kw wl zk la by (simp_all add: quiet_def unlock_struct_def spin_unlock_def same_shape_def)
  moreover have "gens ?z = gens w" by (rule gens_cong) (simp add: fun_eq_iff unlock_struct_def)
  moreover have "gens w = map_option (\<lambda>g. g + 1) \<circ> gens s"
    using free_step_gens [OF w(1)] gens_cong [of ?v v] g(10) gens_cong [OF f(14)] gens_cong [of ?b s] by (auto simp: fun_eq_iff)
  moreover have "free_next ?z = free_next w" by (auto simp: free_next_def unlock_struct_def)
  then have "free_list ?z (map int (rev [0..<?n]))" using w(2) by (simp add: free_list_def unlock_struct_def)
  ultimately show thesis using that [OF run] eq(4) by (simp add: unlock_struct_def)
qed

section \<open>Waiting for row locks\<close>

lemma clear_slot_other:
  "clear_slot j t = Some u \<Longrightarrow> fm_i32_of j \<noteq> i \<Longrightarrow> fm_slot u i = fm_slot t i"
  by (auto simp: clear_slot_def lock_slot_def unlock_slot_def bind_eq_Some_conv split: if_splits)

lemma clear_slots_other:
  "foldM clear_slot xs t = Some u \<Longrightarrow> \<forall>j \<in> set xs. fm_i32_of j \<noteq> i \<Longrightarrow> fm_slot u i = fm_slot t i"
  by (induction xs arbitrary: t) (auto simp: bind_eq_Some_conv clear_slot_other)

lemma clear_slots_blocked:
  assumes sl: "fm_slot s (int i) = Some sl" "sl_wlock sl" and n: "i < n" "n < 2 ^ 31"
  shows "foldM clear_slot [0..<n] s = None"
proof (cases "foldM clear_slot [0..<i] s")
  case None
  have "[0..<n] = [0..<i] @ [i..<n]" using n(1) by (metis le0 less_imp_le upt_add_eq_append le_add_diff_inverse)
  then show ?thesis using None by (simp add: foldM_append)
next
  case (Some t)
  have "fm_slot t (int i) = Some sl" using clear_slots_other [OF Some, of "int i"] n sl(1) by simp
  then have "clear_slot i t = None" using sl(2) n by (simp add: clear_slot_def lock_slot_def spin_lock_def)
  moreover have "[0..<n] = [0..<i] @ i # [Suc i..<n]" using n(1) by (metis le0 less_imp_le upt_add_eq_append le_add_diff_inverse upt_conv_Cons)
  ultimately show ?thesis using Some by (simp add: foldM_append)
qed

text \<open>As long as somebody holds a row lock, \<^verbatim>\<open>fm_core_clear\<close> does not come back.\<close>

lemma clear_blocked:
  assumes inv: "core_inv s" "quiet s" and wl: "wlocked s \<noteq> {}"
  shows "fm_core_clear s = None"
proof -
  let ?n = "sc_chunk_cnt s * FM_CHUNK_SIZE" and ?b = "s\<lparr> sc_struct_mutex := True \<rparr>"
  have lk: "lock_struct s = Some ?b" using inv(2) by (simp add: lock_struct_def spin_lock_def quiet_def)
  have ib: "core_inv ?b" "held ?b = {}" using inv by (simp_all add: quiet_def)
  note D = core_invD [OF inv(1)]
  have n: "?n < 2 ^ 31" "u32 ?n = ?n" using sizes_bound(1) [OF D(1)] by simp_all
  obtain u where u: "foldM clear_key [0..<sc_keys ?b] ?b = Some u" "links_step ?b u" by (rule clear_keys_run [OF ib])
  note f = links_step_frame [OF u(2)]
  have cu: "sc_chunk_cnt u = sc_chunk_cnt s" using u(2) by (simp add: links_step_def scal_def)
  obtain i sl where i: "fm_slot s i = Some sl" "sl_wlock sl" using wl by (auto simp: wlocked_def split: option.splits)
  then have b: "0 \<le> i" "i < int ?n" using slot_exists [OF D(1), of i] by simp_all
  have "fm_slot u (int (nat i)) = Some sl" using i(1) b(1) f(14) by simp
  then have "foldM clear_slot [0..<?n] u = None" by (rule clear_slots_blocked) (use i b n in auto)
  then show ?thesis unfolding fm_core_clear_def lk using u(1) n(2) cu by (simp add: Let_def)
qed

end
