(* ===== verification/FM_Lifecycle.thy ===== *)
theory FM_Lifecycle
  imports FM_Clear
begin

text \<open>
  Birth and death of a share: a share that \<^verbatim>\<open>fm_core_init_share\<close> set up and whose keys have
  been wired satisfies the invariant of the row operations, and \<^verbatim>\<open>fm_core_free_share\<close> gives
  every block back.
\<close>

section \<open>A share that got its memory\<close>

text \<open>Wiring the callbacks of the keys, as \<^verbatim>\<open>fm_key_ops_init\<close> does.\<close>

definition wire_key :: "FM_KEY_OPS \<times> bool \<Rightarrow> FM_KEY_CORE \<Rightarrow> FM_KEY_CORE" where
  "wire_key w kc = kc\<lparr> kc_ops := fst w, kc_unique := snd w \<rparr>"

definition wire_keys :: "(FM_KEY_OPS \<times> bool) list \<Rightarrow> FM_SHARE_CORE \<Rightarrow> FM_SHARE_CORE" where
  "wire_keys ws s = s\<lparr> sc_keydef := map_option (\<lambda>ks. map2 wire_key ws ks) (sc_keydef s) \<rparr>"

definition fresh_key :: "nat \<Rightarrow> FM_KEY_CORE" where
  "fresh_key n = \<lparr> kc_ops = zero_ops, kc_unique = False, kc_nbuckets = of_nat n,
     kc_head = Some (\<lambda>b. if b < n then Some FM_NULL_SLOT else None),
     kc_locks = Some (\<lambda>b. if b < n then Some False else None) \<rparr>"

text \<open>The allocator serves its first \<open>n\<close> requests, whatever their size.\<close>

definition serves :: "(nat \<Rightarrow> nat \<Rightarrow> bool) \<Rightarrow> nat \<Rightarrow> bool" where
  "serves ops n = (\<forall>i size. i < n \<longrightarrow> ops i size)"

lemma init_key_ok:
  assumes "serves (sc_alloc s) (sc_nalloc s + 2)" "sc_keydef s = Some (replicate k (fresh_key n) @ z # zs)"
    "n = (if nb \<noteq> 0 then nb else 1024)"
  shows "init_key nb k s = s\<lparr> sc_nalloc := sc_nalloc s + 2, sc_live := sc_live s + 2,
     sc_keydef := Some (replicate (Suc k) (fresh_key n) @ zs) \<rparr>"
proof -
  have "(replicate k (fresh_key n) @ z # zs)[k := x] = replicate k (fresh_key n) @ x # zs" for x
    by (metis length_replicate list_update_length)
  moreover have "replicate k (fresh_key n) @ fresh_key n # zs = replicate (Suc k) (fresh_key n) @ zs"
    by (simp add: replicate_app_Cons_same)
  ultimately show ?thesis
    using assms by (simp add: init_key_def ops_alloc_def upd_key_def fresh_key_def Let_def serves_def)
qed

lemma init_keys_ok:
  assumes "serves (sc_alloc s) (sc_nalloc s + 2 * keys)" "sc_keydef s = Some (replicate keys zero_key)" "m \<le> keys"
    "n = (if nb \<noteq> 0 then nb else 1024)"
  shows "fold (init_key nb) [0..<m] s = s\<lparr> sc_nalloc := sc_nalloc s + 2 * m,
     sc_live := sc_live s + 2 * int m,
     sc_keydef := Some (replicate m (fresh_key n) @ replicate (keys - m) zero_key) \<rparr>"
  using assms(3)
proof (induction m)
  case 0
  then show ?case using assms(2) by simp
next
  case (Suc m)
  then obtain j where j: "keys - m = Suc j" "keys - Suc m = j" by (cases "keys - m") auto
  let ?t = "fold (init_key nb) [0..<m] s"
  have t: "?t = s\<lparr> sc_nalloc := sc_nalloc s + 2 * m, sc_live := sc_live s + 2 * int m,
     sc_keydef := Some (replicate m (fresh_key n) @ zero_key # replicate j zero_key) \<rparr>"
    using Suc j by simp
  have "init_key nb m ?t = ?t\<lparr> sc_nalloc := sc_nalloc ?t + 2, sc_live := sc_live ?t + 2,
     sc_keydef := Some (replicate (Suc m) (fresh_key n) @ replicate j zero_key) \<rparr>"
    by (rule init_key_ok) (use t assms Suc.prems in \<open>simp_all add: serves_def\<close>)
  then show ?case by (simp add: t j(2))
qed

text \<open>The share that results when every allocation of the initialisation succeeds.\<close>

lemma init_share_ok:
  fixes rl keys mr nb :: nat and ops :: "nat \<Rightarrow> nat \<Rightarrow> bool"
  defines "n \<equiv> if nb \<noteq> 0 then nb else 1024" and "m \<equiv> if mr \<noteq> 0 then mr else 1"
  defines "s \<equiv> fm_core_init_share ops rl keys mr nb"
  assumes serves: "serves ops (2 + 2 * keys)"
  shows "sc_keydef s = (if keys = 0 then None else Some (replicate keys (fresh_key n)))"
    "sc_chunks s = Some Map.empty" "sc_chunk_cnt s = 0" "sc_free_head s = FM_NULL_SLOT"
    "sc_keys s = keys" "sc_reclength s = rl" "sc_max_records s = m" "sc_records s = 0"
    "sc_chunk_cap s = u32 (m + FM_CHUNK_SIZE - 1) div FM_CHUNK_SIZE" "\<not> sc_struct_mutex s"
    "sc_live s = (if keys = 0 then 1 else 2 + 2 * int keys)"
    "sc_alloc s = ops"
proof -
  let ?z = "(zero_share ops 0 0)\<lparr> sc_reclength := rl, sc_keys := keys, sc_max_records := m,
     sc_slot_size := unat (fm_align8 (of_nat (FM_SLOT_DATA_OFFSET + rl))),
     sc_chunk_cap := u32 (m + FM_CHUNK_SIZE - 1) div FM_CHUNK_SIZE, sc_free_head := FM_NULL_SLOT \<rparr>"
  let ?a = "?z\<lparr> sc_nalloc := 1, sc_live := 1, sc_chunks := Some Map.empty \<rparr>"
  let ?b = "?a\<lparr> sc_nalloc := 2, sc_live := 2, sc_keydef := Some (replicate keys zero_key) \<rparr>"
  let ?c = "?b\<lparr> sc_nalloc := 2 + 2 * keys, sc_live := 2 + 2 * int keys,
     sc_keydef := Some (replicate keys (fresh_key n)) \<rparr>"
  have "fold (init_key nb) [0..<keys] ?b = ?c"
    using init_keys_ok [of ?b keys keys n nb] serves by (simp add: n_def zero_share_def)
  then have "s = (if keys = 0 then ?a else ?c)"
    unfolding s_def fm_core_init_share_def m_def [symmetric]
    using serves by (simp add: ops_alloc_def Let_def zero_share_def numeral_2_eq_2 serves_def)
  then show "sc_keydef s = (if keys = 0 then None else Some (replicate keys (fresh_key n)))"
    "sc_chunks s = Some Map.empty" "sc_chunk_cnt s = 0" "sc_free_head s = FM_NULL_SLOT"
    "sc_keys s = keys" "sc_reclength s = rl" "sc_max_records s = m" "sc_records s = 0"
    "sc_chunk_cap s = u32 (m + FM_CHUNK_SIZE - 1) div FM_CHUNK_SIZE" "\<not> sc_struct_mutex s"
    "sc_live s = (if keys = 0 then 1 else 2 + 2 * int keys)" "sc_alloc s = ops"
    by (simp_all add: zero_share_def)
qed

section \<open>The invariant at birth\<close>

lemma wired_share_inv:
  fixes rl mr nb :: nat and ws :: "(FM_KEY_OPS \<times> bool) list" and ops :: "nat \<Rightarrow> nat \<Rightarrow> bool"
  defines "n \<equiv> if nb \<noteq> 0 then nb else 1024"
  defines "s \<equiv> wire_keys ws (fm_core_init_share ops rl (length ws) mr nb)"
  assumes serves: "serves ops (2 + 2 * length ws)" and keys: "length ws \<le> FM_MAX_CHANGED_KEYS" and mr: "mr + FM_CHUNK_SIZE \<le> 2 ^ 31" and nb: "nb < 2 ^ 32"
    and ok: "\<forall>w \<in> set ws. key_ok (Some (fst w, snd w, of_nat n))"
  shows "core_inv s" "quiet s" "limited s" "rows s = Map.empty" "wlocked s = {}" "sc_keys s = length ws"
    "sc_reclength s = rl" "\<And>k. k < length ws \<Longrightarrow> kstat s k = Some (fst (ws ! k), snd (ws ! k), of_nat n)"
    "sc_max_records s = (if mr \<noteq> 0 then mr else 1)" "sc_alloc s = ops"
    "sc_live s = (if ws = [] then 1 else 2 + 2 * int (length ws))" "sc_chunk_cnt s = 0"
    "(sc_keydef s = None) = (sc_keys s = 0)"
proof -
  define m where "m = (if mr \<noteq> 0 then mr else 1)"
  note I = init_share_ok [OF serves, of rl mr nb, folded n_def m_def]
  have m: "0 < m" "m + FM_CHUNK_SIZE \<le> 2 ^ 31" using mr by (auto simp: m_def)
  have un: "unat (of_nat n :: fm_u32) = n" using nb by (simp add: n_def unsigned_of_nat take_bit_nat_eq_self)
  have slot: "fm_slot s i = None" for i
    unfolding s_def wire_keys_def fm_slot_def chunk_at_def by (simp add: I)
  show r: "rows s = Map.empty" by (rule ext) (simp add: rows_def slot)
  show "wlocked s = {}" by (simp add: wlocked_def slot)
  show rl: "sc_reclength s = rl" and kn: "sc_keys s = length ws" and mx: "sc_max_records s = (if mr \<noteq> 0 then mr else 1)"
    using I by (simp_all add: s_def wire_keys_def m_def)
  have gk: "get_key s k = (if k < length ws then Some (wire_key (ws ! k) (fresh_key n)) else None)" for k
    using I(1) by (auto simp: s_def wire_keys_def get_key_def)
  then show ks: "\<And>k. k < length ws \<Longrightarrow> kstat s k = Some (fst (ws ! k), snd (ws ! k), of_nat n)"
    by (simp add: kstat_def wire_key_def fresh_key_def)
  have nbk: "nbk (kstat s k) = n" if "k < length ws" for k using ks [OF that] un by (simp add: nbk_def)
  have hd0: "key_head s k b = Some FM_NULL_SLOT" "key_lock s k b = Some False" if "k < length ws" "b < n" for k b
    using that by (simp_all add: key_head_def key_lock_def gk wire_key_def fresh_key_def)
  have sizes: "sizes_ok s"
    using m I by (simp add: sizes_ok_def slot) (simp add: s_def wire_keys_def)
  have "keys_ok s"
    using keys ks ok nbk hd0 by (auto simp: keys_ok_def kn)
  moreover have "key_chains s k Map.empty" if "k < length ws" for k
    unfolding key_chains_def using hd0 that nbk by (auto intro!: exI [of _ "[]"])
  moreover have "free_list s []" "covers s {}" "sc_records s = 0"
    using I by (simp_all add: free_list_def covers_def s_def wire_keys_def)
  ultimately show "core_inv s"
    unfolding core_inv_def r kn using sizes
    by (auto simp: slots_ok_def slot unique_rows_def intro!: exI [of _ "[]"])
  show "sc_alloc s = ops" "sc_live s = (if ws = [] then 1 else 2 + 2 * int (length ws))" "sc_chunk_cnt s = 0"
    "(sc_keydef s = None) = (sc_keys s = 0)"
    using I by (simp_all add: s_def wire_keys_def)
  show "limited s" using \<open>free_list s []\<close> by (auto simp: limited_def r intro!: exI [of _ "[]"])
  have "key_lock s k b \<noteq> Some True" for k b
    by (cases "k < length ws") (auto simp: key_lock_def gk wire_key_def fresh_key_def)
  then show "quiet s" using I(10) by (simp add: quiet_def held_def s_def wire_keys_def)
qed

section \<open>Memory accounting\<close>

text \<open>The blocks a share with all its memory owns: the chunk table; the key array and two
  arrays per key; per chunk the slots, the array of link arrays and one link array per key.\<close>

definition blocks :: "FM_SHARE_CORE \<Rightarrow> int" where
  "blocks s = 1 + (if sc_keys s = 0 then 0 else 1 + 2 * int (sc_keys s)) +
     int (sc_chunk_cnt s) * chunk_blocks s"

text \<open>Whether the accounts balance depends on what lasts over the operations.\<close>

lemma same_shape_blocks:
  assumes "same_shape s s'"
  shows "(sc_live s' = blocks s') = (sc_live s = blocks s)" "(sc_keydef s' = None) = (sc_keydef s = None)"
  using assms by (auto simp: same_shape_def lasting_def blocks_def chunk_blocks_def)

lemma free_chunks_run:
  assumes "sc_chunks s = Some cs" "\<And>i. i < n \<Longrightarrow> cs i \<noteq> None"
  shows "foldM free_chunk [0..<n] s = Some (s\<lparr> sc_live := sc_live s - int n * chunk_blocks s \<rparr>)"
proof -
  have "\<exists>t. foldM free_chunk [0..<n] s = Some t \<and> t = s\<lparr> sc_live := sc_live s - int n * chunk_blocks s \<rparr>"
  proof (rule foldM_upt [where P = "\<lambda>m t. t = s\<lparr> sc_live := sc_live s - int m * chunk_blocks s \<rparr>"])
    fix i t assume i: "i < n" and t: "t = s\<lparr> sc_live := sc_live s - int i * chunk_blocks s \<rparr>"
    then obtain c where "cs i = Some c" using assms(2) by blast
    then show "\<exists>u. free_chunk i t = Some u \<and> u = s\<lparr> sc_live := sc_live s - int (Suc i) * chunk_blocks s \<rparr>"
      using t assms(1)
      by (simp add: free_chunk_def Let_def ops_dealloc_pow) (simp add: ops_dealloc_def chunk_blocks_def algebra_simps)
  qed simp
  then show ?thesis by blast
qed

lemma free_keys_run:
  assumes "\<And>k. k < n \<Longrightarrow> \<exists>kc. get_key s k = Some kc \<and> kc_head kc \<noteq> None \<and> kc_locks kc \<noteq> None"
  shows "foldM free_key [0..<n] s = Some (s\<lparr> sc_live := sc_live s - 2 * int n \<rparr>)"
proof -
  have "\<exists>t. foldM free_key [0..<n] s = Some t \<and> t = s\<lparr> sc_live := sc_live s - 2 * int n \<rparr>"
  proof (rule foldM_upt [where P = "\<lambda>m t. t = s\<lparr> sc_live := sc_live s - 2 * int m \<rparr>"])
    fix k t assume k: "k < n" and t: "t = s\<lparr> sc_live := sc_live s - 2 * int k \<rparr>"
    then obtain kc where "get_key s k = Some kc" "kc_head kc \<noteq> None" "kc_locks kc \<noteq> None"
      using assms by blast
    then show "\<exists>u. free_key k t = Some u \<and> u = s\<lparr> sc_live := sc_live s - 2 * int (Suc k) \<rparr>"
      using t by (simp add: free_key_def get_key_def ops_dealloc_def Let_def)
  qed simp
  then show ?thesis by blast
qed

text \<open>Freeing a share whose accounts balance leaves no block behind.\<close>

lemma free_share_sized:
  assumes S: "sizes_ok s" and K: "keys_ok s" and live: "sc_live s = blocks s"
    and kd: "(sc_keydef s = None) = (sc_keys s = 0)"
  obtains z where "fm_core_free_share s = Some z" "sc_live z = 0" "sc_chunks z = None" "sc_keydef z = None"
proof -
  from S obtain cs where cs: "sc_chunks s = Some cs" by (auto simp: sizes_ok_def)
  have "cs i \<noteq> None" if "i < sc_chunk_cnt s" for i
  proof -
    have "fm_slot s (int (i * 4096)) \<noteq> None" using that slot_exists [OF S, of "int (i * 4096)"] by simp
    then show ?thesis using cs by (auto simp: fm_slot_def chunk_at_def split: Option.bind_splits)
  qed
  note A = free_chunks_run [OF cs this]
  let ?t = "s\<lparr> sc_live := sc_live s - int (sc_chunk_cnt s) * chunk_blocks s - 1 \<rparr>"
  have "\<exists>kc. get_key ?t k = Some kc \<and> kc_head kc \<noteq> None \<and> kc_locks kc \<noteq> None" if "k < sc_keys s" for k
  proof -
    have "0 < nbk (kstat s k)" using bkt_less [of "kstat s k"] K that by (fastforce simp: keys_ok_def)
    then have "key_head s k 0 \<noteq> None" "key_lock s k 0 \<noteq> None" using K that by (auto simp: keys_ok_def)
    then show ?thesis by (auto simp: key_head_def key_lock_def get_key_def split: Option.bind_splits if_splits)
  qed
  note B = free_keys_run [OF this]
  have "fm_core_free_share s = Some (zero_share (sc_alloc s) (sc_nalloc s) 0)"
    using A B cs live kd by (auto simp: fm_core_free_share_def ops_dealloc_def Let_def blocks_def)
  then show thesis by (rule that) (simp_all add: zero_share_def)
qed

lemma free_share_run:
  assumes "core_inv s" "sc_live s = blocks s" "(sc_keydef s = None) = (sc_keys s = 0)"
  obtains z where "fm_core_free_share s = Some z" "sc_live z = 0" "sc_chunks z = None" "sc_keydef z = None"
  by (rule free_share_sized [OF core_invD(1,2) [OF assms(1)] assms(2,3)])

end
