(* ===== verification/FM_Hash.thy ===== *)
theory FM_Hash
  imports FM_Lifecycle
begin

text \<open>
  The key functions of \<^verbatim>\<open>fm_hash.cc\<close>: hashing and comparing keys of record images and packed
  keys, packing a key, wiring the callbacks of the core. The character set functions and the
  hash primitives of the server are not part of the program: they are the fields of
  \<open>CHARSET_INFO\<close> and \<open>my_env\<close>, and what the engine relies on is \<open>collation_ok\<close>.
\<close>

section \<open>Descriptors\<close>

type_synonym my_hasher = "fm_u64 \<times> fm_u64"

text \<open>\<^verbatim>\<open>my_ci_charpos\<close> takes the bytes between its two pointers and a number of characters.\<close>

record CHARSET_INFO =
  mbmaxlen :: nat
  ci_charpos :: "image \<Rightarrow> nat \<Rightarrow> nat"
  ci_hash_sort :: "my_hasher \<Rightarrow> image \<Rightarrow> my_hasher"
  ci_strnncollsp :: "image \<Rightarrow> image \<Rightarrow> int"

record my_env =
  my_hasher_mysql5x :: my_hasher
  my_hash_add :: "my_hasher \<Rightarrow> fm_u8 \<Rightarrow> my_hasher"
  get_rec_bits :: "image \<Rightarrow> nat \<Rightarrow> nat \<Rightarrow> nat \<Rightarrow> fm_u8"
  uint2korr :: "fm_u8 \<Rightarrow> fm_u8 \<Rightarrow> nat"

datatype ha_keytype =
    HA_KEYTYPE_TEXT | HA_KEYTYPE_BINARY | HA_KEYTYPE_BIT | HA_KEYTYPE_VARTEXT1
  | HA_KEYTYPE_VARTEXT2 | HA_KEYTYPE_VARBINARY1 | HA_KEYTYPE_VARBINARY2 | HA_KEYTYPE_NUMBER nat

record HA_KEYSEG =
  seg_type :: ha_keytype
  seg_start :: nat
  seg_length :: nat
  seg_null_bit :: fm_u8
  seg_null_pos :: nat
  seg_bit_start :: nat
  seg_bit_length :: nat
  seg_bit_pos :: nat
  seg_charset :: CHARSET_INFO

datatype ha_flag = HA_NOSAME | HA_NULL_ARE_EQUAL | HA_NULL_PART_KEY | HA_AUTO_KEY

record FM_KEYDEF =
  kd_seg :: "HA_KEYSEG list"
  kd_flag :: "ha_flag set"
  kd_length :: nat

text \<open>Byte \<open>i\<close> of a buffer, and \<open>n\<close> bytes from an offset. The server passes buffers that hold
  the whole record or key; past the end of a shorter one the model reads zeros.\<close>

definition byte_at :: "image \<Rightarrow> nat \<Rightarrow> fm_u8" where
  "byte_at buf i = (if i < length buf then buf ! i else 0)"

definition bytes :: "image \<Rightarrow> nat \<Rightarrow> nat \<Rightarrow> image" where
  "bytes buf off n = map (byte_at buf) [off..<off + n]"

section \<open>Lengths of character data\<close>

text \<open>A TEXT segment: at most \<open>length / mbmaxlen\<close> characters of the \<open>length\<close> bytes at \<open>pos\<close>.\<close>

definition text_len :: "HA_KEYSEG \<Rightarrow> image \<Rightarrow> nat \<Rightarrow> nat" where
  "text_len seg buf pos =
     (let cs = seg_charset seg in
      if mbmaxlen cs > 1
      then min (ci_charpos cs (bytes buf pos (seg_length seg)) (seg_length seg div mbmaxlen cs)) (seg_length seg)
      else seg_length seg)"

text \<open>A VARCHAR column of a record: its length prefix has \<^verbatim>\<open>bit_start\<close> bytes.\<close>

definition rec_prefix :: "my_env \<Rightarrow> HA_KEYSEG \<Rightarrow> image \<Rightarrow> nat \<Rightarrow> nat" where
  "rec_prefix E seg rec pos =
     (if seg_bit_start seg = 1 then unat (byte_at rec pos)
      else uint2korr E (byte_at rec pos) (byte_at rec (pos + 1)))"

text \<open>\<^verbatim>\<open>pos\<close> of the character data: the compare functions step over one or two bytes.\<close>

definition var_len_rec :: "my_env \<Rightarrow> HA_KEYSEG \<Rightarrow> image \<Rightarrow> nat \<Rightarrow> nat \<Rightarrow> nat" where
  "var_len_rec E seg rec pos data =
     (let cs = seg_charset seg; len = rec_prefix E seg rec pos in
      if mbmaxlen cs > 1
      then min len (ci_charpos cs (bytes rec data len) (seg_length seg div mbmaxlen cs))
      else min len (seg_length seg))"

text \<open>A VARCHAR part of a packed key: the prefix has always two bytes, and with a single-byte
  character set the length is taken as it is.\<close>

definition var_len_key :: "my_env \<Rightarrow> HA_KEYSEG \<Rightarrow> image \<Rightarrow> nat \<Rightarrow> nat" where
  "var_len_key E seg key pos =
     (let cs = seg_charset seg; len = uint2korr E (byte_at key pos) (byte_at key (pos + 1)) in
      if mbmaxlen cs > 1
      then min len (ci_charpos cs (bytes key (pos + 2) len) (seg_length seg div mbmaxlen cs))
      else len)"

section \<open>Hashing\<close>

definition null_hash :: "my_hasher \<Rightarrow> my_hasher" where
  "null_hash h = (fst h XOR ((push_bit 1 (fst h)) OR 1), snd h)"

text \<open>\<^verbatim>\<open>fm_hashnr\<close>: the segments, the offset of \<^verbatim>\<open>key\<close>, the hasher.\<close>

primrec hashnr_loop :: "my_env \<Rightarrow> HA_KEYSEG list \<Rightarrow> image \<Rightarrow> nat \<Rightarrow> my_hasher \<Rightarrow> my_hasher" where
  "hashnr_loop E [] key off h = h"
| "hashnr_loop E (seg # segs) key off h =
     (let nullable = seg_null_bit seg \<noteq> 0;
          next_off = off + seg_length seg + (if nullable then 1 else 0)
      in if nullable \<and> byte_at key off \<noteq> 0
         then hashnr_loop E segs key
                (if seg_type seg = HA_KEYTYPE_VARTEXT1 then next_off + 2 else next_off) (null_hash h)
         else let pos = (if nullable then off + 1 else off) in
           case seg_type seg of
             HA_KEYTYPE_TEXT \<Rightarrow> hashnr_loop E segs key next_off
               (ci_hash_sort (seg_charset seg) h (bytes key pos (text_len seg key pos)))
           | HA_KEYTYPE_VARTEXT1 \<Rightarrow> hashnr_loop E segs key (next_off + 2)
               (ci_hash_sort (seg_charset seg) h (bytes key (pos + 2) (var_len_key E seg key pos)))
           | _ \<Rightarrow> hashnr_loop E segs key next_off
               (foldl (my_hash_add E) h (bytes key pos (next_off - pos))))"

definition fm_hashnr :: "my_env \<Rightarrow> FM_KEYDEF \<Rightarrow> image \<Rightarrow> fm_u64" where
  "fm_hashnr E kd key = fst (hashnr_loop E (kd_seg kd) key 0 (my_hasher_mysql5x E))"

definition rec_null :: "HA_KEYSEG \<Rightarrow> image \<Rightarrow> bool" where
  "rec_null seg rec = (seg_null_bit seg \<noteq> 0 \<and> byte_at rec (seg_null_pos seg) AND seg_null_bit seg \<noteq> 0)"

definition is_bit :: "HA_KEYSEG \<Rightarrow> bool" where
  "is_bit seg = (seg_type seg = HA_KEYTYPE_BIT \<and> seg_bit_length seg \<noteq> 0)"

definition seg_bits :: "my_env \<Rightarrow> HA_KEYSEG \<Rightarrow> image \<Rightarrow> fm_u8" where
  "seg_bits E seg rec = get_rec_bits E rec (seg_bit_pos seg) (seg_bit_start seg) (seg_bit_length seg)"

text \<open>The body of the loop of \<^verbatim>\<open>fm_rec_hashnr\<close>.\<close>

definition rec_hash_seg :: "my_env \<Rightarrow> image \<Rightarrow> HA_KEYSEG \<Rightarrow> my_hasher \<Rightarrow> my_hasher" where
  "rec_hash_seg E rec seg h =
     (let pos = seg_start seg in
      if rec_null seg rec then null_hash h
      else case seg_type seg of
        HA_KEYTYPE_TEXT \<Rightarrow> ci_hash_sort (seg_charset seg) h (bytes rec pos (text_len seg rec pos))
      | HA_KEYTYPE_VARTEXT1 \<Rightarrow> (let data = pos + seg_bit_start seg in
          ci_hash_sort (seg_charset seg) h (bytes rec data (var_len_rec E seg rec pos data)))
      | _ \<Rightarrow>
          if is_bit seg
          then foldl (my_hash_add E) (my_hash_add E h (seg_bits E seg rec)) (bytes rec pos (seg_length seg - 1))
          else foldl (my_hash_add E) h (bytes rec pos (seg_length seg)))"

definition fm_rec_hashnr :: "my_env \<Rightarrow> FM_KEYDEF \<Rightarrow> image \<Rightarrow> fm_u64" where
  "fm_rec_hashnr E kd rec = fst (fold (rec_hash_seg E rec) (kd_seg kd) (my_hasher_mysql5x E))"

section \<open>Comparing\<close>

text \<open>The body of the loop of \<^verbatim>\<open>fm_rec_key_cmp\<close>: whether it goes on to the next segment.\<close>

definition rec_cmp_seg :: "my_env \<Rightarrow> image \<Rightarrow> image \<Rightarrow> HA_KEYSEG \<Rightarrow> bool" where
  "rec_cmp_seg E rec1 rec2 seg =
     (let pos = seg_start seg in
      if seg_null_bit seg \<noteq> 0 \<and> (byte_at rec1 (seg_null_pos seg) AND seg_null_bit seg) \<noteq>
           (byte_at rec2 (seg_null_pos seg) AND seg_null_bit seg) then False
      else if rec_null seg rec1 then True
      else case seg_type seg of
        HA_KEYTYPE_TEXT \<Rightarrow>
          ci_strnncollsp (seg_charset seg) (bytes rec1 pos (text_len seg rec1 pos))
            (bytes rec2 pos (text_len seg rec2 pos)) = 0
      | HA_KEYTYPE_VARTEXT1 \<Rightarrow>
          (let data = (if seg_bit_start seg = 1 then pos + 1 else pos + 2) in
           ci_strnncollsp (seg_charset seg) (bytes rec1 data (var_len_rec E seg rec1 pos data))
             (bytes rec2 data (var_len_rec E seg rec2 pos data)) = 0)
      | _ \<Rightarrow>
          if is_bit seg
          then seg_bits E seg rec1 = seg_bits E seg rec2 \<and>
               bytes rec1 pos (seg_length seg - 1) = bytes rec2 pos (seg_length seg - 1)
          else bytes rec1 pos (seg_length seg) = bytes rec2 pos (seg_length seg))"

primrec fm_rec_key_cmp_loop :: "my_env \<Rightarrow> HA_KEYSEG list \<Rightarrow> image \<Rightarrow> image \<Rightarrow> int" where
  "fm_rec_key_cmp_loop E [] rec1 rec2 = 0"
| "fm_rec_key_cmp_loop E (seg # segs) rec1 rec2 =
     (if rec_cmp_seg E rec1 rec2 seg then fm_rec_key_cmp_loop E segs rec1 rec2 else 1)"

definition fm_rec_key_cmp :: "my_env \<Rightarrow> FM_KEYDEF \<Rightarrow> image \<Rightarrow> image \<Rightarrow> int" where
  "fm_rec_key_cmp E kd rec1 rec2 = fm_rec_key_cmp_loop E (kd_seg kd) rec1 rec2"

text \<open>\<^verbatim>\<open>fm_key_cmp\<close>: the loop step adds \<^verbatim>\<open>seg->length\<close> to \<^verbatim>\<open>key\<close> also when the body has moved it
  already.\<close>

primrec key_cmp_loop :: "my_env \<Rightarrow> HA_KEYSEG list \<Rightarrow> image \<Rightarrow> image \<Rightarrow> nat \<Rightarrow> int" where
  "key_cmp_loop E [] rec key off = 0"
| "key_cmp_loop E (seg # segs) rec key off =
     (let nullable = seg_null_bit seg \<noteq> 0;
          found_null = rec_null seg rec;
          pos = seg_start seg;
          key0 = (if nullable then off + 1 else off)
      in if nullable \<and> (if found_null then 1 else 0) \<noteq> unat (byte_at key off) then 1
         else if nullable \<and> found_null
         then key_cmp_loop E segs rec key
                ((if seg_type seg = HA_KEYTYPE_VARTEXT1 then key0 + 2 else key0) + seg_length seg)
         else case seg_type seg of
           HA_KEYTYPE_TEXT \<Rightarrow>
             if ci_strnncollsp (seg_charset seg) (bytes rec pos (text_len seg rec pos))
                  (bytes key key0 (text_len seg key key0)) = 0
             then key_cmp_loop E segs rec key (key0 + seg_length seg) else 1
         | HA_KEYTYPE_VARTEXT1 \<Rightarrow>
             (let data = pos + seg_bit_start seg in
              if ci_strnncollsp (seg_charset seg) (bytes rec data (var_len_rec E seg rec pos data))
                   (bytes key (key0 + 2) (var_len_key E seg key key0)) = 0
              then key_cmp_loop E segs rec key (key0 + 2 + seg_length seg) else 1)
         | _ \<Rightarrow>
             if is_bit seg then
               (if seg_bits E seg rec \<noteq> byte_at key key0 then 1
                else if bytes rec pos (seg_length seg - 1) = bytes key (key0 + 1) (seg_length seg - 1)
                then key_cmp_loop E segs rec key (key0 + 1 + seg_length seg) else 1)
             else if bytes rec pos (seg_length seg) = bytes key key0 (seg_length seg)
             then key_cmp_loop E segs rec key (key0 + seg_length seg) else 1)"

definition fm_key_cmp :: "my_env \<Rightarrow> FM_KEYDEF \<Rightarrow> image \<Rightarrow> image \<Rightarrow> int" where
  "fm_key_cmp E kd rec key = key_cmp_loop E (kd_seg kd) rec key 0"

definition fm_if_null_in_key :: "FM_KEYDEF \<Rightarrow> image \<Rightarrow> int" where
  "fm_if_null_in_key kd rec = (if \<exists>seg \<in> set (kd_seg kd). rec_null seg rec then 1 else 0)"

section \<open>The callbacks, and packing a key\<close>

definition fm_ops_hash_rec :: "my_env \<Rightarrow> FM_KEYDEF \<Rightarrow> image \<Rightarrow> fm_u32" where
  "fm_ops_hash_rec E ud rec = ucast (fm_rec_hashnr E ud rec)"

definition fm_ops_hash_key :: "my_env \<Rightarrow> FM_KEYDEF \<Rightarrow> image \<Rightarrow> fm_u32" where
  "fm_ops_hash_key E ud packed_key = ucast (fm_hashnr E ud packed_key)"

definition fm_ops_cmp_rec_rec :: "my_env \<Rightarrow> FM_KEYDEF \<Rightarrow> image \<Rightarrow> image \<Rightarrow> int" where
  "fm_ops_cmp_rec_rec E ud a b = fm_rec_key_cmp E ud a b"

definition fm_ops_cmp_rec_key :: "my_env \<Rightarrow> FM_KEYDEF \<Rightarrow> image \<Rightarrow> image \<Rightarrow> int" where
  "fm_ops_cmp_rec_key E ud rec packed_key = fm_key_cmp E ud rec packed_key"

definition fm_ops_has_null_part :: "FM_KEYDEF \<Rightarrow> image \<Rightarrow> int" where
  "fm_ops_has_null_part ud rec = fm_if_null_in_key ud rec"

definition fm_key_ops :: "my_env \<Rightarrow> FM_KEYDEF \<Rightarrow> FM_KEY_OPS" where
  "fm_key_ops E kd = \<lparr> hash_rec = Some (fm_ops_hash_rec E kd), hash_key = Some (fm_ops_hash_key E kd),
     cmp_rec_rec = Some (fm_ops_cmp_rec_rec E kd), cmp_rec_key = Some (fm_ops_cmp_rec_key E kd),
     has_null_part = Some (fm_ops_has_null_part kd) \<rparr>"

text \<open>\<^verbatim>\<open>fm_key_ops_init\<close> writes to the key array of the core, which a share with keys may lack.\<close>

definition fm_key_ops_init :: "my_env \<Rightarrow> FM_KEYDEF list \<Rightarrow> FM_SHARE_CORE \<Rightarrow> FM_SHARE_CORE option" where
  "fm_key_ops_init E keydef s =
     (if sc_keys s \<noteq> 0 \<and> (sc_keydef s = None \<or> length keydef < sc_keys s) then None
      else Some (wire_keys (map (\<lambda>kd. (fm_key_ops E kd, HA_NOSAME \<in> kd_flag kd)) keydef) s))"

text \<open>\<^verbatim>\<open>fm_make_key\<close>: the packed bytes of one segment, and of all.\<close>

definition make_key_seg :: "my_env \<Rightarrow> image \<Rightarrow> HA_KEYSEG \<Rightarrow> image" where
  "make_key_seg E rec seg =
     (let pos = seg_start seg;
          null_byte = (if seg_null_bit seg \<noteq> 0 then [if rec_null seg rec then 1 else 0] else []);
          char_length = text_len seg rec pos
      in if seg_type seg = HA_KEYTYPE_VARTEXT1
         then null_byte @ bytes rec pos (char_length + seg_bit_start seg)
         else if is_bit seg
         then null_byte @ [seg_bits E seg rec] @ bytes rec pos (char_length - 1)
         else null_byte @ bytes rec pos char_length)"

definition fm_make_key :: "my_env \<Rightarrow> FM_KEYDEF \<Rightarrow> image \<Rightarrow> image" where
  "fm_make_key E kd rec = concat (map (make_key_seg E rec) (kd_seg kd))"

section \<open>What the engine relies on\<close>

text \<open>Equality under a collation is an equivalence, and equal strings hash alike.\<close>

definition collation_ok :: "CHARSET_INFO \<Rightarrow> bool" where
  "collation_ok cs = ((\<forall>a. ci_strnncollsp cs a a = 0) \<and>
     (\<forall>a b. ci_strnncollsp cs a b = 0 \<longrightarrow> ci_strnncollsp cs b a = 0) \<and>
     (\<forall>a b c. ci_strnncollsp cs a b = 0 \<longrightarrow> ci_strnncollsp cs b c = 0 \<longrightarrow> ci_strnncollsp cs a c = 0) \<and>
     (\<forall>a b h. ci_strnncollsp cs a b = 0 \<longrightarrow> ci_hash_sort cs h a = ci_hash_sort cs h b))"

text \<open>Segments as \<^verbatim>\<open>fm_prepare_create_info\<close> leaves them.\<close>

definition seg_ok :: "HA_KEYSEG \<Rightarrow> bool" where
  "seg_ok seg = ((seg_type seg \<in> {HA_KEYTYPE_TEXT, HA_KEYTYPE_VARTEXT1} \<longrightarrow> collation_ok (seg_charset seg)) \<and>
     (seg_type seg = HA_KEYTYPE_VARTEXT1 \<longrightarrow> seg_bit_start seg = 1 \<or> seg_bit_start seg = 2) \<and>
     (is_bit seg \<longrightarrow> 0 < seg_length seg))"

text \<open>No segment follows one with bits outside of its bytes.\<close>

primrec bits_last :: "HA_KEYSEG list \<Rightarrow> bool" where
  "bits_last [] = True"
| "bits_last (seg # segs) = ((is_bit seg \<longrightarrow> segs = []) \<and> bits_last segs)"

section \<open>Records\<close>

lemma rec_key_cmp_zero:
  "fm_rec_key_cmp E kd a b = 0 \<longleftrightarrow> (\<forall>seg \<in> set (kd_seg kd). rec_cmp_seg E a b seg)"
proof -
  have "fm_rec_key_cmp_loop E segs a b = 0 \<longleftrightarrow> (\<forall>seg \<in> set segs. rec_cmp_seg E a b seg)" for segs
    by (induction segs) auto
  then show ?thesis by (simp add: fm_rec_key_cmp_def)
qed

lemma rec_cmp_null: "rec_cmp_seg E a b seg \<Longrightarrow> rec_null seg a = rec_null seg b"
  by (auto simp: rec_cmp_seg_def rec_null_def Let_def split: if_splits)

lemma rec_cmp_seg_refl: "seg_ok seg \<Longrightarrow> rec_cmp_seg E a a seg"
  by (auto simp: rec_cmp_seg_def seg_ok_def collation_ok_def Let_def split: ha_keytype.split)

lemma rec_cmp_seg_sym:
  assumes "seg_ok seg" "rec_cmp_seg E a b seg"
  shows "rec_cmp_seg E b a seg"
proof (cases "rec_null seg a")
  case True
  then show ?thesis using assms(2) rec_cmp_null [OF assms(2)]
    by (auto simp: rec_cmp_seg_def Let_def split: if_splits)
next
  case False
  then have n: "\<not> rec_null seg b" using rec_cmp_null [OF assms(2)] by simp
  have sy: "seg_type seg \<in> {HA_KEYTYPE_TEXT, HA_KEYTYPE_VARTEXT1} \<Longrightarrow>
      ci_strnncollsp (seg_charset seg) x y = 0 \<Longrightarrow> ci_strnncollsp (seg_charset seg) y x = 0" for x y
    using assms(1) unfolding seg_ok_def collation_ok_def by blast
  show ?thesis using assms(2) False n
    by (auto simp: rec_cmp_seg_def Let_def split: if_splits ha_keytype.splits intro: sy)
qed

lemma rec_cmp_seg_trans:
  assumes "seg_ok seg" "rec_cmp_seg E a b seg" "rec_cmp_seg E b c seg"
  shows "rec_cmp_seg E a c seg"
proof (cases "rec_null seg a")
  case True
  then show ?thesis using assms rec_cmp_null [OF assms(2)]
    by (auto simp: rec_cmp_seg_def Let_def split: if_splits)
next
  case False
  then have n: "\<not> rec_null seg b" using rec_cmp_null [OF assms(2)] by simp
  have tr: "seg_type seg \<in> {HA_KEYTYPE_TEXT, HA_KEYTYPE_VARTEXT1} \<Longrightarrow>
      ci_strnncollsp (seg_charset seg) x y = 0 \<Longrightarrow> ci_strnncollsp (seg_charset seg) y z = 0 \<Longrightarrow>
      ci_strnncollsp (seg_charset seg) x z = 0" for x y z
    using assms(1) unfolding seg_ok_def collation_ok_def by blast
  show ?thesis using assms(2,3) False n
    by (auto simp: rec_cmp_seg_def Let_def split: if_splits ha_keytype.splits intro: tr)
qed

lemma rec_cmp_hash_seg:
  assumes "seg_ok seg" "rec_cmp_seg E a b seg"
  shows "rec_hash_seg E a seg h = rec_hash_seg E b seg h"
proof (cases "rec_null seg a")
  case True
  then show ?thesis using rec_cmp_null [OF assms(2)] by (simp add: rec_hash_seg_def)
next
  case False
  then have n: "\<not> rec_null seg b" using rec_cmp_null [OF assms(2)] by simp
  have eq: "seg_type seg \<in> {HA_KEYTYPE_TEXT, HA_KEYTYPE_VARTEXT1} \<Longrightarrow>
      ci_strnncollsp (seg_charset seg) x y = 0 \<Longrightarrow> ci_hash_sort (seg_charset seg) h x = ci_hash_sort (seg_charset seg) h y" for x y
    using assms(1) unfolding seg_ok_def collation_ok_def by blast
  have bs: "seg_type seg = HA_KEYTYPE_VARTEXT1 \<Longrightarrow>
      (if seg_bit_start seg = 1 then seg_start seg + 1 else seg_start seg + 2) = seg_start seg + seg_bit_start seg"
    using assms(1) by (auto simp: seg_ok_def)
  show ?thesis
  proof (cases "seg_type seg")
    case HA_KEYTYPE_VARTEXT1
    then show ?thesis using assms(2) False n bs eq
      by (auto simp: rec_cmp_seg_def rec_hash_seg_def Let_def split: if_splits)
  qed (use assms(2) False n eq in \<open>auto simp: rec_cmp_seg_def rec_hash_seg_def Let_def split: if_splits\<close>)
qed

lemma rec_cmp_hash:
  assumes "\<forall>seg \<in> set (kd_seg kd). seg_ok seg" "fm_rec_key_cmp E kd a b = 0"
  shows "fm_rec_hashnr E kd a = fm_rec_hashnr E kd b"
proof -
  have "fold (rec_hash_seg E a) segs h = fold (rec_hash_seg E b) segs h"
    if "\<forall>seg \<in> set segs. seg_ok seg \<and> rec_cmp_seg E a b seg" for segs h
    using that by (induction segs arbitrary: h) (auto simp: rec_cmp_hash_seg)
  then show ?thesis using assms by (simp add: fm_rec_hashnr_def rec_key_cmp_zero)
qed

section \<open>Records and packed keys\<close>

lemma bytes_Suc: "bytes buf off (Suc n) = byte_at buf off # bytes buf (Suc off) n"
proof -
  have "[off..<off + Suc n] = off # [Suc off..<Suc off + n]" by (simp add: upt_conv_Cons)
  then show ?thesis by (simp only: bytes_def list.map)
qed

text \<open>Where the data of a segment begins in a packed key.\<close>

definition key_data :: "HA_KEYSEG \<Rightarrow> nat \<Rightarrow> nat" where
  "key_data seg off = (if seg_null_bit seg \<noteq> 0 then off + 1 else off)"

text \<open>A match on a segment that is not null: the packed key says so too, and what is compared.\<close>

lemma key_cmp_not_null:
  assumes z: "key_cmp_loop E (seg # segs) rec key off = 0" and n: "\<not> rec_null seg rec"
  shows "seg_null_bit seg \<noteq> 0 \<longrightarrow> byte_at key off = 0"
    "(case seg_type seg of
         HA_KEYTYPE_TEXT \<Rightarrow>
           if ci_strnncollsp (seg_charset seg) (bytes rec (seg_start seg) (text_len seg rec (seg_start seg)))
                (bytes key (key_data seg off) (text_len seg key (key_data seg off))) = 0
           then key_cmp_loop E segs rec key (key_data seg off + seg_length seg) else 1
       | HA_KEYTYPE_VARTEXT1 \<Rightarrow>
           (let data = seg_start seg + seg_bit_start seg in
            if ci_strnncollsp (seg_charset seg) (bytes rec data (var_len_rec E seg rec (seg_start seg) data))
                 (bytes key (key_data seg off + 2) (var_len_key E seg key (key_data seg off))) = 0
            then key_cmp_loop E segs rec key (key_data seg off + 2 + seg_length seg) else 1)
       | _ \<Rightarrow>
           if is_bit seg then
             (if seg_bits E seg rec \<noteq> byte_at key (key_data seg off) then 1
              else if bytes rec (seg_start seg) (seg_length seg - 1) = bytes key (key_data seg off + 1) (seg_length seg - 1)
              then key_cmp_loop E segs rec key (key_data seg off + 1 + seg_length seg) else 1)
           else if bytes rec (seg_start seg) (seg_length seg) = bytes key (key_data seg off) (seg_length seg)
           then key_cmp_loop E segs rec key (key_data seg off + seg_length seg) else 1) = 0" (is "?C = 0")
proof -
  show kb: "seg_null_bit seg \<noteq> 0 \<longrightarrow> byte_at key off = 0"
    using z n by (auto simp: Let_def unat_eq_zero split: if_splits)
  have c1: "\<not> (seg_null_bit seg \<noteq> 0 \<and> (if rec_null seg rec then 1 else 0) \<noteq> unat (byte_at key off))"
    using kb n by (cases "seg_null_bit seg = 0") simp_all
  have c2: "\<not> (seg_null_bit seg \<noteq> 0 \<and> rec_null seg rec)" using n by simp
  show "?C = 0"
    using z unfolding key_cmp_loop.simps Let_def key_data_def [symmetric] if_not_P [OF c1] if_not_P [OF c2] .
qed

lemma hashnr_not_null:
  assumes "seg_null_bit seg \<noteq> 0 \<longrightarrow> byte_at key off = 0"
  shows "hashnr_loop E (seg # segs) key off h = (case seg_type seg of
       HA_KEYTYPE_TEXT \<Rightarrow> hashnr_loop E segs key (key_data seg off + seg_length seg)
         (ci_hash_sort (seg_charset seg) h (bytes key (key_data seg off) (text_len seg key (key_data seg off))))
     | HA_KEYTYPE_VARTEXT1 \<Rightarrow> hashnr_loop E segs key (key_data seg off + seg_length seg + 2)
         (ci_hash_sort (seg_charset seg) h (bytes key (key_data seg off + 2) (var_len_key E seg key (key_data seg off))))
     | _ \<Rightarrow> hashnr_loop E segs key (key_data seg off + seg_length seg)
         (foldl (my_hash_add E) h (bytes key (key_data seg off) (seg_length seg))))"
proof -
  have no: "off + seg_length seg + (if seg_null_bit seg \<noteq> 0 then 1 else 0) = key_data seg off + seg_length seg"
    by (simp add: key_data_def)
  have c3: "\<not> (seg_null_bit seg \<noteq> 0 \<and> byte_at key off \<noteq> 0)" using assms by auto
  show ?thesis unfolding hashnr_loop.simps Let_def key_data_def [symmetric] no if_not_P [OF c3] add_diff_cancel_left' ..
qed

text \<open>A record that matches a packed key hashes like it, segment by segment.\<close>

lemma key_cmp_hash_null:
  assumes z: "key_cmp_loop E (seg # segs) rec key off = 0" and n: "rec_null seg rec"
  obtains off' where "hashnr_loop E (seg # segs) key off h = hashnr_loop E segs key off' (rec_hash_seg E rec seg h)"
    "key_cmp_loop E segs rec key off' = 0"
proof -
  let ?o = "if seg_type seg = HA_KEYTYPE_VARTEXT1 then off + seg_length seg + 1 + 2 else off + seg_length seg + 1"
  have nb: "seg_null_bit seg \<noteq> 0" using n by (simp add: rec_null_def)
  have one: "unat (byte_at key off) = 1" using z n nb by (simp add: Let_def split: if_splits)
  have "key_cmp_loop E segs rec key ?o = 0"
    using z n nb one by (cases "seg_type seg = HA_KEYTYPE_VARTEXT1") (simp_all add: Let_def add.commute add.left_commute)
  moreover have "byte_at key off \<noteq> 0" using one by auto
  then have "hashnr_loop E (seg # segs) key off h = hashnr_loop E segs key ?o (rec_hash_seg E rec seg h)"
    using n nb by (simp add: Let_def rec_hash_seg_def)
  ultimately show thesis by (rule that [rotated])
qed

lemma key_cmp_hash_bit:
  assumes ok: "seg_ok seg" "segs = []" "is_bit seg" and z: "key_cmp_loop E (seg # segs) rec key off = 0" and n: "\<not> rec_null seg rec"
  shows "hashnr_loop E (seg # segs) key off h = rec_hash_seg E rec seg h"
proof -
  note C = key_cmp_not_null [OF z n]
  have ty: "seg_type seg = HA_KEYTYPE_BIT" "0 < seg_length seg" using ok by (auto simp: is_bit_def seg_ok_def)
  then obtain m where m: "seg_length seg = Suc m" by (cases "seg_length seg") auto
  from C(2) ty ok(3) m have "seg_bits E seg rec = byte_at key (key_data seg off)"
    "bytes rec (seg_start seg) m = bytes key (Suc (key_data seg off)) m" by (auto split: if_splits)
  then show ?thesis using n ty ok m by (simp add: hashnr_not_null [OF C(1)] rec_hash_seg_def bytes_Suc del: hashnr_loop.simps(2))
qed

lemma key_cmp_hash_step:
  assumes ok: "seg_ok seg" "is_bit seg \<longrightarrow> segs = []" and z: "key_cmp_loop E (seg # segs) rec key off = 0"
  obtains off' where "hashnr_loop E (seg # segs) key off h = hashnr_loop E segs key off' (rec_hash_seg E rec seg h)"
    "key_cmp_loop E segs rec key off' = 0"
proof (cases "rec_null seg rec")
  case True
  show thesis by (rule key_cmp_hash_null [OF z True]) (rule that)
next
  case False
  note C = key_cmp_not_null [OF z False] and R = hashnr_not_null [OF key_cmp_not_null(1) [OF z False], of E segs h]
  have eq: "seg_type seg \<in> {HA_KEYTYPE_TEXT, HA_KEYTYPE_VARTEXT1} \<Longrightarrow> ci_strnncollsp (seg_charset seg) x y = 0 \<Longrightarrow>
      ci_hash_sort (seg_charset seg) h y = ci_hash_sort (seg_charset seg) h x" for x y
    using ok(1) unfolding seg_ok_def collation_ok_def by metis
  let ?o = "key_data seg off + seg_length seg"
  consider (bit) "is_bit seg" | (var) "\<not> is_bit seg" "seg_type seg = HA_KEYTYPE_VARTEXT1"
    | (other) "\<not> is_bit seg" "seg_type seg \<noteq> HA_KEYTYPE_VARTEXT1" by blast
  then show thesis
  proof cases
    case bit
    then show thesis using key_cmp_hash_bit [OF ok(1) _ bit z False, of h] ok(2) by (intro that [of 0]) simp_all
  next
    case var
    have "key_cmp_loop E segs rec key (?o + 2) = 0" using C(2) var by (simp add: Let_def add.commute add.left_commute split: if_splits)
    moreover have "hashnr_loop E (seg # segs) key off h = hashnr_loop E segs key (?o + 2) (rec_hash_seg E rec seg h)"
      unfolding R using C(2) var False eq by (auto simp: rec_hash_seg_def Let_def split: if_splits)
    ultimately show thesis by (rule that [rotated])
  next
    case other
    have "key_cmp_loop E segs rec key ?o = 0" using C(2) other by (cases "seg_type seg") (auto split: if_splits)
    moreover have "hashnr_loop E (seg # segs) key off h = hashnr_loop E segs key ?o (rec_hash_seg E rec seg h)"
      unfolding R using C(2) other False eq by (cases "seg_type seg") (auto simp: rec_hash_seg_def Let_def split: if_splits)
    ultimately show thesis by (rule that [rotated])
  qed
qed

lemma key_cmp_hash_loop:
  assumes "\<forall>seg \<in> set segs. seg_ok seg" "bits_last segs" "key_cmp_loop E segs rec key off = 0"
  shows "hashnr_loop E segs key off h = fold (rec_hash_seg E rec) segs h"
  using assms
proof (induction segs arbitrary: off h)
  case Nil
  then show ?case by simp
next
  case (Cons seg segs)
  have ok: "seg_ok seg" "is_bit seg \<longrightarrow> segs = []" using Cons.prems(1,2) by simp_all
  obtain off' where s: "hashnr_loop E (seg # segs) key off h = hashnr_loop E segs key off' (rec_hash_seg E rec seg h)"
    "key_cmp_loop E segs rec key off' = 0" by (rule key_cmp_hash_step [OF ok Cons.prems(3)])
  have "hashnr_loop E segs key off' (rec_hash_seg E rec seg h) = fold (rec_hash_seg E rec) segs (rec_hash_seg E rec seg h)"
    by (rule Cons.IH) (use Cons.prems(1,2) s(2) in simp_all)
  then show ?case using s(1) by (simp only: fold_simps)
qed

section \<open>The contract of the core is met\<close>

lemma fm_ops_key_callbacks:
  assumes ok: "\<forall>seg \<in> set (kd_seg kd). seg_ok seg" and bl: "bits_last (kd_seg kd)"
  shows "key_callbacks (fm_ops_hash_rec E kd) (fm_ops_hash_key E kd) (fm_ops_cmp_rec_rec E kd)
    (fm_ops_cmp_rec_key E kd) (fm_ops_has_null_part kd)"
proof
  fix a b c p
  show "fm_ops_cmp_rec_rec E kd a a = 0"
    using ok by (simp add: fm_ops_cmp_rec_rec_def rec_key_cmp_zero rec_cmp_seg_refl)
  show "fm_ops_cmp_rec_rec E kd b a = 0" if "fm_ops_cmp_rec_rec E kd a b = 0"
    using ok that by (auto simp: fm_ops_cmp_rec_rec_def rec_key_cmp_zero intro: rec_cmp_seg_sym)
  show "fm_ops_cmp_rec_rec E kd a c = 0"
    if "fm_ops_cmp_rec_rec E kd a b = 0" "fm_ops_cmp_rec_rec E kd b c = 0"
    using ok that by (auto simp: fm_ops_cmp_rec_rec_def rec_key_cmp_zero intro: rec_cmp_seg_trans)
  show "fm_ops_hash_rec E kd a = fm_ops_hash_rec E kd b" if "fm_ops_cmp_rec_rec E kd a b = 0"
    using rec_cmp_hash [OF ok] that by (simp add: fm_ops_cmp_rec_rec_def fm_ops_hash_rec_def)
  show "(fm_ops_has_null_part kd a \<noteq> 0) = (fm_ops_has_null_part kd b \<noteq> 0)"
    if "fm_ops_cmp_rec_rec E kd a b = 0"
    using that rec_cmp_null [of E a b]
    by (auto simp: fm_ops_cmp_rec_rec_def rec_key_cmp_zero fm_ops_has_null_part_def fm_if_null_in_key_def)
  show "fm_ops_hash_rec E kd a = fm_ops_hash_key E kd p" if "fm_ops_cmp_rec_key E kd a p = 0"
    using key_cmp_hash_loop [OF ok bl] that
    by (simp add: fm_ops_cmp_rec_key_def fm_key_cmp_def fm_ops_hash_rec_def fm_ops_hash_key_def
        fm_rec_hashnr_def fm_hashnr_def)
qed

text \<open>The key on one NOT NULL column of \<open>len\<close> bytes that is neither character data nor BIT,
  such as an integer: it meets the contract whatever the server functions do.\<close>

definition column_keydef :: "CHARSET_INFO \<Rightarrow> nat \<Rightarrow> nat \<Rightarrow> ha_flag set \<Rightarrow> FM_KEYDEF" where
  "column_keydef cs start len flag = \<lparr> kd_seg = [\<lparr> seg_type = HA_KEYTYPE_BINARY, seg_start = start,
     seg_length = len, seg_null_bit = 0, seg_null_pos = 0, seg_bit_start = 0, seg_bit_length = 0,
     seg_bit_pos = 0, seg_charset = cs \<rparr>], kd_flag = flag, kd_length = len \<rparr>"

interpretation column_key: key_callbacks "fm_ops_hash_rec E (column_keydef cs start len flag)"
    "fm_ops_hash_key E (column_keydef cs start len flag)" "fm_ops_cmp_rec_rec E (column_keydef cs start len flag)"
    "fm_ops_cmp_rec_key E (column_keydef cs start len flag)" "fm_ops_has_null_part (column_keydef cs start len flag)"
  for E cs start len flag
  by (rule fm_ops_key_callbacks) (simp_all add: column_keydef_def seg_ok_def is_bit_def)

lemma fm_key_ops_ok:
  assumes "\<forall>seg \<in> set (kd_seg kd). seg_ok seg" "bits_last (kd_seg kd)" "n \<noteq> 0"
  shows "key_ok (Some (fm_key_ops E kd, u, n))"
  using fm_ops_key_callbacks [OF assms(1,2)] assms(3) by (simp add: key_ok_def fm_key_ops_def)

section \<open>Packing\<close>

lemma length_bytes [simp]: "length (bytes buf off n) = n"
  by (simp add: bytes_def)

lemma bytes_middle:
  assumes "off = length pre" "n = length xs"
  shows "bytes (pre @ xs @ post) off n = xs"
  using assms by (intro nth_equalityI) (auto simp: bytes_def byte_at_def nth_append)

lemma byte_at_middle: "off = length pre \<Longrightarrow> byte_at (pre @ x # post) off = x"
  by (simp add: byte_at_def)

text \<open>Columns that are packed in the layout that is compared: single-byte characters, and a VARCHAR with
  a two-byte length that is not above the length of the key part.\<close>

definition packed_seg :: "my_env \<Rightarrow> image \<Rightarrow> HA_KEYSEG \<Rightarrow> bool" where
  "packed_seg E rec seg = (seg_ok seg \<and> mbmaxlen (seg_charset seg) \<le> 1 \<and>
     (seg_type seg = HA_KEYTYPE_VARTEXT1 \<longrightarrow> seg_bit_start seg = 2 \<and> rec_prefix E seg rec (seg_start seg) \<le> seg_length seg))"

definition pack_null :: "image \<Rightarrow> HA_KEYSEG \<Rightarrow> image" where
  "pack_null rec seg = (if seg_null_bit seg \<noteq> 0 then [if rec_null seg rec then 1 else 0] else [])"

definition pack_data :: "my_env \<Rightarrow> image \<Rightarrow> HA_KEYSEG \<Rightarrow> image" where
  "pack_data E rec seg =
     (if seg_type seg = HA_KEYTYPE_VARTEXT1 then bytes rec (seg_start seg) (seg_length seg + 2)
      else if is_bit seg then seg_bits E seg rec # bytes rec (seg_start seg) (seg_length seg - 1)
      else bytes rec (seg_start seg) (seg_length seg))"

lemma packed_seg_parts:
  assumes "packed_seg E rec seg"
  shows "make_key_seg E rec seg = pack_null rec seg @ pack_data E rec seg"
    "length (pack_data E rec seg) = seg_length seg + (if seg_type seg = HA_KEYTYPE_VARTEXT1 then 2 else 0)"
    "length (pack_null rec seg) = (if seg_null_bit seg \<noteq> 0 then 1 else 0)" "text_len seg buf pos = seg_length seg"
proof -
  show tl: "text_len seg buf pos = seg_length seg" for buf pos
    using assms by (simp add: packed_seg_def text_len_def Let_def)
  show "make_key_seg E rec seg = pack_null rec seg @ pack_data E rec seg"
    using assms tl by (simp add: make_key_seg_def pack_null_def pack_data_def packed_seg_def Let_def)
  show "length (pack_data E rec seg) = seg_length seg + (if seg_type seg = HA_KEYTYPE_VARTEXT1 then 2 else 0)"
    using assms by (auto simp: pack_data_def packed_seg_def seg_ok_def)
  show "length (pack_null rec seg) = (if seg_null_bit seg \<noteq> 0 then 1 else 0)" by (simp add: pack_null_def)
qed

lemma bytes_sub:
  assumes "bytes key k n = bytes rec r n" "i + m \<le> n"
  shows "bytes key (k + i) m = bytes rec (r + i) m"
proof -
  have "byte_at key (k + j) = byte_at rec (r + j)" if "j < n" for j
    using arg_cong [OF assms(1), of "\<lambda>l. l ! j"] that by (simp add: bytes_def)
  then show ?thesis using assms(2) by (auto simp: bytes_def intro!: nth_equalityI) (metis add.assoc add_strict_left_mono order_less_le_trans)
qed

text \<open>The comparison of a VARCHAR segment with its packed bytes.\<close>

lemma packed_varchar:
  assumes "packed_seg E rec seg" "seg_type seg = HA_KEYTYPE_VARTEXT1"
    and d: "bytes key k (seg_length seg + 2) = bytes rec (seg_start seg) (seg_length seg + 2)"
  shows "bytes rec (seg_start seg + 2) (var_len_rec E seg rec (seg_start seg) (seg_start seg + 2)) =
    bytes key (k + 2) (var_len_key E seg key k)"
proof -
  have b: "byte_at key k = byte_at rec (seg_start seg)" "byte_at key (k + 1) = byte_at rec (seg_start seg + 1)"
    using bytes_sub [OF d, of 0 1] bytes_sub [OF d, of 1 1] by (simp_all add: bytes_def)
  let ?n = "uint2korr E (byte_at rec (seg_start seg)) (byte_at rec (seg_start seg + 1))"
  have n: "?n \<le> seg_length seg" "mbmaxlen (seg_charset seg) \<le> 1"
    using assms(1,2) by (auto simp: packed_seg_def rec_prefix_def)
  then have "var_len_rec E seg rec (seg_start seg) (seg_start seg + 2) = ?n" "var_len_key E seg key k = ?n"
    using assms(1,2) b by (auto simp: packed_seg_def var_len_rec_def var_len_key_def rec_prefix_def Let_def)
  then show ?thesis using bytes_sub [OF d, of 2 ?n] n(1) by simp
qed

lemma make_key_step:
  assumes pk: "packed_seg E rec seg" and last_bit: "is_bit seg \<longrightarrow> segs = []"
    and key: "key = pre @ make_key_seg E rec seg @ post"
    and rest: "key_cmp_loop E segs rec key (length (pre @ make_key_seg E rec seg)) = 0"
  shows "key_cmp_loop E (seg # segs) rec key (length pre) = 0"
proof -
  note P = packed_seg_parts [OF pk]
  let ?v = "seg_type seg = HA_KEYTYPE_VARTEXT1"
  define k where "k = (if seg_null_bit seg \<noteq> 0 then length pre + 1 else length pre)"
  have k: "k = length (pre @ pack_null rec seg)" by (simp add: k_def P(3))
  have kd: "key = (pre @ pack_null rec seg) @ pack_data E rec seg @ post" by (simp add: key P(1))
  have data: "bytes key k (length (pack_data E rec seg)) = pack_data E rec seg"
    unfolding kd by (rule bytes_middle) (simp_all only: k)
  have next_seg: "key_cmp_loop E segs rec key (k + (if ?v then 2 else 0) + seg_length seg) = 0"
    using rest P(2) by (simp add: k P(1) ac_simps)
  have nul: "seg_null_bit seg \<noteq> 0 \<Longrightarrow> byte_at key (length pre) = (if rec_null seg rec then 1 else 0)"
    by (simp add: kd pack_null_def byte_at_middle)
  have ok: "seg_ok seg" using pk by (simp add: packed_seg_def)
  show ?thesis
  proof (cases "rec_null seg rec")
    case True
    then have "seg_null_bit seg \<noteq> 0" by (simp add: rec_null_def)
    then show ?thesis using True nul next_seg by (cases ?v) (simp_all add: Let_def k_def ac_simps)
  next
    case False
    have c: "seg_null_bit seg = 0 \<or> unat (byte_at key (length pre)) = 0"
      using nul False by (cases "seg_null_bit seg = 0") simp_all
    note step = False c next_seg k_def [symmetric]
    show ?thesis
    proof (cases "is_bit seg")
      case bit: True
      then obtain m where m: "seg_type seg = HA_KEYTYPE_BIT" "segs = []" "seg_length seg = Suc m"
        using last_bit ok by (cases "seg_length seg") (auto simp: is_bit_def seg_ok_def)
      then have "byte_at key k = seg_bits E seg rec" "bytes key (Suc k) m = bytes rec (seg_start seg) m"
        using data bit P(2) by (auto simp: bytes_Suc pack_data_def)
      then show ?thesis using step bit m by (simp add: Let_def)
    next
      case nobit: False
      have refl: "seg_type seg = HA_KEYTYPE_TEXT \<or> ?v \<Longrightarrow> ci_strnncollsp (seg_charset seg) x x = 0" for x
        using ok by (auto simp: seg_ok_def collation_ok_def)
      have b2: "?v \<Longrightarrow> seg_bit_start seg = 2" using pk by (simp add: packed_seg_def)
      show ?thesis
        using step nobit data refl P(2,4) b2 packed_varchar [OF pk, of key k]
        by (cases "seg_type seg") (auto simp: Let_def pack_data_def ac_simps)
    qed
  qed
qed

lemma make_key_loop:
  assumes "\<forall>seg \<in> set segs. packed_seg E rec seg" "bits_last segs"
  shows "key_cmp_loop E segs rec (pre @ concat (map (make_key_seg E rec) segs)) (length pre) = 0"
  using assms
proof (induction segs arbitrary: pre)
  case (Cons seg segs)
  let ?rest = "concat (map (make_key_seg E rec) segs)"
  have "key_cmp_loop E segs rec ((pre @ make_key_seg E rec seg) @ ?rest) (length (pre @ make_key_seg E rec seg)) = 0"
    using Cons.prems by (intro Cons.IH) simp_all
  then show ?case
    using Cons.prems make_key_step [of E rec seg segs "pre @ make_key_seg E rec seg @ ?rest" pre ?rest] by simp
qed simp

section \<open>What the core can rely on\<close>

text \<open>C25. The contract of the callbacks, under two conditions. Every segment is as the server makes them:
  the collation of a character segment is an equivalence that hashes alike what it compares equal, a
  VARCHAR has one or two length bytes, a BIT segment is not empty. And no BIT segment with odd bits
  comes before another segment, since \<^verbatim>\<open>fm_key_cmp\<close> misses the next segment then. Under them: comparing
  records is an equivalence, records that compare equal have the same hash and the same null parts,
  and a record that matches a packed key has the hash of the key.\<close>

theorem key_hash_contract:
  assumes "\<forall>seg \<in> set (kd_seg kd). seg_ok seg" "bits_last (kd_seg kd)"
  shows "fm_rec_key_cmp E kd a a = 0 \<and>
    (fm_rec_key_cmp E kd a b = 0 \<longrightarrow> fm_rec_key_cmp E kd b a = 0) \<and>
    (fm_rec_key_cmp E kd a b = 0 \<longrightarrow> fm_rec_key_cmp E kd b c = 0 \<longrightarrow> fm_rec_key_cmp E kd a c = 0) \<and>
    (fm_rec_key_cmp E kd a b = 0 \<longrightarrow> fm_ops_hash_rec E kd a = fm_ops_hash_rec E kd b \<and>
       fm_if_null_in_key kd a = fm_if_null_in_key kd b) \<and>
    (fm_key_cmp E kd a key = 0 \<longrightarrow> fm_ops_hash_rec E kd a = fm_ops_hash_key E kd key)"
proof -
  note K = fm_ops_key_callbacks [OF assms, of E]
  note C = key_callbacks.cmp_refl [OF K, of a] key_callbacks.cmp_sym [OF K, of a b] key_callbacks.cmp_trans [OF K, of a b c]
    key_callbacks.cmp_hash [OF K, of a b] key_callbacks.cmp_null [OF K, of a b] key_callbacks.key_hash [OF K, of a key]
  show ?thesis
    using C unfolding fm_ops_cmp_rec_rec_def fm_ops_cmp_rec_key_def fm_ops_has_null_part_def
    by (auto simp: fm_if_null_in_key_def split: if_splits)
qed

text \<open>C26. Packing, for keys of single-byte character columns in which a BIT segment with odd bits comes
  last only, a VARCHAR column has two length bytes and its value is not longer than the key part: the
  key that is packed from a record matches that record, and has its hash. Outside of these conditions
  it fails: the last theorems of this theory show it for a BIT segment that is not last and for a VARCHAR
  with a one-byte length.\<close>

theorem make_key_matches:
  assumes "\<forall>seg \<in> set (kd_seg kd). packed_seg E rec seg" "bits_last (kd_seg kd)"
  shows "fm_key_cmp E kd rec (fm_make_key E kd rec) = 0 \<and>
    fm_ops_hash_key E kd (fm_make_key E kd rec) = fm_ops_hash_rec E kd rec"
proof -
  have z: "fm_key_cmp E kd rec (fm_make_key E kd rec) = 0"
    using make_key_loop [OF assms, of "[]"] by (simp add: fm_key_cmp_def fm_make_key_def)
  have "\<forall>seg \<in> set (kd_seg kd). seg_ok seg" using assms(1) by (simp add: packed_seg_def)
  note K = fm_ops_key_callbacks [OF this assms(2), of E]
  from z key_callbacks.key_hash [OF K, of rec "fm_make_key E kd rec"] show ?thesis
    by (simp add: fm_ops_cmp_rec_key_def)
qed

text \<open>Segments for concrete keys: a nullable integer column, a bit column, a short and a long VARCHAR.\<close>

definition bin_charset :: CHARSET_INFO where
  "bin_charset = \<lparr> mbmaxlen = 1, ci_charpos = (\<lambda>b n. n),
     ci_hash_sort = (\<lambda>h b. (fst h + sum_list (map ucast b), snd h)),
     ci_strnncollsp = (\<lambda>a b. if a = b then 0 else 1) \<rparr>"

definition sum_env :: my_env where
  "sum_env = \<lparr> my_hasher_mysql5x = (1, 4), my_hash_add = (\<lambda>h b. (fst h + ucast b, snd h)),
     get_rec_bits = (\<lambda>r p s l. byte_at r p AND 1), uint2korr = (\<lambda>a b. unat a + 256 * unat b) \<rparr>"

definition plain_seg :: "ha_keytype \<Rightarrow> nat \<Rightarrow> nat \<Rightarrow> HA_KEYSEG" where
  "plain_seg ty start len = \<lparr> seg_type = ty, seg_start = start, seg_length = len, seg_null_bit = 0, seg_null_pos = 0,
     seg_bit_start = 0, seg_bit_length = 0, seg_bit_pos = 0, seg_charset = bin_charset \<rparr>"

definition null_keydef :: FM_KEYDEF where
  "null_keydef = \<lparr> kd_seg = [(plain_seg HA_KEYTYPE_BINARY 1 2)\<lparr> seg_null_bit := 1 \<rparr>, plain_seg HA_KEYTYPE_TEXT 3 1],
     kd_flag = {HA_NOSAME}, kd_length = 4 \<rparr>"

definition bit_keydef :: FM_KEYDEF where
  "bit_keydef = \<lparr> kd_seg = [(plain_seg HA_KEYTYPE_BIT 1 1)\<lparr> seg_bit_length := 1, seg_bit_pos := 0 \<rparr>,
     plain_seg HA_KEYTYPE_BINARY 1 1], kd_flag = {HA_NOSAME}, kd_length = 2 \<rparr>"

definition varchar_keydef :: FM_KEYDEF where
  "varchar_keydef = \<lparr> kd_seg = [(plain_seg HA_KEYTYPE_VARTEXT1 0 2)\<lparr> seg_bit_start := 1 \<rparr>], kd_flag = {HA_NOSAME}, kd_length = 4 \<rparr>"

definition pair_keydef :: FM_KEYDEF where
  "pair_keydef = \<lparr> kd_seg = [(plain_seg HA_KEYTYPE_BINARY 1 2)\<lparr> seg_null_bit := 1 \<rparr>,
     (plain_seg HA_KEYTYPE_VARTEXT1 3 2)\<lparr> seg_bit_start := 2 \<rparr>], kd_flag = {HA_NOSAME}, kd_length = 7 \<rparr>"

lemma bin_collation: "collation_ok bin_charset"
  by (simp add: collation_ok_def bin_charset_def split: if_splits)

lemmas seg_eval = plain_seg_def bin_charset_def sum_env_def null_keydef_def bit_keydef_def varchar_keydef_def
  pair_keydef_def

lemma null_keydef_ok: "\<forall>seg \<in> set (kd_seg null_keydef). seg_ok seg" "bits_last (kd_seg null_keydef)"
  using bin_collation by (simp_all add: null_keydef_def plain_seg_def seg_ok_def is_bit_def)

lemma pair_keydef_ok:
  "\<forall>seg \<in> set (kd_seg pair_keydef). packed_seg sum_env [0, 5, 6, 1, 0, 97, 0] seg" "bits_last (kd_seg pair_keydef)"
  using bin_collation
  by (simp_all add: pair_keydef_def plain_seg_def packed_seg_def seg_ok_def is_bit_def rec_prefix_def byte_at_def)
    (simp_all add: bin_charset_def sum_env_def)

theorem key_hash_contract_witness:
  "fm_ops_hash_rec sum_env null_keydef [1, 5, 6, 7] = fm_ops_hash_key sum_env null_keydef [1, 0, 0, 7]"
proof -
  have "fm_key_cmp sum_env null_keydef [1, 5, 6, 7] [1, 0, 0, 7] = 0"
    by (simp add: fm_key_cmp_def seg_eval rec_null_def byte_at_def bytes_def text_len_def is_bit_def)
  with key_hash_contract [OF null_keydef_ok, of sum_env "[1, 5, 6, 7]" "[]" "[]" "[1, 0, 0, 7]"] show ?thesis by simp
qed

theorem make_key_matches_witness:
  "fm_make_key sum_env pair_keydef [0, 5, 6, 1, 0, 97, 0] = [0, 5, 6, 1, 0, 97, 0] \<and>
   fm_key_cmp sum_env pair_keydef [0, 5, 6, 1, 0, 97, 0] [0, 5, 6, 1, 0, 97, 0] = 0"
proof -
  have "fm_make_key sum_env pair_keydef [0, 5, 6, 1, 0, 97, 0] = [0, 5, 6, 1, 0, 97, 0]"
    by (simp add: fm_make_key_def make_key_seg_def seg_eval rec_null_def byte_at_def bytes_def text_len_def is_bit_def upt_rec)
  with make_key_matches [OF pair_keydef_ok] show ?thesis by simp
qed

text \<open>A BIT segment that is not last. The comparison steps one byte too far over it, so a record does not match
  the key that was packed from it.\<close>

theorem bit_key_mismatch:
  "fm_make_key sum_env bit_keydef [1, 9] = [1, 9] \<and> fm_key_cmp sum_env bit_keydef [1, 9] (fm_make_key sum_env bit_keydef [1, 9]) = 1"
proof -
  have "fm_make_key sum_env bit_keydef [1, 9] = [1, 9]"
    by (simp add: fm_make_key_def make_key_seg_def seg_eval rec_null_def byte_at_def bytes_def text_len_def is_bit_def seg_bits_def upt_rec)
  then show ?thesis
    by (simp add: fm_key_cmp_def seg_eval rec_null_def byte_at_def bytes_def text_len_def is_bit_def seg_bits_def upt_rec)
qed

text \<open>A VARCHAR column with a one-byte length. Packing copies the one-byte length, the comparison reads two: the
  record \<open>ab\<close> does not match the key that was packed from it.\<close>

theorem varchar_key_mismatch:
  "fm_make_key sum_env varchar_keydef [2, 97, 98] = [2, 97, 98] \<and>
   fm_key_cmp sum_env varchar_keydef [2, 97, 98] (fm_make_key sum_env varchar_keydef [2, 97, 98]) = 1"
proof -
  have "fm_make_key sum_env varchar_keydef [2, 97, 98] = [2, 97, 98]"
    by (simp add: fm_make_key_def make_key_seg_def seg_eval rec_null_def byte_at_def bytes_def text_len_def is_bit_def seg_bits_def upt_rec)
  moreover have "[97, 98] \<noteq> bytes [2, 97, 98] (Suc (Suc 0)) 24834"
  proof
    assume "[97, 98] = bytes [2, 97, 98] (Suc (Suc 0)) 24834"
    then have "length [97 :: fm_u8, 98] = length (bytes [2, 97, 98] (Suc (Suc 0)) 24834)" by metis
    then show False by simp
  qed
  moreover have "bytes [2, 97, 98] 1 2 = [97, 98]" by (simp add: bytes_def byte_at_def upt_rec)
  ultimately show ?thesis
    by (simp add: fm_key_cmp_def varchar_keydef_def plain_seg_def rec_null_def var_len_rec_def var_len_key_def
        rec_prefix_def Let_def) (simp add: bin_charset_def sum_env_def byte_at_def)
qed

end
