(* ===== verification/FM_AutoInc.thy ===== *)
theory FM_AutoInc
  imports FM_Slots
begin

text \<open>
  The auto-increment counter of a share: \<^verbatim>\<open>fm_core_auto_inc_reserve\<close> and
  \<^verbatim>\<open>fm_core_auto_inc_observe\<close>, in 64-bit arithmetic. First one round of the reservation loop
  as a function of the counter value it loaded, then the calls of one thread, then any
  interleaving of threads as a step relation on the shared counter.
\<close>

section \<open>The operations\<close>

definition nonzero :: "fm_u64 \<Rightarrow> fm_u64" where
  "nonzero x = (if x = 0 then 1 else x)"

text \<open>The first value of the interval, from the counter value \<open>cur\<close>; \<open>None\<close> is a return of 0.\<close>

definition auto_inc_first :: "fm_u64 \<Rightarrow> fm_u64 \<Rightarrow> fm_u64 \<Rightarrow> fm_u64 option" where
  "auto_inc_first cur offset inc =
     (let v = cur + 1 in
      if v = 0 then None
      else if inc > 1 then
        let r = (if v > offset then v - offset else 0);
            steps = (r + inc - 1) div inc;
            v2 = offset + steps * inc
        in if v2 < v then None
           else if v2 \<le> cur then
             let v = cur + inc
             in if v \<le> cur then None
                else let steps2 = (if v > offset then v - offset else 0);
                         v3 = offset + ((steps2 + inc - 1) div inc) * inc
                     in if v3 < v \<or> v3 = 0 then None else Some v3
           else Some v2
      else Some v)"

text \<open>The first and the last value, up to the compare-and-swap.\<close>

definition auto_inc_round :: "fm_u64 \<Rightarrow> fm_u64 \<Rightarrow> fm_u64 \<Rightarrow> fm_u64 \<Rightarrow> (fm_u64 \<times> fm_u64) option" where
  "auto_inc_round cur offset inc nb = do {
     v \<leftarrow> auto_inc_first cur offset inc;
     let lst = v + (nb - 1) * inc;
     if lst < v then None else Some (v, lst) }"

text \<open>The loop of one thread alone: the weak compare-and-swap fails \<open>n\<close> times spuriously before it
  succeeds, and the counter is the same at every load. Failures because another thread changed the
  counter are steps of \<open>ai_step\<close> below, where every thread runs this loop against the others.
  Result: share, return value, \<^verbatim>\<open>*reserved\<close>.\<close>

fun reserve_loop :: "nat \<Rightarrow> FM_SHARE_CORE \<Rightarrow> fm_u64 \<Rightarrow> fm_u64 \<Rightarrow> fm_u64 \<Rightarrow> fm_u64
    \<Rightarrow> FM_SHARE_CORE \<times> fm_u64 \<times> fm_u64" where
  "reserve_loop n s offset inc nb reserved =
     (case auto_inc_round (sc_auto_inc s) offset inc nb of
        None \<Rightarrow> (s, 0, reserved)
      | Some (v, lst) \<Rightarrow>
          (case n of 0 \<Rightarrow> (s\<lparr> sc_auto_inc := lst \<rparr>, v, nb)
           | Suc m \<Rightarrow> reserve_loop m s offset inc nb reserved))"

definition fm_core_auto_inc_reserve ::
  "nat \<Rightarrow> FM_SHARE_CORE \<Rightarrow> fm_u64 \<Rightarrow> fm_u64 \<Rightarrow> fm_u64 \<Rightarrow> fm_u64 \<Rightarrow> FM_SHARE_CORE \<times> fm_u64 \<times> fm_u64" where
  "fm_core_auto_inc_reserve n s offset inc nb reserved =
     reserve_loop n s (nonzero offset) (nonzero inc) (nonzero nb) reserved"

text \<open>The same for the loop of \<^verbatim>\<open>fm_core_auto_inc_observe\<close>.\<close>

fun observe_loop :: "nat \<Rightarrow> FM_SHARE_CORE \<Rightarrow> fm_u64 \<Rightarrow> FM_SHARE_CORE" where
  "observe_loop n s obs =
     (if obs > sc_auto_inc s
      then (case n of 0 \<Rightarrow> s\<lparr> sc_auto_inc := obs \<rparr> | Suc m \<Rightarrow> observe_loop m s obs)
      else s)"

definition fm_core_auto_inc_observe :: "nat \<Rightarrow> FM_SHARE_CORE \<Rightarrow> fm_u64 \<Rightarrow> FM_SHARE_CORE" where
  "fm_core_auto_inc_observe n s v = observe_loop n s v"

declare reserve_loop.simps [simp del] observe_loop.simps [simp del]

section \<open>One round\<close>

lemma unat_add_small: "unat (a :: fm_u64) + unat b < 2 ^ 64 \<Longrightarrow> unat (a + b) = unat a + unat b"
  by (simp add: unat_word_ariths)

lemma unat_mult_small: "unat (a :: fm_u64) * unat b < 2 ^ 64 \<Longrightarrow> unat (a * b) = unat a * unat b"
  by (simp add: unat_word_ariths)

lemma unat_u64: "unat (a :: fm_u64) < 2 ^ 64"
  using unsigned_less [of a] by simp

lemma round_up_nat:
  fixes r i :: nat
  assumes "0 < i"
  shows "r \<le> (r + i - 1) div i * i" "(r + i - 1) div i * i < r + i"
proof -
  have e: "(r + i - 1) div i * i + (r + i - 1) mod i = r + i - 1" by (rule div_mult_mod_eq)
  moreover have "(r + i - 1) mod i < i" using assms by simp
  ultimately show "r \<le> (r + i - 1) div i * i" "(r + i - 1) div i * i < r + i" using assms by linarith+
qed

text \<open>The value is the least one above the counter in the progression \<open>offset, offset + inc, \<dots>\<close>,
  in unbounded arithmetic: no wrap-around goes unnoticed in it.\<close>

lemma auto_inc_first_inc:
  assumes inc: "1 < inc" and v: "auto_inc_first cur offset inc = Some v"
  shows "unat cur < unat v" "unat offset \<le> unat v" "unat inc dvd unat v - unat offset"
    "\<And>x. unat cur < x \<Longrightarrow> unat offset \<le> x \<Longrightarrow> unat inc dvd x - unat offset \<Longrightarrow> unat v \<le> x"
proof -
  define V P I where "V = unat cur + 1" and "P = unat offset" and "I = unat inc"
  define R where "R = V - P"
  define r where "r = (if cur + 1 > offset then cur + 1 - offset else 0)"
  define v2 where "v2 = offset + (r + inc - 1) div inc * inc"
  have I: "1 < I" "I < 2 ^ 64" using inc unat_u64 by (auto simp: I_def word_less_nat_alt)
  have nz: "cur + 1 \<noteq> 0" using v by (auto simp: auto_inc_first_def Let_def split: if_splits)
  then have V: "unat (cur + 1) = V" "V < 2 ^ 64"
    using unat_u64 [of "cur + 1"] by (simp_all add: V_def unat_eq_zero unatSuc add.commute)
  have r: "unat r = R"
    using V(1) by (auto simp: r_def R_def P_def word_less_nat_alt unat_sub word_le_nat_alt)
  have R: "R < 2 ^ 64" using V(2) by (simp add: R_def)
  have v2: "\<not> v2 < cur + 1"
    using v nz inc by (auto simp: auto_inc_first_def v2_def r_def Let_def split: if_splits)
  then have "\<not> v2 \<le> cur" using V nz by (simp add: word_less_nat_alt word_le_nat_alt V_def)
  with v nz inc have vv: "v = v2"
    by (auto simp: auto_inc_first_def v2_def r_def Let_def split: if_splits)
  have ri: "r + inc - 1 = of_nat (R + I - 1)"
    using I(1) r by (simp add: I_def of_nat_diff flip: r)
  define S where "S = (R + I - 1) mod 2 ^ 64 div I"
  have S: "unat ((r + inc - 1) div inc) = S"
    unfolding ri S_def by (simp add: unat_div unsigned_of_nat take_bit_eq_mod I_def)
  have T: "unat v2 = (P + S * I) mod 2 ^ 64"
    unfolding v2_def using S by (simp add: unat_word_ariths unat_div P_def I_def mod_simps)
  have nowrap: "R + I - 1 < 2 ^ 64"
  proof (rule ccontr)
    assume "\<not> R + I - 1 < 2 ^ 64"
    then have "(R + I - 1) mod 2 ^ 64 = R + I - 1 - 2 ^ 64" "R + I - 1 - 2 ^ 64 < I" "0 < R"
      using R I by (auto simp: mod_if)
    then have "S = 0" by (simp add: S_def)
    with T have "unat v2 = P" using unat_u64 by (simp add: P_def)
    with v2 V \<open>0 < R\<close> show False by (simp add: word_less_nat_alt R_def)
  qed
  then have Sd: "S = (R + I - 1) div I" by (simp add: S_def)
  have up: "R \<le> S * I" "S * I < R + I" using round_up_nat [of I R] I(1) by (simp_all add: Sd)
  have "P + S * I < 2 ^ 64"
  proof (rule ccontr)
    assume big: "\<not> P + S * I < 2 ^ 64"
    then have "P < V" using up(2) I unat_u64 [of offset] R_def P_def Sd
      by (metis add.right_neutral diff_is_0_eq div_less linorder_not_le mult_zero_left One_nat_def
          add_0 diff_less less_trans zero_less_one)
    then have "P + S * I < V + I" using up(2) by (simp add: R_def)
    then have "(P + S * I) mod 2 ^ 64 < V" using big I V(2) by (auto simp: mod_if)
    with T v2 V(1) show False by (simp add: word_less_nat_alt)
  qed
  then have val: "unat v = P + S * I" using T vv by simp
  show "unat cur < unat v" using val up(1) by (simp add: R_def V_def)
  show "unat offset \<le> unat v" using val by (simp add: P_def)
  show "unat inc dvd unat v - unat offset" using val by (simp add: P_def I_def)
  show "unat v \<le> x" if "unat cur < x" "unat offset \<le> x" "unat inc dvd x - unat offset" for x
  proof -
    from that(3) obtain t where t: "x - P = I * t" by (auto simp: P_def I_def dvd_def)
    have "R \<le> I * t" using that(1,2) t by (simp add: R_def V_def P_def)
    then have "S * I < (t + 1) * I" using up(2) by (simp add: algebra_simps)
    then have "S \<le> t" by (simp only: mult_less_cancel2) simp
    then have "I * S \<le> I * t" by simp
    then have "P + S * I \<le> P + (x - P)" unfolding t by (simp add: mult.commute)
    then show ?thesis using val that(2) by (simp add: P_def)
  qed
qed

lemma auto_inc_first_above:
  assumes "inc \<noteq> 0" "auto_inc_first cur offset inc = Some v"
  shows "unat cur < unat v"
proof (cases "1 < inc")
  case True
  then show ?thesis using assms(2) by (rule auto_inc_first_inc)
next
  case False
  then have "v = cur + 1" "cur + 1 \<noteq> 0"
    using assms by (auto simp: auto_inc_first_def Let_def split: if_splits)
  then show ?thesis by (simp add: unatSuc add.commute)
qed

lemma auto_inc_round_above:
  assumes "inc \<noteq> 0" "auto_inc_round cur offset inc nb = Some (v, lst)"
  shows "unat cur < unat v" "unat v \<le> unat lst" "lst = v + (nb - 1) * inc"
proof -
  from assms(2) have a: "auto_inc_first cur offset inc = Some v" "lst = v + (nb - 1) * inc" "\<not> lst < v"
    by (auto simp: auto_inc_round_def Let_def split: Option.bind_splits if_splits)
  from auto_inc_first_above [OF assms(1) a(1)] show "unat cur < unat v" .
  from a(3) show "unat v \<le> unat lst" by (simp add: word_less_nat_alt)
  from a(2) show "lst = v + (nb - 1) * inc" .
qed

section \<open>One thread\<close>

lemma reserve_loop_spurious: "reserve_loop n s offset inc nb reserved = reserve_loop 0 s offset inc nb reserved"
proof (induction n)
  case (Suc n)
  then show ?case
    by (subst reserve_loop.simps, subst (2) reserve_loop.simps, subst (asm) (2) reserve_loop.simps)
      (auto split: option.splits)
qed simp

lemma observe_loop_max: "sc_auto_inc (observe_loop n s v) = max (sc_auto_inc s) v"
proof (induction n)
  case 0
  then show ?case by (subst observe_loop.simps) (auto simp: max_def)
next
  case (Suc n)
  then show ?case by (subst observe_loop.simps) (auto simp: max_def)
qed

section \<open>Any number of threads\<close>

text \<open>A thread is outside of the function, about to load the counter, or between the load and
  the compare-and-swap. The shared state also keeps the intervals granted so far, the last one
  first: first value, increment, count.\<close>

datatype ai_pc = Outside | Start fm_u64 fm_u64 fm_u64 | Loaded fm_u64 fm_u64 fm_u64 fm_u64

record ai_state =
  ai_counter :: fm_u64
  ai_pcs :: "nat \<Rightarrow> ai_pc"
  ai_grants :: "(fm_u64 \<times> fm_u64 \<times> fm_u64) list"

inductive ai_step :: "ai_state \<Rightarrow> ai_state \<Rightarrow> bool" where
  call: "ai_pcs st t = Outside \<Longrightarrow>
    ai_step st (st\<lparr> ai_pcs := (ai_pcs st)(t := Start (nonzero offset) (nonzero inc) (nonzero nb)) \<rparr>)"
| load: "ai_pcs st t = Start offset inc nb \<Longrightarrow>
    ai_step st (st\<lparr> ai_pcs := (ai_pcs st)(t := Loaded (ai_counter st) offset inc nb) \<rparr>)"
| overflow: "ai_pcs st t = Loaded cur offset inc nb \<Longrightarrow> auto_inc_round cur offset inc nb = None \<Longrightarrow>
    ai_step st (st\<lparr> ai_pcs := (ai_pcs st)(t := Outside) \<rparr>)"
| cas_ok: "ai_pcs st t = Loaded cur offset inc nb \<Longrightarrow>
    auto_inc_round cur offset inc nb = Some (v, lst) \<Longrightarrow> ai_counter st = cur \<Longrightarrow>
    ai_step st (st\<lparr> ai_counter := lst, ai_pcs := (ai_pcs st)(t := Outside),
      ai_grants := (v, inc, nb) # ai_grants st \<rparr>)"
| cas_fail: "ai_pcs st t = Loaded cur offset inc nb \<Longrightarrow>
    auto_inc_round cur offset inc nb = Some (v, lst) \<Longrightarrow>
    ai_step st (st\<lparr> ai_pcs := (ai_pcs st)(t := Start offset inc nb) \<rparr>)"
| observe: "ai_counter st < v \<Longrightarrow> ai_step st (st\<lparr> ai_counter := v \<rparr>)"

definition ai_init :: "fm_u64 \<Rightarrow> ai_state" where
  "ai_init c = \<lparr> ai_counter = c, ai_pcs = (\<lambda>_. Outside), ai_grants = [] \<rparr>"

definition interval :: "fm_u64 \<times> fm_u64 \<times> fm_u64 \<Rightarrow> nat set" where
  "interval g = (case g of (v, inc, nb) \<Rightarrow> {unat v + j * unat inc | j. j < unat nb})"

text \<open>The interval ends below \<open>2 ^ 64\<close>: the product \<^verbatim>\<open>(nb - 1) * inc\<close> did not wrap.\<close>

definition fits :: "fm_u64 \<times> fm_u64 \<times> fm_u64 \<Rightarrow> bool" where
  "fits g = (case g of (v, inc, nb) \<Rightarrow> unat v + (unat nb - 1) * unat inc < 2 ^ 64)"

definition pc_ok :: "ai_pc \<Rightarrow> bool" where
  "pc_ok p = (case p of Outside \<Rightarrow> True | Start offset inc nb \<Rightarrow> inc \<noteq> 0 \<and> nb \<noteq> 0
     | Loaded cur offset inc nb \<Rightarrow> inc \<noteq> 0 \<and> nb \<noteq> 0)"

definition ai_inv :: "ai_state \<Rightarrow> bool" where
  "ai_inv st = ((\<forall>t. pc_ok (ai_pcs st t)) \<and>
     (\<forall>g \<in> set (ai_grants st). fits g \<longrightarrow> (\<forall>x \<in> interval g. x \<le> unat (ai_counter st))) \<and>
     sorted_wrt (\<lambda>new old. fits old \<longrightarrow> interval new \<inter> interval old = {}) (ai_grants st))"

lemma fits_last:
  assumes "fits (v, inc, nb)" "nb \<noteq> 0"
  shows "unat (v + (nb - 1) * inc) = unat v + (unat nb - 1) * unat inc"
proof -
  have u: "unat (nb - 1) = unat nb - 1" using assms(2) by (simp add: unat_minus_one)
  then have "unat ((nb - 1) * inc) = (unat nb - 1) * unat inc"
    using assms(1) by (subst unat_mult_small) (auto simp: fits_def)
  then show ?thesis using assms(1) by (subst unat_add_small) (auto simp: fits_def)
qed

lemma interval_bounds:
  assumes "x \<in> interval (v, inc, nb)"
  shows "unat v \<le> x" "x \<le> unat v + (unat nb - 1) * unat inc"
proof -
  from assms obtain j where j: "x = unat v + j * unat inc" "j < unat nb" by (auto simp: interval_def)
  then have "j * unat inc \<le> (unat nb - 1) * unat inc" by (intro mult_right_mono) auto
  with j show "unat v \<le> x" "x \<le> unat v + (unat nb - 1) * unat inc" by auto
qed

lemma ai_step_inv: "ai_step st st' \<Longrightarrow> ai_inv st \<Longrightarrow> ai_inv st'"
proof (induction rule: ai_step.induct)
  case (call st t offset inc nb)
  then show ?case by (auto simp: ai_inv_def pc_ok_def nonzero_def)
next
  case (load st t offset inc nb)
  then have "pc_ok (Loaded (ai_counter st) offset inc nb)" by (auto simp: ai_inv_def pc_ok_def dest: spec [of _ t])
  with load show ?case by (auto simp: ai_inv_def)
next
  case (overflow st t cur offset inc nb)
  then show ?case by (auto simp: ai_inv_def pc_ok_def)
next
  case (cas_ok st t cur offset inc nb v lst)
  have nz: "inc \<noteq> 0" "nb \<noteq> 0" using cas_ok(1,4) by (auto simp: ai_inv_def pc_ok_def dest: spec [of _ t])
  note A = auto_inc_round_above [OF nz(1) cas_ok(2)]
  have old: "x < unat v" if "g \<in> set (ai_grants st)" "fits g" "x \<in> interval g" for g x
    using cas_ok(3,4) that A(1) unfolding ai_inv_def by fastforce
  have "interval (v, inc, nb) \<inter> interval g = {}" if "g \<in> set (ai_grants st)" "fits g" for g
    using old [OF that] interval_bounds(1) [of _ v inc nb] by fastforce
  moreover have "x \<le> unat lst" if "fits (v, inc, nb)" "x \<in> interval (v, inc, nb)" for x
    using interval_bounds(2) [OF that(2)] fits_last [OF that(1) nz(2)] A(3) by simp
  moreover have "x \<le> unat lst" if "g \<in> set (ai_grants st)" "fits g" "x \<in> interval g" for g x
    using old [OF that] A(2) by simp
  ultimately show ?case using cas_ok(4) by (auto simp: ai_inv_def pc_ok_def)
next
  case (cas_fail st t cur offset inc nb v lst)
  then have "pc_ok (Start offset inc nb)" by (auto simp: ai_inv_def pc_ok_def dest: spec [of _ t])
  with cas_fail show ?case by (auto simp: ai_inv_def)
next
  case (observe st v)
  then have "unat (ai_counter st) \<le> unat v" by (simp add: word_less_nat_alt)
  with observe(2) show ?case by (auto simp: ai_inv_def intro: order_trans)
qed

interpretation ai: machine ai_step ai_inv
  by unfold_locales (rule ai_step_inv)

lemma ai_reachable_inv: "ai_step\<^sup>*\<^sup>* (ai_init c) st \<Longrightarrow> ai_inv st"
  by (erule ai.reach_good) (simp add: ai_inv_def ai_init_def pc_ok_def)

section \<open>What the calls promise\<close>

text \<open>C27. A reservation of \<open>nb\<close> values that returns \<open>v \<noteq> 0\<close>. With an increment of 0 or 1, \<open>v\<close> is the counter
  plus 1, whatever the offset is. With an increment above 1, \<open>v\<close> is the least value above the counter that
  is the offset plus a multiple of the increment. The counter becomes \<^verbatim>\<open>v + (nb - 1) * inc\<close>, and a
  spuriously failed exchange changes nothing of that.\<close>

theorem auto_inc_reserve_least:
  assumes "fm_core_auto_inc_reserve n s offset inc nb reserved = (s', v, got)" "v \<noteq> 0"
  shows "unat (sc_auto_inc s) < unat v \<and> got = nonzero nb \<and>
    s' = s\<lparr> sc_auto_inc := v + (nonzero nb - 1) * nonzero inc \<rparr> \<and>
    (inc \<le> 1 \<longrightarrow> v = sc_auto_inc s + 1) \<and>
    (1 < inc \<longrightarrow> unat (nonzero offset) \<le> unat v \<and> unat inc dvd unat v - unat (nonzero offset) \<and>
       (\<forall>x. unat (sc_auto_inc s) < x \<longrightarrow> unat (nonzero offset) \<le> x \<longrightarrow>
          unat inc dvd x - unat (nonzero offset) \<longrightarrow> unat v \<le> x))"
proof -
  from assms obtain lst where r: "auto_inc_round (sc_auto_inc s) (nonzero offset) (nonzero inc) (nonzero nb) = Some (v, lst)"
    "s' = s\<lparr> sc_auto_inc := lst \<rparr>" "got = nonzero nb"
    unfolding fm_core_auto_inc_reserve_def by (subst (asm) reserve_loop_spurious) (auto simp: reserve_loop.simps split: option.splits)
  have i: "nonzero inc \<noteq> 0" by (simp add: nonzero_def)
  note a = auto_inc_round_above [OF i r(1)]
  have f: "auto_inc_first (sc_auto_inc s) (nonzero offset) (nonzero inc) = Some v"
    using r(1) by (auto simp: auto_inc_round_def Let_def bind_eq_Some_conv split: if_splits)
  have one: "v = sc_auto_inc s + 1" if "inc \<le> 1"
  proof -
    have "\<not> nonzero inc > 1" using that by (simp add: nonzero_def not_less)
    then show ?thesis using f by (auto simp: auto_inc_first_def Let_def split: if_splits)
  qed
  have "nonzero inc = inc" if "1 < inc" using that by (auto simp: nonzero_def)
  with a r(2,3) f show ?thesis using auto_inc_first_inc one by auto
qed

theorem auto_inc_reserve_least_witness:
  "\<exists>s' got. fm_core_auto_inc_reserve 2 (zero_share (\<lambda>_ _. True) 0 0) 3 10 4 0 = (s', 3, got) \<and>
     got = 4 \<and> sc_auto_inc s' = 33"
proof -
  have "auto_inc_round 0 3 10 4 = Some (3, 33)" by code_simp
  then have "fst (snd (fm_core_auto_inc_reserve 2 (zero_share (\<lambda>_ _. True) 0 0) 3 10 4 0)) = 3"
    unfolding fm_core_auto_inc_reserve_def
    by (subst reserve_loop_spurious) (simp add: reserve_loop.simps zero_share_def nonzero_def)
  then obtain s' got where r: "fm_core_auto_inc_reserve 2 (zero_share (\<lambda>_ _. True) 0 0) 3 10 4 0 = (s', 3, got)"
    by (metis prod.collapse)
  from auto_inc_reserve_least [OF r] r show ?thesis by (auto simp: nonzero_def)
qed

text \<open>C28. Any number of threads reserve and observe in any interleaving: two intervals that were handed out
  and both end below \<open>2 ^ 64\<close> have no value in common. The condition is needed: the code multiplies
  \<^verbatim>\<open>(nb - 1) * inc\<close> without a check, and the next theorem shows two grants that overlap
  when the product wraps.\<close>

theorem auto_inc_disjoint:
  assumes "ai_step\<^sup>*\<^sup>* (ai_init c) st" "i < length (ai_grants st)" "j < length (ai_grants st)" "i \<noteq> j"
    and "fits (ai_grants st ! i)" "fits (ai_grants st ! j)"
  shows "interval (ai_grants st ! i) \<inter> interval (ai_grants st ! j) = {}"
proof -
  have "sorted_wrt (\<lambda>new old. fits old \<longrightarrow> interval new \<inter> interval old = {}) (ai_grants st)"
    using ai_reachable_inv [OF assms(1)] by (simp add: ai_inv_def)
  then have "\<forall>a b. a < b \<longrightarrow> b < length (ai_grants st) \<longrightarrow> fits (ai_grants st ! b) \<longrightarrow>
      interval (ai_grants st ! a) \<inter> interval (ai_grants st ! b) = {}"
    by (simp add: sorted_wrt_iff_nth_less)
  then show ?thesis using assms(2-6) by (metis Int_commute linorder_neqE_nat)
qed

text \<open>Two threads, both with the counter loaded before either of them exchanges it.\<close>

definition ai_race :: "nat \<Rightarrow> ai_state" where
  "ai_race n = foldl (\<lambda>st f. f st) (ai_init 0) (take n [
     \<lambda>st. st\<lparr> ai_pcs := (ai_pcs st)(0 := Start 1 1 5) \<rparr>,
     \<lambda>st. st\<lparr> ai_pcs := (ai_pcs st)(1 := Start 1 1 5) \<rparr>,
     \<lambda>st. st\<lparr> ai_pcs := (ai_pcs st)(0 := Loaded 0 1 1 5) \<rparr>,
     \<lambda>st. st\<lparr> ai_pcs := (ai_pcs st)(1 := Loaded 0 1 1 5) \<rparr>,
     \<lambda>st. st\<lparr> ai_counter := 5, ai_pcs := (ai_pcs st)(0 := Outside), ai_grants := (1, 1, 5) # ai_grants st \<rparr>,
     \<lambda>st. st\<lparr> ai_pcs := (ai_pcs st)(1 := Start 1 1 5) \<rparr>,
     \<lambda>st. st\<lparr> ai_pcs := (ai_pcs st)(1 := Loaded 5 1 1 5) \<rparr>,
     \<lambda>st. st\<lparr> ai_counter := 10, ai_pcs := (ai_pcs st)(1 := Outside), ai_grants := (6, 1, 5) # ai_grants st \<rparr>])"

lemma ai_race_run: "ai_step\<^sup>*\<^sup>* (ai_init 0) (ai_race 8)"
proof -
  have nz: "nonzero 1 = 1" "nonzero 5 = 5" by (simp_all add: nonzero_def)
  have a: "auto_inc_round 0 1 1 5 = Some (1, 5)" "auto_inc_round 5 1 1 5 = Some (6, 10)" by code_simp+
  have "ai_step (ai_race 0) (ai_race 1)" "ai_step (ai_race 1) (ai_race 2)"
    using ai_step.call [of "ai_race 0" 0 1 1 5] ai_step.call [of "ai_race 1" 1 1 1 5]
    by (simp_all add: ai_race_def ai_init_def nz numeral_2_eq_2)
  moreover have "ai_step (ai_race 2) (ai_race 3)" "ai_step (ai_race 3) (ai_race 4)"
    using ai_step.load [of "ai_race 2" 0 1 1 5] ai_step.load [of "ai_race 3" 1 1 1 5]
    by (simp_all add: ai_race_def ai_init_def eval_nat_numeral)
  moreover have "ai_step (ai_race 4) (ai_race 5)" "ai_step (ai_race 5) (ai_race 6)"
    using ai_step.cas_ok [of "ai_race 4" 0 0 1 1 5 1 5] ai_step.cas_fail [of "ai_race 5" 1 0 1 1 5 1 5] a
    by (simp_all add: ai_race_def ai_init_def eval_nat_numeral)
  moreover have "ai_step (ai_race 6) (ai_race 7)" "ai_step (ai_race 7) (ai_race 8)"
    using ai_step.load [of "ai_race 6" 1 1 1 5] ai_step.cas_ok [of "ai_race 7" 1 5 1 1 5 6 10] a
    by (simp_all add: ai_race_def ai_init_def eval_nat_numeral)
  ultimately have "ai_step\<^sup>*\<^sup>* (ai_race 0) (ai_race 8)" by (meson converse_rtranclp_into_rtranclp rtranclp.rtrancl_refl)
  then show ?thesis by (simp add: ai_race_def)
qed

theorem auto_inc_disjoint_witness: "interval (6, 1, 5) \<inter> interval (1, 1, 5) = {}"
proof -
  have g: "ai_grants (ai_race 8) = [(6, 1, 5), (1, 1, 5)]" by (simp add: ai_race_def ai_init_def eval_nat_numeral)
  show ?thesis
    using auto_inc_disjoint [OF ai_race_run, of 0 1] by (simp add: g fits_def)
qed

text \<open>The product in the end of the interval wraps: a reservation of three values with increment
  \<open>2\<^sup>6\<^sup>3\<close> is granted although two fit, and the next reservation is granted a value of the first interval.\<close>

theorem auto_inc_wrap_overlaps:
  "auto_inc_round 0 1 0x8000000000000000 3 = Some (1, 1) \<and>
   auto_inc_round 1 1 0x8000000000000000 1 = Some (0x8000000000000001, 0x8000000000000001) \<and>
   unat (0x8000000000000001 :: fm_u64) \<in> interval (1, 0x8000000000000000, 3)"
proof -
  have "auto_inc_round 0 1 0x8000000000000000 3 = Some (1, 1)" by code_simp
  moreover have "auto_inc_round 1 1 0x8000000000000000 1 = Some (0x8000000000000001, 0x8000000000000001)" by code_simp
  moreover have "unat (0x8000000000000001 :: fm_u64) = unat (1 :: fm_u64) + 1 * unat (0x8000000000000000 :: fm_u64)" by simp
  ultimately show ?thesis unfolding interval_def by (auto intro!: exI [of _ 1])
qed

text \<open>The sum that rounds up wraps as well: overflow is reported although the next value of the series,
  \<open>2\<^sup>6\<^sup>3 + 2\<close>, is free and fits.\<close>

theorem auto_inc_spurious_overflow:
  "auto_inc_first 0x8000000000000001 1 0x8000000000000001 = None \<and>
   unat (0x8000000000000001 :: fm_u64) dvd unat (0x8000000000000002 :: fm_u64) - 1 \<and>
   (0x8000000000000001 :: fm_u64) < 0x8000000000000002"
proof -
  have "auto_inc_first 0x8000000000000001 1 0x8000000000000001 = None" by code_simp
  then show ?thesis by simp
qed

text \<open>C30. Observing an explicit value raises the counter to it and never lowers it, however often the exchange
  fails.\<close>

theorem auto_inc_observe_max:
  "fm_core_auto_inc_observe n s v = s\<lparr> sc_auto_inc := max (sc_auto_inc s) v \<rparr>"
proof -
  have "observe_loop n s v = s\<lparr> sc_auto_inc := max (sc_auto_inc s) v \<rparr>"
    by (induction n) (auto simp: max_def observe_loop.simps)
  then show ?thesis by (simp add: fm_core_auto_inc_observe_def)
qed

end
