(* ===== verification/FM_Data.thy ===== *)
theory FM_Data
  imports FM_Hash FM_AutoInc
begin

text \<open>
  The row operations on an open handle, \<^verbatim>\<open>fm_data.cc\<close>: the layer between the handler and the
  concurrency core. A call works on the share and the handle (\<open>FM_INFO\<close>), and yields both,
  the error code and what it wrote to the caller's buffers.
\<close>

section \<open>Share, handle, codes\<close>

datatype ha_err =
    HA_OK | HA_ERR_RECORD_FILE_FULL | HA_ERR_OUT_OF_MEM | HA_ERR_RECORD_DELETED
  | HA_ERR_FOUND_DUPP_KEY | HA_ERR_KEY_NOT_FOUND | HA_ERR_CRASHED | HA_ERR_RECORD_CHANGED
  | HA_ERR_END_OF_FILE | HA_ERR_UNSUPPORTED | HA_ERR_WRONG_INDEX | HA_ERR_WRONG_COMMAND
  | HA_ERR_AUTOINC_READ_FAILED | ENOENT | ENOMEM

datatype ha_state =
    HA_STATE_AKTIV | HA_STATE_DELETED | HA_STATE_PREV_FOUND | HA_STATE_NEXT_FOUND | HA_STATE_NO_KEY

text \<open>Shares and handles refer to each other by address. The chain of the open handles of a share
  (\<^verbatim>\<open>open_list\<close>, \<^verbatim>\<open>next_open\<close>) is a list of their addresses.\<close>

type_synonym addr = nat

record FM_SHARE =
  fs_name :: string
  fs_core :: FM_SHARE_CORE
  fs_keydef :: "FM_KEYDEF list"
  fs_max_key_length :: nat
  fs_open_count :: nat
  fs_delete_on_close :: bool
  fs_internal :: bool
  fs_create_time :: nat
  fs_open_list :: "addr list"

record FM_SLOT_REF =
  ref_slot :: fm_i32
  ref_gen :: fm_u32

text \<open>\<open>in_readcheck\<close> is the flag \<^verbatim>\<open>READ_CHECK_USED\<close> of \<^verbatim>\<open>opt_flag\<close>.\<close>

record FM_INFO =
  in_s :: addr
  in_current_slot :: fm_i32
  in_current_gen :: fm_u32
  in_current_hash_slot :: fm_i32
  in_lastinx :: int
  in_errkey :: int
  in_update :: "ha_state set"
  in_readcheck :: bool
  in_mode :: nat
  in_scan_pos :: nat
  in_lastkey_len :: nat
  in_lastkey :: image
  in_scratch :: image
  in_open_listed :: bool

definition fm_core_error_to_ha :: "fm_err \<Rightarrow> ha_err" where
  "fm_core_error_to_ha rc = (case rc of
      FM_ERR_FULL \<Rightarrow> HA_ERR_RECORD_FILE_FULL
    | FM_ERR_NOMEM \<Rightarrow> HA_ERR_OUT_OF_MEM
    | FM_ERR_DELETED \<Rightarrow> HA_ERR_RECORD_DELETED
    | FM_ERR_DUP_KEY \<Rightarrow> HA_ERR_FOUND_DUPP_KEY
    | FM_ERR_NOT_FOUND \<Rightarrow> HA_ERR_KEY_NOT_FOUND
    | _ \<Rightarrow> HA_ERR_CRASHED)"

definition fm_slot_gen :: "FM_SHARE \<Rightarrow> fm_i32 \<Rightarrow> fm_u32 option" where
  "fm_slot_gen share idx = gens (fs_core share) idx"

section \<open>Auto increment\<close>

text \<open>The integer and floating-point decoders of the server, and the numbering of its column
  types, are parameters.\<close>

datatype ha_numtype =
    NT_INT8 | NT_BINARY | NT_SHORT_INT | NT_USHORT_INT | NT_LONG_INT | NT_ULONG_INT | NT_INT24
  | NT_UINT24 | NT_FLOAT | NT_DOUBLE | NT_LONGLONG | NT_ULONGLONG | NT_OTHER

record my_korr =
  num_type :: "nat \<Rightarrow> ha_numtype"
  sint2korr :: "image \<Rightarrow> int"
  u2korr :: "image \<Rightarrow> fm_u64"
  sint4korr :: "image \<Rightarrow> int"
  uint4korr :: "image \<Rightarrow> fm_u64"
  sint3korr :: "image \<Rightarrow> int"
  uint3korr :: "image \<Rightarrow> fm_u64"
  sint8korr :: "image \<Rightarrow> int"
  uint8korr :: "image \<Rightarrow> fm_u64"
  float4_value :: "image \<Rightarrow> fm_u64"
  float8_value :: "image \<Rightarrow> fm_u64"

text \<open>The value of the auto-increment column: \<open>s_value\<close> for signed types, \<open>value\<close> for the
  others.\<close>

definition auto_inc_column :: "my_korr \<Rightarrow> ha_numtype \<Rightarrow> image \<Rightarrow> int \<times> fm_u64" where
  "auto_inc_column K ty key = (case ty of
      NT_INT8 \<Rightarrow> (sint (byte_at key 0), 0)
    | NT_BINARY \<Rightarrow> (0, ucast (byte_at key 0))
    | NT_SHORT_INT \<Rightarrow> (sint2korr K key, 0)
    | NT_USHORT_INT \<Rightarrow> (0, u2korr K key)
    | NT_LONG_INT \<Rightarrow> (sint4korr K key, 0)
    | NT_ULONG_INT \<Rightarrow> (0, uint4korr K key)
    | NT_INT24 \<Rightarrow> (sint3korr K key, 0)
    | NT_UINT24 \<Rightarrow> (0, uint3korr K key)
    | NT_FLOAT \<Rightarrow> (0, float4_value K key)
    | NT_DOUBLE \<Rightarrow> (0, float8_value K key)
    | NT_LONGLONG \<Rightarrow> (sint8korr K key, 0)
    | NT_ULONGLONG \<Rightarrow> (0, uint8korr K key)
    | NT_OTHER \<Rightarrow> (0, 0))"

definition fm_update_auto_increment :: "my_korr \<Rightarrow> FM_SHARE \<Rightarrow> image \<Rightarrow> FM_SHARE option" where
  "fm_update_auto_increment K share record_buf =
     (let core = fs_core share; ak = sc_auto_key core in
      if ak = 0 then Some share
      else if ak \<le> length (fs_keydef share) \<and> kd_seg (fs_keydef share ! (ak - 1)) \<noteq> [] then
        let seg = hd (kd_seg (fs_keydef share ! (ak - 1)));
            (s_value, v) = auto_inc_column K (num_type K (sc_auto_key_type core)) (drop (seg_start seg) record_buf)
        in Some (share\<lparr> fs_core := fm_core_auto_inc_observe 0 core (if s_value > 0 then of_int s_value else v) \<rparr>)
      else None)"

definition fm_get_auto_increment ::
  "FM_SHARE \<Rightarrow> fm_u64 \<Rightarrow> fm_u64 \<Rightarrow> fm_u64 \<Rightarrow> FM_SHARE \<times> fm_u64 \<times> fm_u64" where
  "fm_get_auto_increment share offset increment nb =
     (let (core, first, reserved) = fm_core_auto_inc_reserve 0 (fs_core share) offset increment nb 0;
          share = share\<lparr> fs_core := core \<rparr>
      in if first = 0 then (share, NOT 0, 0) else (share, first, reserved))"

definition fm_set_auto_increment :: "FM_SHARE \<Rightarrow> fm_u64 \<Rightarrow> FM_SHARE" where
  "fm_set_auto_increment share v =
     (let next_value = (if v \<noteq> 0 then v - 1 else 0); core = fs_core share
      in if next_value > sc_auto_inc core
         then share\<lparr> fs_core := core\<lparr> sc_auto_inc := next_value \<rparr> \<rparr> else share)"

section \<open>Write, update, delete\<close>

definition fm_write :: "my_korr \<Rightarrow> FM_SHARE \<Rightarrow> FM_INFO \<Rightarrow> image \<Rightarrow> (FM_SHARE \<times> FM_INFO \<times> ha_err) option" where
  "fm_write K share info rec = do {
     (core, rc, idx, ek, sc) \<leftarrow> fm_core_insert_row (fs_core share) rec (-1) (Some 0) (in_scratch info);
     let share = share\<lparr> fs_core := core \<rparr>;
     let info = info\<lparr> in_scratch := sc \<rparr>;
     if rc \<noteq> FM_ERR_OK
     then Some (share, if rc = FM_ERR_DUP_KEY then info\<lparr> in_errkey := the ek \<rparr> else info,
                fm_core_error_to_ha rc)
     else do {
       share \<leftarrow> (if sc_auto_key core \<noteq> 0 then fm_update_auto_increment K share rec else Some share);
       g \<leftarrow> fm_slot_gen share idx;
       Some (share, info\<lparr> in_lastinx := -1, in_current_hash_slot := -1, in_current_slot := idx,
         in_current_gen := g, in_update := {HA_STATE_AKTIV} \<rparr>, HA_OK) } }"

text \<open>The check of the record image that update and delete start with: the code to return
  early with, if any.\<close>

definition fm_read_check :: "FM_SHARE \<Rightarrow> FM_INFO \<Rightarrow> image \<Rightarrow> (FM_INFO \<times> ha_err option) option" where
  "fm_read_check share info old =
     (if \<not> in_readcheck info then Some (info, None)
      else do {
        (rc, sc) \<leftarrow> fm_core_read_row (fs_core share) (in_current_slot info) True (in_current_gen info) (in_scratch info);
        let info = info\<lparr> in_scratch := sc \<rparr>;
        if rc \<noteq> FM_ERR_OK then Some (info, Some (fm_core_error_to_ha rc))
        else if take (sc_reclength (fs_core share)) old \<noteq> take (sc_reclength (fs_core share)) sc
        then Some (info, Some HA_ERR_RECORD_CHANGED)
        else Some (info, None) })"

text \<open>What \<^verbatim>\<open>fm_update\<close> and \<^verbatim>\<open>fm_update_locked\<close> do with the outcome of the core.\<close>

definition fm_update_tail ::
  "my_korr \<Rightarrow> FM_SHARE \<Rightarrow> FM_INFO \<Rightarrow> image \<Rightarrow> FM_SHARE_CORE \<times> fm_err \<times> int option \<times> image
     \<Rightarrow> (FM_SHARE \<times> FM_INFO \<times> ha_err) option" where
  "fm_update_tail K share info newdata r =
     (case r of (core, rc, ek, sc) \<Rightarrow>
       let share = share\<lparr> fs_core := core \<rparr>; info = info\<lparr> in_scratch := sc \<rparr>
       in if rc \<noteq> FM_ERR_OK
          then Some (share, if rc = FM_ERR_DUP_KEY then info\<lparr> in_errkey := the ek \<rparr> else info,
                     fm_core_error_to_ha rc)
          else do {
            share \<leftarrow> (if sc_auto_key core \<noteq> 0 then fm_update_auto_increment K share newdata else Some share);
            Some (share, info\<lparr> in_update := {HA_STATE_AKTIV}, in_current_hash_slot := -1 \<rparr>, HA_OK) })"

definition fm_update ::
  "my_korr \<Rightarrow> FM_SHARE \<Rightarrow> FM_INFO \<Rightarrow> image \<Rightarrow> image \<Rightarrow> (FM_SHARE \<times> FM_INFO \<times> ha_err) option" where
  "fm_update K share info old newdata = do {
     (info, e) \<leftarrow> fm_read_check share info old;
     case e of Some err \<Rightarrow> Some (share, info, err)
     | None \<Rightarrow> do {
         r \<leftarrow> fm_core_update_row (fs_core share) (in_current_slot info) (in_current_gen info) old newdata
                (Some 0) (in_scratch info);
         fm_update_tail K share info newdata r } }"

definition fm_update_locked ::
  "my_korr \<Rightarrow> FM_SHARE \<Rightarrow> FM_INFO \<Rightarrow> image \<Rightarrow> image \<Rightarrow> (FM_SHARE \<times> FM_INFO \<times> ha_err) option" where
  "fm_update_locked K share info old newdata = do {
     (info, e) \<leftarrow> fm_read_check share info old;
     case e of Some err \<Rightarrow> Some (share, info, err)
     | None \<Rightarrow> do {
         r \<leftarrow> fm_core_update_row_locked (fs_core share) (in_current_slot info) (in_current_gen info) old newdata
                (Some 0) (in_scratch info);
         fm_update_tail K share info newdata r } }"

definition fm_delete_tail ::
  "FM_SHARE \<Rightarrow> FM_INFO \<Rightarrow> FM_SHARE_CORE \<times> fm_err \<times> image \<Rightarrow> FM_SHARE \<times> FM_INFO \<times> ha_err" where
  "fm_delete_tail share info r =
     (case r of (core, rc, sc) \<Rightarrow>
       let share = share\<lparr> fs_core := core \<rparr>; info = info\<lparr> in_scratch := sc \<rparr>
       in if rc \<noteq> FM_ERR_OK then (share, info, fm_core_error_to_ha rc)
          else (share, info\<lparr> in_update := {HA_STATE_DELETED}, in_current_slot := -1,
                  in_current_hash_slot := -1 \<rparr>, HA_OK))"

definition fm_delete :: "FM_SHARE \<Rightarrow> FM_INFO \<Rightarrow> image \<Rightarrow> (FM_SHARE \<times> FM_INFO \<times> ha_err) option" where
  "fm_delete share info buf = do {
     (info, e) \<leftarrow> fm_read_check share info buf;
     case e of Some err \<Rightarrow> Some (share, info, err)
     | None \<Rightarrow> do {
         r \<leftarrow> fm_core_delete_row (fs_core share) (in_current_slot info) (in_current_gen info) (in_scratch info);
         Some (fm_delete_tail share info r) } }"

definition fm_delete_locked :: "FM_SHARE \<Rightarrow> FM_INFO \<Rightarrow> image \<Rightarrow> (FM_SHARE \<times> FM_INFO \<times> ha_err) option" where
  "fm_delete_locked share info buf = do {
     (info, e) \<leftarrow> fm_read_check share info buf;
     case e of Some err \<Rightarrow> Some (share, info, err)
     | None \<Rightarrow> do {
         r \<leftarrow> fm_core_delete_row_locked (fs_core share) (in_current_slot info) (in_current_gen info) (in_scratch info);
         Some (fm_delete_tail share info r) } }"

section \<open>Reads\<close>

text \<open>Reads yield the handle, the code and the record buffer. \<^verbatim>\<open>fm_reread_locked\<close> returns the
  code of the core.\<close>

definition fm_reread_locked :: "FM_SHARE \<Rightarrow> FM_INFO \<Rightarrow> image \<Rightarrow> (FM_INFO \<times> fm_err \<times> image) option" where
  "fm_reread_locked share info rec = do {
     g \<leftarrow> fm_slot_gen share (in_current_slot info);
     (rc, rec) \<leftarrow> fm_core_read_row (fs_core share) (in_current_slot info) True g rec;
     Some (if rc = FM_ERR_OK then info\<lparr> in_current_gen := g \<rparr> else info, rc, rec) }"

definition fm_set_position :: "FM_INFO \<Rightarrow> FM_SLOT_REF" where
  "fm_set_position info = \<lparr> ref_slot = in_current_slot info, ref_gen = in_current_gen info \<rparr>"

definition fm_rrnd :: "FM_SHARE \<Rightarrow> FM_INFO \<Rightarrow> image \<Rightarrow> FM_SLOT_REF \<Rightarrow> (FM_INFO \<times> ha_err \<times> image) option" where
  "fm_rrnd share info rec r =
     (let info = info\<lparr> in_lastinx := -1 \<rparr> in
      if ref_slot r = -1 then Some (info\<lparr> in_update := {} \<rparr>, HA_ERR_END_OF_FILE, rec)
      else do {
        (rc, rec) \<leftarrow> fm_core_read_row (fs_core share) (ref_slot r) True (ref_gen r) rec;
        if rc \<noteq> FM_ERR_OK
        then Some (info\<lparr> in_update := {HA_STATE_PREV_FOUND, HA_STATE_NEXT_FOUND} \<rparr>, HA_ERR_RECORD_DELETED, rec)
        else Some (info\<lparr> in_current_slot := ref_slot r, in_current_gen := ref_gen r, in_current_hash_slot := -1,
               in_update := {HA_STATE_PREV_FOUND, HA_STATE_NEXT_FOUND, HA_STATE_AKTIV} \<rparr>, HA_OK, rec) })"

definition fm_scan_init :: "FM_INFO \<Rightarrow> FM_INFO" where
  "fm_scan_init info = info\<lparr> in_lastinx := -1, in_scan_pos := 0, in_current_slot := -1,
     in_current_hash_slot := -1, in_update := {} \<rparr>"

definition fm_scan :: "FM_SHARE \<Rightarrow> FM_INFO \<Rightarrow> image \<Rightarrow> (FM_INFO \<times> ha_err \<times> image) option" where
  "fm_scan share info rec = do {
     (rc, pos, rec) \<leftarrow> fm_core_scan_next (fs_core share) (in_scan_pos info) rec;
     let info = info\<lparr> in_scan_pos := pos \<rparr>;
     if rc \<noteq> FM_ERR_OK
     then Some (info\<lparr> in_update := {HA_STATE_PREV_FOUND, HA_STATE_NEXT_FOUND} \<rparr>, HA_ERR_END_OF_FILE, rec)
     else do {
       let slot = fm_i32_of (pos - 1);
       g \<leftarrow> fm_slot_gen share slot;
       Some (info\<lparr> in_current_slot := slot, in_current_gen := g, in_current_hash_slot := -1,
         in_update := {HA_STATE_PREV_FOUND, HA_STATE_NEXT_FOUND, HA_STATE_AKTIV} \<rparr>, HA_OK, rec) } }"

definition fm_find_key ::
  "FM_SHARE \<Rightarrow> FM_INFO \<Rightarrow> nat \<Rightarrow> image \<Rightarrow> image \<Rightarrow> (FM_SHARE \<times> FM_INFO \<times> ha_err \<times> image) option" where
  "fm_find_key share info inx key rec = do {
     kc \<leftarrow> get_key (fs_core share) inx;
     (core, rc, rec, idx) \<leftarrow> fm_core_find (fs_core share) inx key rec (-1);
     let share = share\<lparr> fs_core := core \<rparr>;
     if rc \<noteq> FM_ERR_OK
     then Some (share, info\<lparr> in_update := {HA_STATE_NO_KEY} \<rparr>, HA_ERR_KEY_NOT_FOUND, rec)
     else if inx < length (fs_keydef share) then do {
       let kd = fs_keydef share ! inx;
       let info = (if hash_rec (kc_ops kc) \<noteq> None \<and> kd_flag kd \<inter> {HA_NOSAME, HA_NULL_PART_KEY} \<noteq> {HA_NOSAME}
                   then info\<lparr> in_lastkey := memcpy (in_lastkey info) key (kd_length kd), in_lastkey_len := kd_length kd \<rparr>
                   else info);
       g \<leftarrow> fm_slot_gen share idx;
       Some (share, info\<lparr> in_lastinx := int inx, in_current_slot := idx, in_current_gen := g,
         in_update := {HA_STATE_AKTIV} \<rparr>, HA_OK, rec) }
     else None }"

definition fm_find_next_key ::
  "FM_SHARE \<Rightarrow> FM_INFO \<Rightarrow> nat \<Rightarrow> image \<Rightarrow> fm_i32 \<Rightarrow> image \<Rightarrow> (FM_SHARE \<times> FM_INFO \<times> ha_err \<times> image) option" where
  "fm_find_next_key share info inx key cur_slot rec = do {
     (core, rc, rec, idx) \<leftarrow> fm_core_find_next (fs_core share) inx key cur_slot rec (-1);
     let share = share\<lparr> fs_core := core \<rparr>;
     if rc \<noteq> FM_ERR_OK
     then Some (share, info\<lparr> in_update := {HA_STATE_NEXT_FOUND} \<rparr>, HA_ERR_KEY_NOT_FOUND, rec)
     else if inx < length (fs_keydef share) then do {
       let kl = kd_length (fs_keydef share ! inx);
       let info = (if kl \<noteq> in_lastkey_len info \<or> take kl (in_lastkey info) \<noteq> take kl key
                   then info\<lparr> in_lastkey := memcpy (in_lastkey info) key kl, in_lastkey_len := kl \<rparr> else info);
       g \<leftarrow> fm_slot_gen share idx;
       Some (share, info\<lparr> in_lastinx := int inx, in_current_slot := idx, in_current_gen := g,
         in_update := {HA_STATE_AKTIV, HA_STATE_NEXT_FOUND} \<rparr>, HA_OK, rec) }
     else None }"

section \<open>Extra, reset, statistics\<close>

definition fm_reset :: "FM_INFO \<Rightarrow> FM_INFO" where
  "fm_reset info = info\<lparr> in_lastinx := -1, in_scan_pos := 0, in_current_slot := -1,
     in_current_hash_slot := -1, in_update := {} \<rparr>"

datatype ha_extra_function =
    HA_EXTRA_RESET_STATE | HA_EXTRA_NO_READCHECK | HA_EXTRA_READCHECK
  | HA_EXTRA_CHANGE_KEY_TO_UNIQUE | HA_EXTRA_CHANGE_KEY_TO_DUP | HA_EXTRA_OTHER

definition change_unique :: "bool \<Rightarrow> nat \<Rightarrow> FM_SHARE \<Rightarrow> FM_SHARE option" where
  "change_unique u idx share = do {
     kc \<leftarrow> get_key (fs_core share) idx;
     if idx < length (fs_keydef share) then
       let kd = fs_keydef share ! idx;
           kd = kd\<lparr> kd_flag := (if u then insert HA_NOSAME (kd_flag kd) else kd_flag kd - {HA_NOSAME}) \<rparr>
       in Some (share\<lparr> fs_keydef := (fs_keydef share)[idx := kd],
                 fs_core := upd_key (fs_core share) idx (kc\<lparr> kc_unique := u \<rparr>) \<rparr>)
     else None }"

definition fm_extra :: "FM_SHARE \<Rightarrow> FM_INFO \<Rightarrow> ha_extra_function \<Rightarrow> (FM_SHARE \<times> FM_INFO) option" where
  "fm_extra share info f = (case f of
      HA_EXTRA_RESET_STATE \<Rightarrow> Some (share, fm_reset info)
    | HA_EXTRA_NO_READCHECK \<Rightarrow> Some (share, info\<lparr> in_readcheck := False \<rparr>)
    | HA_EXTRA_READCHECK \<Rightarrow> Some (share, info\<lparr> in_readcheck := True \<rparr>)
    | HA_EXTRA_CHANGE_KEY_TO_UNIQUE \<Rightarrow> do {
        share \<leftarrow> foldM (change_unique True) [0..<sc_keys (fs_core share)] share; Some (share, info) }
    | HA_EXTRA_CHANGE_KEY_TO_DUP \<Rightarrow> do {
        share \<leftarrow> foldM (change_unique False) [0..<sc_keys (fs_core share)] share; Some (share, info) }
    | HA_EXTRA_OTHER \<Rightarrow> Some (share, info))"

record FMINFO =
  x_records :: int
  x_deleted :: nat
  x_max_records :: nat
  x_data_length :: fm_u64
  x_index_length :: fm_u64
  x_reclength :: nat
  x_errkey :: int
  x_auto_increment :: fm_u64
  x_create_time :: nat

text \<open>\<^verbatim>\<open>sizeof(fm_i32) + sizeof(FM_SPIN)\<close> is 5: a 32-bit integer and a byte flag.\<close>

definition index_bytes :: "nat \<Rightarrow> FM_SHARE_CORE \<Rightarrow> fm_u64 \<Rightarrow> fm_u64 option" where
  "index_bytes k core acc = do { kc \<leftarrow> get_key core k; Some (acc + ucast (kc_nbuckets kc) * 5) }"

definition fm_info :: "FM_SHARE \<Rightarrow> FM_INFO \<Rightarrow> (FM_INFO \<times> FMINFO) option" where
  "fm_info share info =
     (let core = fs_core share; n = of_nat (fm_core_slot_count core) in do {
        il \<leftarrow> foldM (\<lambda>k. index_bytes k core) [0..<sc_keys core] 0;
        Some (info\<lparr> in_errkey := 0 \<rparr>,
          \<lparr> x_records = sc_records core, x_deleted = 0, x_max_records = sc_max_records core,
            x_data_length = n * of_nat (sc_slot_size core) + n * of_nat (sc_keys core) * 4,
            x_index_length = il, x_reclength = sc_reclength core, x_errkey = in_errkey info,
            x_auto_increment = sc_auto_inc core + 1, x_create_time = fs_create_time share \<rparr>) })"

end
