(* ===== verification/FM_Registry.thy ===== *)
theory FM_Registry
  imports FM_Data
begin

text \<open>
  The registry of shares, \<^verbatim>\<open>fm_create.cc\<close>: building the description of a table, creating,
  opening, closing, dropping and renaming. Shares and handles are heap objects: the state of
  the engine maps their addresses to them, an address that was freed is absent, and a call that
  touches one does not return.
\<close>

section \<open>The state of the engine\<close>

text \<open>
  \<open>w_alloc n\<close> says whether the \<open>n\<close>-th call of \<^verbatim>\<open>my_malloc\<close> or \<^verbatim>\<open>my_strdup\<close> outside of the core
  yields memory, \<open>w_live\<close> counts the blocks it has given out; \<open>w_core_alloc a\<close> is the allocator
  as the core of the share at \<open>a\<close> sees it. \<open>w_lost\<close> counts blocks of cores that were still live
  when their share was freed. \<open>w_dbug\<close> is true for a build without \<^verbatim>\<open>DBUG_OFF\<close>.
\<close>

record fm_world =
  w_shares :: "addr \<rightharpoonup> FM_SHARE"
  w_infos :: "addr \<rightharpoonup> FM_INFO"
  w_list :: "addr list"
  w_mutex :: bool
  w_next :: addr
  w_alloc :: "nat \<Rightarrow> bool"
  w_nalloc :: nat
  w_live :: int
  w_core_alloc :: "addr \<Rightarrow> nat \<Rightarrow> nat \<Rightarrow> bool"
  w_lost :: int
  w_dbug :: bool

definition my_malloc :: "fm_world \<Rightarrow> fm_world \<times> bool" where
  "my_malloc w = (let ok = w_alloc w (w_nalloc w)
     in (w\<lparr> w_nalloc := w_nalloc w + 1, w_live := w_live w + (if ok then 1 else 0) \<rparr>, ok))"

definition my_free :: "fm_world \<Rightarrow> fm_world" where
  "my_free w = w\<lparr> w_live := w_live w - 1 \<rparr>"

text \<open>\<^verbatim>\<open>THR_LOCK_fastmem\<close>.\<close>

definition registry_lock :: "fm_world \<Rightarrow> fm_world option" where
  "registry_lock w = (if w_mutex w then None else Some (w\<lparr> w_mutex := True \<rparr>))"

definition registry_unlock :: "fm_world \<Rightarrow> fm_world" where
  "registry_unlock w = w\<lparr> w_mutex := False \<rparr>"

definition upd_share :: "fm_world \<Rightarrow> addr \<Rightarrow> FM_SHARE \<Rightarrow> fm_world" where
  "upd_share w a sh = w\<lparr> w_shares := (w_shares w)(a \<mapsto> sh) \<rparr>"

definition upd_info :: "fm_world \<Rightarrow> addr \<Rightarrow> FM_INFO \<Rightarrow> fm_world" where
  "upd_info w i info = w\<lparr> w_infos := (w_infos w)(i \<mapsto> info) \<rparr>"

section \<open>The list of shares\<close>

primrec find_share_loop :: "fm_world \<Rightarrow> string \<Rightarrow> addr list \<Rightarrow> addr option option" where
  "find_share_loop w name [] = Some None"
| "find_share_loop w name (a # as) = do {
     sh \<leftarrow> w_shares w a;
     if fs_name sh = name then Some (Some a) else find_share_loop w name as }"

definition fm_find_named_share :: "fm_world \<Rightarrow> string \<Rightarrow> addr option option" where
  "fm_find_named_share w name = find_share_loop w name (w_list w)"

definition fm_share_list_add :: "addr \<Rightarrow> fm_world \<Rightarrow> fm_world" where
  "fm_share_list_add a w = w\<lparr> w_list := a # w_list w \<rparr>"

definition fm_share_list_remove :: "addr \<Rightarrow> fm_world \<Rightarrow> fm_world" where
  "fm_share_list_remove a w = w\<lparr> w_list := remove1 a (w_list w) \<rparr>"

definition fm_free :: "addr \<Rightarrow> fm_world \<Rightarrow> fm_world option" where
  "fm_free a w = do {
     sh \<leftarrow> w_shares w a;
     let w = (if \<not> fs_internal sh then fm_share_list_remove a w else w);
     core \<leftarrow> fm_core_free_share (fs_core sh);
     let w = my_free (my_free w);
     Some (w\<lparr> w_shares := (w_shares w)(a := None), w_lost := w_lost w + sc_live core \<rparr>) }"

section \<open>The description of a table\<close>

text \<open>What the engine reads of the server's \<^verbatim>\<open>TABLE\<close>: positions are relative to \<^verbatim>\<open>record[0]\<close>. A field
  with no \<^verbatim>\<open>null_ptr\<close> has no \<open>fld_null\<close>; \<open>fld_bit\<close> is read of bit fields only.\<close>

record Field =
  fld_key_type :: ha_keytype
  fld_enum_set :: bool
  fld_charset :: CHARSET_INFO
  fld_null :: "(fm_u8 \<times> nat) option"
  fld_auto_increment :: bool
  fld_bit :: "nat \<times> nat \<times> nat"

record KEY_PART_INFO =
  kp_field :: Field
  kp_offset :: nat
  kp_length :: nat

datatype ha_key_alg = HA_KEY_ALG_UNDEF | HA_KEY_ALG_HASH | HA_KEY_ALG_BTREE | HA_KEY_ALG_OTHER

record KEY =
  ky_parts :: "KEY_PART_INFO list"
  ky_algorithm :: ha_key_alg
  ky_flags :: "ha_flag set"

record TABLE =
  tb_key_info :: "KEY list"
  tb_total_keys :: nat
  tb_reclength :: nat
  tb_max_rows :: nat
  tb_found_next_number_field :: bool
  tb_next_number_index :: nat
  tb_next_number_key_offset :: nat

record FM_CREATE_INFO =
  ci_keydef :: "FM_KEYDEF list"
  ci_reclength :: nat
  ci_max_key_length :: nat
  ci_max_records :: nat
  ci_max_table_size :: nat
  ci_auto_increment :: fm_u64
  ci_auto_key :: nat
  ci_auto_key_type :: nat
  ci_with_auto_increment :: bool
  ci_internal_table :: bool
  ci_pin_share :: bool

text \<open>One key segment. \<open>bin\<close> is \<^verbatim>\<open>my_charset_bin\<close>. The flag and the algorithm of segments and keys are
  never read by the engine and left out.\<close>

definition prepare_seg :: "CHARSET_INFO \<Rightarrow> KEY_PART_INFO \<Rightarrow> HA_KEYSEG" where
  "prepare_seg bin part =
     (let field = kp_field part;
          ty = (if fld_key_type field \<in> {HA_KEYTYPE_TEXT, HA_KEYTYPE_VARTEXT1, HA_KEYTYPE_VARTEXT2,
                  HA_KEYTYPE_VARBINARY1, HA_KEYTYPE_VARBINARY2, HA_KEYTYPE_BIT}
                then fld_key_type field else HA_KEYTYPE_BINARY);
          (null_bit, null_pos) = (case fld_null field of Some n \<Rightarrow> n | None \<Rightarrow> (0, 0));
          (bit_length, bit_start, bit_pos) = (if ty = HA_KEYTYPE_BIT then fld_bit field else (0, 0, 0))
      in \<lparr> seg_type = ty, seg_start = kp_offset part, seg_length = kp_length part,
           seg_null_bit = null_bit, seg_null_pos = null_pos, seg_bit_start = bit_start,
           seg_bit_length = bit_length, seg_bit_pos = bit_pos,
           seg_charset = (if fld_enum_set field then bin else fld_charset field) \<rparr>)"

text \<open>The algorithm switch: a BTREE key is refused by freeing the buffer and then, with \<^verbatim>\<open>my_free(seg)\<close>,
  an address inside of it, so the call does not return properly; any other algorithm is an
  assertion.\<close>

definition algorithm_ok :: "bool \<Rightarrow> KEY \<Rightarrow> bool" where
  "algorithm_ok dbug pos = (case ky_algorithm pos of
      HA_KEY_ALG_UNDEF \<Rightarrow> True | HA_KEY_ALG_HASH \<Rightarrow> True
    | HA_KEY_ALG_BTREE \<Rightarrow> False | HA_KEY_ALG_OTHER \<Rightarrow> \<not> dbug)"

definition prepare_key :: "CHARSET_INFO \<Rightarrow> KEY \<Rightarrow> FM_KEYDEF" where
  "prepare_key bin pos = \<lparr> kd_seg = map (prepare_seg bin) (ky_parts pos),
     kd_flag = ky_flags pos \<inter> {HA_NOSAME, HA_NULL_ARE_EQUAL}, kd_length = 0 \<rparr>"

text \<open>The key and type of the auto-increment column. \<open>kn\<close> numbers the key types.\<close>

definition prepare_auto_key :: "(ha_keytype \<Rightarrow> nat) \<Rightarrow> TABLE \<Rightarrow> nat \<times> nat" where
  "prepare_auto_key kn t =
     fold (\<lambda>(key, pos) acc.
         fold (\<lambda>part acc.
             if fld_auto_increment (kp_field part) \<and> tb_found_next_number_field t \<and> key = tb_next_number_index t
             then (key + 1, kn (fld_key_type (kp_field part))) else acc)
           (ky_parts pos) acc)
       (enumerate 0 (tb_key_info t)) (0, 0)"

text \<open>The packed length of a segment, and the segment with its VARCHAR type unified: \<^verbatim>\<open>bit_start\<close> then
  holds the number of length bytes in the record.\<close>

definition pack_seg :: "HA_KEYSEG \<Rightarrow> HA_KEYSEG \<times> nat" where
  "pack_seg s =
     (let len = seg_length s + (if seg_null_bit s \<noteq> 0 then 1 else 0) in
      case seg_type s of
        HA_KEYTYPE_VARBINARY1 \<Rightarrow> (s\<lparr> seg_type := HA_KEYTYPE_VARTEXT1, seg_bit_start := 1 \<rparr>, len + 2)
      | HA_KEYTYPE_VARTEXT1 \<Rightarrow> (s\<lparr> seg_bit_start := 1 \<rparr>, len + 2)
      | HA_KEYTYPE_VARBINARY2 \<Rightarrow> (s\<lparr> seg_type := HA_KEYTYPE_VARTEXT1, seg_bit_start := 2 \<rparr>, len + 2)
      | HA_KEYTYPE_VARTEXT2 \<Rightarrow> (s\<lparr> seg_type := HA_KEYTYPE_VARTEXT1, seg_bit_start := 2 \<rparr>, len + 2)
      | _ \<Rightarrow> (s, len))"

definition pack_key :: "FM_KEYDEF \<Rightarrow> FM_KEYDEF" where
  "pack_key kd = kd\<lparr> kd_seg := map (fst \<circ> pack_seg) (kd_seg kd),
     kd_length := sum_list (map (snd \<circ> pack_seg) (kd_seg kd)) \<rparr>"

text \<open>How many rows fit into the size limit.\<close>

definition estimate_records :: "nat \<Rightarrow> nat \<Rightarrow> nat \<Rightarrow> nat \<Rightarrow> nat" where
  "estimate_records max_table_size reclength keys max_rows =
     (let slot_size = unat (fm_align8 (of_nat (FM_SLOT_DATA_OFFSET + reclength)));
          mem_per_row = slot_size + keys * 4 + 16;
          n = max_table_size div (if mem_per_row \<noteq> 0 then mem_per_row else 1);
          n = (if max_rows \<noteq> 0 \<and> n > max_rows then max_rows else n)
      in if n = 0 then 1 else n)"

text \<open>\<open>heap_size\<close> is the variable \<^verbatim>\<open>max_heap_table_size\<close> of the session.\<close>

definition fm_prepare_create_info ::
  "CHARSET_INFO \<Rightarrow> (ha_keytype \<Rightarrow> nat) \<Rightarrow> nat \<Rightarrow> fm_world \<Rightarrow> TABLE \<Rightarrow> bool
     \<Rightarrow> (fm_world \<times> (ha_err + FM_CREATE_INFO)) option" where
  "fm_prepare_create_info bin kn heap_size w t internal_table =
     (if tb_total_keys t > length (tb_key_info t) then Some (w, Inl HA_ERR_UNSUPPORTED)
      else let (w, ok) = my_malloc w in
      if \<not> ok then Some (w, Inl ENOMEM)
      else if \<not> (\<forall>pos \<in> set (tb_key_info t). algorithm_ok (w_dbug w) pos) then None
      else
        let keydef = map (prepare_key bin) (tb_key_info t);
            n = tb_next_number_index t;
            (auto_key, auto_key_type) = prepare_auto_key kn t
        in if tb_found_next_number_field t \<and> \<not> n < length keydef then None
        else
        let keydef = (if tb_found_next_number_field t
                      then keydef[n := (keydef ! n)\<lparr> kd_flag := insert HA_AUTO_KEY (kd_flag (keydef ! n)) \<rparr>]
                      else keydef);
            max_table_size = max heap_size 8;
            keydef = map pack_key keydef
        in Some (w, Inr \<lparr> ci_keydef = keydef, ci_reclength = tb_reclength t,
             ci_max_key_length = fold (\<lambda>kd m. if kd_length kd > m then kd_length kd else m) keydef 0,
             ci_max_records = estimate_records max_table_size (tb_reclength t) (length keydef) (tb_max_rows t),
             ci_max_table_size = max_table_size, ci_auto_increment = 0,
             ci_auto_key = auto_key, ci_auto_key_type = auto_key_type,
             ci_with_auto_increment = (tb_found_next_number_field t \<and> tb_next_number_key_offset t = 0),
             ci_internal_table = internal_table, ci_pin_share = False \<rparr>))"

section \<open>Creating a share\<close>

text \<open>The number of buckets doubles until it is a quarter of the rows or \<open>2 ^ 20\<close>.\<close>

partial_function (option) bucket_loop :: "nat \<Rightarrow> nat \<Rightarrow> nat option" where
  "bucket_loop m nbuckets =
     (if nbuckets < m \<and> nbuckets < 2 ^ 20 then bucket_loop m (2 * nbuckets) else Some nbuckets)"

declare bucket_loop.simps [code]

text \<open>A new share before it has a name. The limit is cut to 32 bits when it is passed to the core.\<close>

definition new_share :: "nat \<Rightarrow> FM_CREATE_INFO \<Rightarrow> (nat \<Rightarrow> nat \<Rightarrow> bool) \<Rightarrow> nat \<Rightarrow> string \<Rightarrow> FM_SHARE" where
  "new_share now create_info alloc nbuckets name =
     (let keys = length (ci_keydef create_info);
          core = fm_core_init_share alloc (ci_reclength create_info) keys (u32 (ci_max_records create_info)) nbuckets;
          core = core\<lparr> sc_auto_key := ci_auto_key create_info, sc_auto_key_type := ci_auto_key_type create_info,
                   sc_auto_inc := ci_auto_increment create_info \<rparr>
      in \<lparr> fs_name = name, fs_core = core, fs_keydef = ci_keydef create_info,
           fs_max_key_length = ci_max_key_length create_info, fs_open_count = 0,
           fs_delete_on_close = ci_internal_table create_info, fs_internal = ci_internal_table create_info,
           fs_create_time = now, fs_open_list = [] \<rparr>)"

text \<open>The part of \<^verbatim>\<open>fm_create\<close> that makes a share: its address, or nothing on the error path, where
  the core is freed whatever state its initialisation has left.\<close>

definition create_share ::
  "nat \<Rightarrow> fm_world \<Rightarrow> string \<Rightarrow> FM_CREATE_INFO \<Rightarrow> (fm_world \<times> addr option) option" where
  "create_share now w name create_info = do {
     nbuckets \<leftarrow> bucket_loop (ci_max_records create_info div 4) 1024;
     let (w, ok) = my_malloc w;
     if \<not> ok then Some (w, None)
     else do {
       let a = w_next w;
       let share = new_share now create_info (w_core_alloc w a) nbuckets name;
       let w = w\<lparr> w_next := a + 1 \<rparr>;
       let (w, ok) = (if sc_chunks (fs_core share) = None then (w, False) else my_malloc w);
       if \<not> ok then do {
         core \<leftarrow> fm_core_free_share (fs_core share);
         Some ((my_free w)\<lparr> w_lost := w_lost w + sc_live core \<rparr>, None) }
       else do {
         let w = upd_share w a share;
         Some (if \<not> ci_internal_table create_info then fm_share_list_add a w else w, Some a) } } }"

text \<open>The search for a share of the name: one that no handle uses is freed and made anew. The end of
  \<^verbatim>\<open>fm_create\<close> pins the share for the caller.\<close>

definition create_lookup :: "fm_world \<Rightarrow> string \<Rightarrow> (fm_world \<times> addr option) option" where
  "create_lookup w name = do {
     found \<leftarrow> fm_find_named_share w name;
     case found of
       None \<Rightarrow> Some (w, None)
     | Some a \<Rightarrow> do {
         share \<leftarrow> w_shares w a;
         if fs_open_count share = 0 then do { w \<leftarrow> fm_free a w; Some (w, None) } else Some (w, Some a) } }"

definition create_pin :: "bool \<Rightarrow> fm_world \<Rightarrow> (addr \<times> bool) option \<Rightarrow> (fm_world \<times> (addr \<times> bool) option) option" where
  "create_pin pin_share w r = (case r of
      None \<Rightarrow> Some (registry_unlock w, None)
    | Some (a, new) \<Rightarrow> do {
        share \<leftarrow> w_shares w a;
        let w = (if pin_share then upd_share w a (share\<lparr> fs_open_count := fs_open_count share + 1 \<rparr>) else w);
        Some (registry_unlock w, Some (a, new)) })"

text \<open>\<^verbatim>\<open>fm_create\<close>: the share and whether it is new, or nothing for the return code 1. \<open>now\<close> is the
  result of \<^verbatim>\<open>time\<close>.\<close>

definition fm_create ::
  "nat \<Rightarrow> fm_world \<Rightarrow> string \<Rightarrow> FM_CREATE_INFO \<Rightarrow> bool \<Rightarrow> (fm_world \<times> (addr \<times> bool) option) option" where
  "fm_create now w name create_info pin_share =
     (if ci_internal_table create_info then do {
        (w, r) \<leftarrow> create_share now w name create_info;
        Some (w, map_option (\<lambda>a. (a, True)) r) }
      else do {
        w \<leftarrow> registry_lock w;
        (w, found) \<leftarrow> create_lookup w name;
        case found of
          Some a \<Rightarrow> create_pin pin_share w (Some (a, False))
        | None \<Rightarrow> do {
            (w, r) \<leftarrow> create_share now w name create_info;
            create_pin pin_share w (map_option (\<lambda>a. (a, True)) r) } })"

section \<open>Opening and closing\<close>

text \<open>\<^verbatim>\<open>--open_count\<close>, an unsigned number: below zero it wraps.\<close>

definition uint_dec :: "nat \<Rightarrow> nat" where
  "uint_dec n = (if n = 0 then 2 ^ 32 - 1 else n - 1)"

definition new_info :: "bool \<Rightarrow> addr \<Rightarrow> FM_SHARE \<Rightarrow> nat \<Rightarrow> FM_INFO" where
  "new_info dbug a share mode = \<lparr> in_s = a, in_current_slot = -1, in_current_gen = 0,
     in_current_hash_slot = -1, in_lastinx = -1, in_errkey = -1, in_update = {}, in_readcheck = dbug,
     in_mode = mode, in_scan_pos = 0, in_lastkey_len = 0,
     in_lastkey = replicate (fs_max_key_length share) 0,
     in_scratch = replicate (sc_reclength (fs_core share)) 0, in_open_listed = False \<rparr>"

definition fm_open_from_share_locked :: "fm_world \<Rightarrow> addr \<Rightarrow> nat \<Rightarrow> (fm_world \<times> addr option) option" where
  "fm_open_from_share_locked w a mode = do {
     share \<leftarrow> w_shares w a;
     let (w, ok) = my_malloc w;
     if \<not> ok then Some (w, None)
     else do {
       let i = w_next w;
       let w = upd_share w a (share\<lparr> fs_open_count := fs_open_count share + 1 \<rparr>);
       Some ((upd_info w i (new_info (w_dbug w) a share mode))\<lparr> w_next := i + 1 \<rparr>, Some i) } }"

definition fm_open_from_share :: "fm_world \<Rightarrow> addr \<Rightarrow> nat \<Rightarrow> (fm_world \<times> addr option) option" where
  "fm_open_from_share w a mode = fm_open_from_share_locked w a mode"

text \<open>Entering a handle into the list of its share.\<close>

definition list_info :: "addr \<Rightarrow> fm_world \<Rightarrow> fm_world option" where
  "list_info i w = do {
     info \<leftarrow> w_infos w i;
     share \<leftarrow> w_shares w (in_s info);
     Some (upd_info (upd_share w (in_s info) (share\<lparr> fs_open_list := i # fs_open_list share \<rparr>))
       i (info\<lparr> in_open_listed := True \<rparr>)) }"

definition fm_open_from_share_and_register :: "fm_world \<Rightarrow> addr \<Rightarrow> nat \<Rightarrow> (fm_world \<times> addr option) option" where
  "fm_open_from_share_and_register w a mode = do {
     w \<leftarrow> registry_lock w;
     (w, r) \<leftarrow> fm_open_from_share_locked w a mode;
     w \<leftarrow> (case r of None \<Rightarrow> Some w
       | Some i \<Rightarrow> do {
           w \<leftarrow> list_info i w;
           share \<leftarrow> w_shares w a;
           Some (upd_share w a (share\<lparr> fs_open_count := uint_dec (fs_open_count share) \<rparr>)) });
     Some (registry_unlock w, r) }"

text \<open>\<^verbatim>\<open>fm_open\<close>: the handle, or \<^verbatim>\<open>ENOENT\<close> when no share has the name, or the \<^verbatim>\<open>my_errno\<close> of the
  failed allocation.\<close>

definition fm_open :: "fm_world \<Rightarrow> string \<Rightarrow> nat \<Rightarrow> (fm_world \<times> (ha_err + addr)) option" where
  "fm_open w name mode = do {
     w \<leftarrow> registry_lock w;
     found \<leftarrow> fm_find_named_share w name;
     case found of
       None \<Rightarrow> Some (registry_unlock w, Inl ENOENT)
     | Some a \<Rightarrow> do {
         (w, r) \<leftarrow> fm_open_from_share_locked w a mode;
         w \<leftarrow> (case r of None \<Rightarrow> Some w | Some i \<Rightarrow> list_info i w);
         Some (registry_unlock w, case r of None \<Rightarrow> Inl ENOMEM | Some i \<Rightarrow> Inr i) } }"

definition fm_close :: "fm_world \<Rightarrow> addr \<Rightarrow> fm_world option" where
  "fm_close w i = do {
     info \<leftarrow> w_infos w i;
     let a = in_s info;
     w \<leftarrow> registry_lock w;
     share \<leftarrow> w_shares w a;
     let share = (if in_open_listed info then share\<lparr> fs_open_list := remove1 i (fs_open_list share) \<rparr> else share);
     let share = share\<lparr> fs_open_count := uint_dec (fs_open_count share) \<rparr>;
     let w = upd_share w a share;
     w \<leftarrow> (if fs_open_count share = 0 \<and> fs_delete_on_close share then fm_free a w else Some w);
     Some (registry_unlock ((my_free w)\<lparr> w_infos := (w_infos w)(i := None) \<rparr>)) }"

definition fm_release_share :: "fm_world \<Rightarrow> addr \<Rightarrow> bool \<Rightarrow> fm_world option" where
  "fm_release_share w a internal_table =
     (if internal_table then fm_free a w
      else do {
        w \<leftarrow> registry_lock w;
        share \<leftarrow> w_shares w a;
        let share = share\<lparr> fs_open_count := uint_dec (fs_open_count share) \<rparr>;
        let w = upd_share w a share;
        w \<leftarrow> (if fs_open_count share = 0 then fm_free a w else Some w);
        Some (registry_unlock w) })"

section \<open>Drop, rename, clear\<close>

definition fm_try_free :: "addr \<Rightarrow> fm_world \<Rightarrow> fm_world option" where
  "fm_try_free a w = do {
     share \<leftarrow> w_shares w a;
     if fs_open_count share = 0 then fm_free a w
     else Some (upd_share w a (share\<lparr> fs_delete_on_close := True \<rparr>)) }"

definition fm_delete_table :: "fm_world \<Rightarrow> string \<Rightarrow> (fm_world \<times> ha_err) option" where
  "fm_delete_table w name = do {
     w \<leftarrow> registry_lock w;
     found \<leftarrow> fm_find_named_share w name;
     case found of
       None \<Rightarrow> Some (registry_unlock w, ENOENT)
     | Some a \<Rightarrow> do { w \<leftarrow> fm_try_free a w; Some (registry_unlock w, HA_OK) } }"

definition fm_drop_table :: "fm_world \<Rightarrow> addr \<Rightarrow> fm_world option" where
  "fm_drop_table w i = do {
     info \<leftarrow> w_infos w i;
     w \<leftarrow> registry_lock w;
     w \<leftarrow> fm_try_free (in_s info) w;
     Some (registry_unlock w) }"

text \<open>The duplicate of the new name is allocated before the old name is freed.\<close>

definition fm_rename :: "fm_world \<Rightarrow> string \<Rightarrow> string \<Rightarrow> (fm_world \<times> ha_err) option" where
  "fm_rename w old_name new_name = do {
     w \<leftarrow> registry_lock w;
     found \<leftarrow> fm_find_named_share w old_name;
     case found of
       None \<Rightarrow> Some (registry_unlock w, HA_OK)
     | Some a \<Rightarrow> do {
         share \<leftarrow> w_shares w a;
         let (w, ok) = my_malloc w;
         if \<not> ok then Some (registry_unlock w, ENOMEM)
         else Some (registry_unlock (upd_share (my_free w) a (share\<lparr> fs_name := new_name \<rparr>)), HA_OK) } }"

definition fm_clear :: "FM_SHARE \<Rightarrow> FM_INFO \<Rightarrow> (FM_SHARE \<times> FM_INFO) option" where
  "fm_clear share info = do {
     core \<leftarrow> fm_core_clear (fs_core share);
     Some (share\<lparr> fs_core := core \<rparr>,
       info\<lparr> in_current_slot := -1, in_current_hash_slot := -1, in_lastinx := -1, in_update := {} \<rparr>) }"

end
