(* ===== verification/FM_Handler.thy ===== *)
theory FM_Handler
  imports FM_Registry
begin

text \<open>
  The handler of the server, \<^verbatim>\<open>ha_fastmem.cc\<close> and \<^verbatim>\<open>ha_fastmem.h\<close>. The methods that work on rows
  take the share and the handle that \<^verbatim>\<open>file\<close> refers to and the fields of the handler itself; those
  that open, create and drop tables take the state of the registry. A write statement keeps the row
  lock of the row it has read until it updates or deletes the row, or moves on.
\<close>

section \<open>State\<close>

record ha_fastmem =
  h_file :: "addr option"
  h_internal_share :: "addr option"
  h_internal_table :: bool
  h_implicit_emptied :: bool
  h_write_stmt :: bool
  h_row_locked :: bool
  h_locked_slot :: fm_i32

definition new_ha_fastmem :: ha_fastmem where
  "new_ha_fastmem = \<lparr> h_file = None, h_internal_share = None, h_internal_table = False, h_implicit_emptied = False,
     h_write_stmt = False, h_row_locked = False, h_locked_slot = -1 \<rparr>"

text \<open>The outcome of a method that reads a row: share, handle, handler, return code, record buffer.\<close>

type_synonym row_result = "FM_SHARE \<times> FM_INFO \<times> ha_fastmem \<times> ha_err \<times> image"

section \<open>The row lock of a write statement\<close>

definition unlock_current_row :: "FM_SHARE \<Rightarrow> ha_fastmem \<Rightarrow> (FM_SHARE \<times> ha_fastmem) option" where
  "unlock_current_row share h =
     (if \<not> h_row_locked h then Some (share, h)
      else do {
        core \<leftarrow> unlock_slot (fs_core share) (h_locked_slot h);
        Some (share\<lparr> fs_core := core \<rparr>, h\<lparr> h_row_locked := False, h_locked_slot := -1 \<rparr>) })"

definition lock_current_row :: "FM_SHARE \<Rightarrow> FM_INFO \<Rightarrow> ha_fastmem \<Rightarrow> (FM_SHARE \<times> ha_fastmem) option" where
  "lock_current_row share info h =
     (if in_current_slot info < 0 then Some (share, h)
      else if h_row_locked h \<and> h_locked_slot h = in_current_slot info then Some (share, h)
      else do {
        (share, h) \<leftarrow> unlock_current_row share h;
        core \<leftarrow> lock_slot (fs_core share) (in_current_slot info);
        Some (share\<lparr> fs_core := core \<rparr>, h\<lparr> h_row_locked := True, h_locked_slot := in_current_slot info \<rparr>) })"

text \<open>What every read of a write statement ends with: lock the row and read it again; if the row is gone,
  release the lock and return \<open>gone\<close>.\<close>

definition lock_and_reread ::
  "ha_err \<Rightarrow> FM_SHARE \<Rightarrow> FM_INFO \<Rightarrow> ha_fastmem \<Rightarrow> image \<Rightarrow> row_result option" where
  "lock_and_reread gone share info h buf = do {
     (share, h) \<leftarrow> lock_current_row share info h;
     (info, rc, buf) \<leftarrow> fm_reread_locked share info buf;
     if rc \<noteq> FM_ERR_OK then do {
       (share, h) \<leftarrow> unlock_current_row share h;
       Some (share, info, h, gone, buf) }
     else Some (share, info, h, HA_OK, buf) }"

text \<open>\<^verbatim>\<open>external_lock\<close>, called at the start and at the end of a statement.\<close>

datatype lock_type = F_RDLCK | F_WRLCK | F_UNLCK

definition external_lock :: "FM_SHARE \<Rightarrow> ha_fastmem \<Rightarrow> lock_type \<Rightarrow> (FM_SHARE \<times> ha_fastmem) option" where
  "external_lock share h ty = (case ty of
      F_WRLCK \<Rightarrow> Some (share, h\<lparr> h_write_stmt := True \<rparr>)
    | F_UNLCK \<Rightarrow> unlock_current_row share (h\<lparr> h_write_stmt := False \<rparr>)
    | F_RDLCK \<Rightarrow> Some (share, h))"

section \<open>Writing rows\<close>

text \<open>\<^verbatim>\<open>update_auto_increment\<close> is the server's: \<open>auto\<close> is what it does to the share and the record, or \<open>None\<close> when
  the table has no such column or the record is not the one of the table.\<close>

definition write_row ::
  "my_korr \<Rightarrow> (FM_SHARE \<Rightarrow> image \<Rightarrow> FM_SHARE \<times> image \<times> ha_err) option \<Rightarrow> FM_SHARE \<Rightarrow> FM_INFO \<Rightarrow> image
     \<Rightarrow> (FM_SHARE \<times> FM_INFO \<times> ha_err \<times> image) option" where
  "write_row K auto share info buf =
     (let (share, buf, res) = (case auto of None \<Rightarrow> (share, buf, HA_OK) | Some f \<Rightarrow> f share buf)
      in if res \<noteq> HA_OK then Some (share, info, res, buf)
         else do { (share, info, rc) \<leftarrow> fm_write K share info buf; Some (share, info, rc, buf) })"

text \<open>The guard of \<^verbatim>\<open>update_row\<close> and \<^verbatim>\<open>delete_row\<close>: whether the lock of the current row is held, which a write
  statement without any row lock tries to arrange. Otherwise all locks are dropped.\<close>

definition holds_row :: "FM_INFO \<Rightarrow> ha_fastmem \<Rightarrow> bool" where
  "holds_row info h = (h_row_locked h \<and> h_locked_slot h = in_current_slot info)"

definition ensure_locked :: "FM_SHARE \<Rightarrow> FM_INFO \<Rightarrow> ha_fastmem \<Rightarrow> (FM_SHARE \<times> ha_fastmem \<times> bool) option" where
  "ensure_locked share info h =
     (if h_write_stmt h \<and> holds_row info h then Some (share, h, True)
      else do {
        (share, h) \<leftarrow> (if h_write_stmt h \<and> 0 \<le> in_current_slot info \<and> \<not> h_row_locked h
                       then lock_current_row share info h else Some (share, h));
        if holds_row info h then Some (share, h, True)
        else do { (share, h) \<leftarrow> unlock_current_row share h; Some (share, h, False) } })"

definition update_row ::
  "my_korr \<Rightarrow> FM_SHARE \<Rightarrow> FM_INFO \<Rightarrow> ha_fastmem \<Rightarrow> image \<Rightarrow> image
     \<Rightarrow> (FM_SHARE \<times> FM_INFO \<times> ha_fastmem \<times> ha_err) option" where
  "update_row K share info h old_data new_data = do {
     (share, h, locked) \<leftarrow> ensure_locked share info h;
     if \<not> locked then Some (share, info, h, HA_ERR_RECORD_CHANGED)
     else do {
       (share, info, rc) \<leftarrow> fm_update_locked K share info old_data new_data;
       (share, h) \<leftarrow> unlock_current_row share h;
       Some (share, info, h, rc) } }"

definition delete_row ::
  "FM_SHARE \<Rightarrow> FM_INFO \<Rightarrow> ha_fastmem \<Rightarrow> image \<Rightarrow> (FM_SHARE \<times> FM_INFO \<times> ha_fastmem \<times> ha_err) option" where
  "delete_row share info h buf = do {
     (share, h, locked) \<leftarrow> ensure_locked share info h;
     if \<not> locked then Some (share, info, h, HA_ERR_RECORD_CHANGED)
     else do {
       (share, info, rc) \<leftarrow> fm_delete_locked share info buf;
       (share, h) \<leftarrow> unlock_current_row share h;
       Some (share, info, h, rc) } }"

text \<open>The value, how many were reserved, and \<^verbatim>\<open>my_errno\<close> if it is set.\<close>

definition get_auto_increment ::
  "FM_SHARE \<Rightarrow> fm_u64 \<Rightarrow> fm_u64 \<Rightarrow> fm_u64 \<Rightarrow> FM_SHARE \<times> fm_u64 \<times> fm_u64 \<times> ha_err option" where
  "get_auto_increment share offset increment nb =
     (let (share, first_value, reserved) = fm_get_auto_increment share offset increment nb
      in (share, first_value, reserved, if first_value = NOT 0 then Some HA_ERR_AUTOINC_READ_FAILED else None))"

section \<open>Reading rows\<close>

text \<open>\<^verbatim>\<open>active_index\<close> is a field of the server's class \<^verbatim>\<open>handler\<close>. The parts map and the search mode are ignored by
  the engine.\<close>

definition index_read_idx_map ::
  "FM_SHARE \<Rightarrow> FM_INFO \<Rightarrow> ha_fastmem \<Rightarrow> image \<Rightarrow> nat \<Rightarrow> image \<Rightarrow> row_result option" where
  "index_read_idx_map share info h buf index key = do {
     (share, info, rc, buf) \<leftarrow> fm_find_key share info index key buf;
     if rc = HA_OK \<and> h_write_stmt h then lock_and_reread HA_ERR_KEY_NOT_FOUND share info h buf
     else Some (share, info, h, rc, buf) }"

definition index_read_map ::
  "nat \<Rightarrow> FM_SHARE \<Rightarrow> FM_INFO \<Rightarrow> ha_fastmem \<Rightarrow> image \<Rightarrow> image \<Rightarrow> row_result option" where
  "index_read_map active_index share info h buf key = do {
     (share, info, rc, buf) \<leftarrow> fm_find_key share info active_index key buf;
     if rc = HA_OK \<and> h_write_stmt h then lock_and_reread HA_ERR_KEY_NOT_FOUND share info h buf
     else Some (share, info, h, rc, buf) }"

definition index_read_last_map ::
  "nat \<Rightarrow> FM_SHARE \<Rightarrow> FM_INFO \<Rightarrow> ha_fastmem \<Rightarrow> image \<Rightarrow> image \<Rightarrow> row_result option" where
  "index_read_last_map active_index share info h buf key = do {
     (share, info, rc, buf) \<leftarrow> fm_find_key share info active_index key buf;
     if rc = HA_OK \<and> h_write_stmt h then lock_and_reread HA_ERR_KEY_NOT_FOUND share info h buf
     else Some (share, info, h, rc, buf) }"

definition index_next :: "FM_SHARE \<Rightarrow> FM_INFO \<Rightarrow> ha_fastmem \<Rightarrow> image \<Rightarrow> row_result option" where
  "index_next share info h buf =
     (if in_lastinx info < 0 then Some (share, info, h, HA_ERR_WRONG_INDEX, buf)
      else do {
        (share, info, rc, buf) \<leftarrow>
          fm_find_next_key share info (nat (in_lastinx info)) (in_lastkey info) (in_current_slot info) buf;
        if rc = HA_ERR_KEY_NOT_FOUND \<and> HA_STATE_NO_KEY \<notin> in_update info
        then Some (share, info, h, HA_ERR_END_OF_FILE, buf)
        else if rc = HA_OK \<and> h_write_stmt h then lock_and_reread HA_ERR_KEY_NOT_FOUND share info h buf
        else Some (share, info, h, rc, buf) })"

definition index_prev :: ha_err where
  "index_prev = HA_ERR_WRONG_COMMAND"

definition index_first :: ha_err where
  "index_first = HA_ERR_WRONG_COMMAND"

definition index_last :: ha_err where
  "index_last = HA_ERR_WRONG_COMMAND"

definition rnd_init :: "FM_SHARE \<Rightarrow> FM_INFO \<Rightarrow> ha_fastmem \<Rightarrow> bool \<Rightarrow> (FM_SHARE \<times> FM_INFO \<times> ha_fastmem) option" where
  "rnd_init share info h scan =
     (if scan then do { (share, h) \<leftarrow> unlock_current_row share h; Some (share, fm_scan_init info, h) }
      else Some (share, info, h))"

definition rnd_next :: "FM_SHARE \<Rightarrow> FM_INFO \<Rightarrow> ha_fastmem \<Rightarrow> image \<Rightarrow> row_result option" where
  "rnd_next share info h buf = do {
     (info, rc, buf) \<leftarrow> fm_scan share info buf;
     if rc = HA_ERR_END_OF_FILE then Some (share, info, h, HA_ERR_END_OF_FILE, buf)
     else if rc = HA_OK \<and> h_write_stmt h then lock_and_reread HA_ERR_RECORD_DELETED share info h buf
     else Some (share, info, h, rc, buf) }"

definition rnd_pos :: "FM_SHARE \<Rightarrow> FM_INFO \<Rightarrow> ha_fastmem \<Rightarrow> image \<Rightarrow> FM_SLOT_REF \<Rightarrow> row_result option" where
  "rnd_pos share info h buf pos = do {
     (info, rc, buf) \<leftarrow> fm_rrnd share info buf pos;
     if rc = HA_OK \<and> h_write_stmt h then lock_and_reread HA_ERR_RECORD_DELETED share info h buf
     else Some (share, info, h, rc, buf) }"

definition ha_position :: "FM_INFO \<Rightarrow> FM_SLOT_REF" where
  "ha_position info = fm_set_position info"

text \<open>\<^verbatim>\<open>find_unique_row\<close> up to the row lock. The lookup goes to the scratch buffer of the handle, and the row is
  copied to the caller's record. A key that is not unique is refused like a row that is not found.\<close>

definition unique_lookup ::
  "my_env \<Rightarrow> FM_SHARE \<Rightarrow> FM_INFO \<Rightarrow> image \<Rightarrow> nat \<Rightarrow> (FM_SHARE \<times> FM_INFO \<times> ha_err \<times> image) option" where
  "unique_lookup E share info record_buf unique_idx =
     (if \<not> unique_idx < length (fs_keydef share) then None
      else let kd = fs_keydef share ! unique_idx in
      if HA_NOSAME \<notin> kd_flag kd then Some (share, info, HA_ERR_KEY_NOT_FOUND, record_buf)
      else do {
        let packed = fm_make_key E kd record_buf;
        let info = info\<lparr> in_lastkey := memcpy (in_lastkey info) packed (length packed) \<rparr>;
        (core, rc, sc, idx) \<leftarrow> fm_core_find (fs_core share) unique_idx (in_lastkey info) (in_scratch info) (-1);
        let share = share\<lparr> fs_core := core \<rparr>;
        let info = info\<lparr> in_scratch := sc \<rparr>;
        if rc \<noteq> FM_ERR_OK then Some (share, info, HA_ERR_KEY_NOT_FOUND, record_buf)
        else do {
          g \<leftarrow> fm_slot_gen share idx;
          let info = info\<lparr> in_current_slot := idx, in_current_gen := g, in_lastinx := int unique_idx,
                in_update := {HA_STATE_AKTIV} \<rparr>;
          Some (share, info, HA_OK, memcpy record_buf sc (sc_reclength core)) } })"

text \<open>The whole method. It returns 0 (found) or 1.\<close>

definition find_unique_row ::
  "my_env \<Rightarrow> FM_SHARE \<Rightarrow> FM_INFO \<Rightarrow> ha_fastmem \<Rightarrow> image \<Rightarrow> nat \<Rightarrow> (FM_SHARE \<times> FM_INFO \<times> ha_fastmem \<times> nat \<times> image) option" where
  "find_unique_row E share info h record_buf unique_idx = do {
     (share, info, rc, record_buf) \<leftarrow> unique_lookup E share info record_buf unique_idx;
     if rc \<noteq> HA_OK then Some (share, info, h, 1, record_buf)
     else if h_write_stmt h then do {
       (share, info, h, rc, record_buf) \<leftarrow> lock_and_reread HA_ERR_KEY_NOT_FOUND share info h record_buf;
       Some (share, info, h, if rc = HA_OK then 0 else 1, record_buf) }
     else Some (share, info, h, 0, record_buf) }"

section \<open>Statistics and other calls\<close>

record ha_statistics =
  stats_errkey :: int
  stats_records :: int
  stats_deleted :: nat
  stats_mean_rec_length :: nat
  stats_data_file_length :: fm_u64
  stats_index_file_length :: fm_u64
  stats_max_data_file_length :: fm_u64
  stats_delete_length :: nat
  stats_create_time :: nat
  stats_auto_increment_value :: fm_u64

text \<open>The estimate of rows per key: 1 for a unique key, else the rows per bucket, at least 2.\<close>

definition rec_per_key :: "bool \<Rightarrow> int \<Rightarrow> nat \<Rightarrow> int" where
  "rec_per_key nosame records nbuckets =
     (if nosame then 1
      else let per_bucket = (if records > 1 then records div int nbuckets else 2)
           in if per_bucket < 2 then 2 else per_bucket)"

text \<open>\<open>nosame\<close> has the uniqueness flags of the table's keys; \<open>auto\<close> is the flag \<^verbatim>\<open>HA_STATUS_AUTO\<close>, without which the
  value of an earlier call stays.\<close>

definition ha_info ::
  "FM_SHARE \<Rightarrow> FM_INFO \<Rightarrow> ha_statistics \<Rightarrow> bool \<Rightarrow> bool list \<Rightarrow> (FM_INFO \<times> ha_statistics \<times> int list) option" where
  "ha_info share info st auto nosame = do {
     (info, x) \<leftarrow> fm_info share info;
     let st = \<lparr> stats_errkey = x_errkey x, stats_records = x_records x, stats_deleted = x_deleted x,
       stats_mean_rec_length = x_reclength x, stats_data_file_length = x_data_length x,
       stats_index_file_length = x_index_length x,
       stats_max_data_file_length = of_nat (x_max_records x) * of_nat (x_reclength x),
       stats_delete_length = x_deleted x * x_reclength x, stats_create_time = x_create_time x,
       stats_auto_increment_value = (if auto then x_auto_increment x else stats_auto_increment_value st) \<rparr>;
     est \<leftarrow> those (map (\<lambda>(k, u). map_option (\<lambda>kc. rec_per_key u (x_records x) (unat (kc_nbuckets kc)))
         (get_key (fs_core share) k)) (enumerate 0 nosame));
     Some (info, st, est) }"

definition ha_extra :: "FM_SHARE \<Rightarrow> FM_INFO \<Rightarrow> ha_extra_function \<Rightarrow> (FM_SHARE \<times> FM_INFO) option" where
  "ha_extra share info operation = fm_extra share info operation"

definition ha_reset :: "FM_SHARE \<Rightarrow> FM_INFO \<Rightarrow> ha_fastmem \<Rightarrow> (FM_SHARE \<times> FM_INFO \<times> ha_fastmem) option" where
  "ha_reset share info h = do { (share, h) \<leftarrow> unlock_current_row share h; Some (share, fm_reset info, h) }"

definition delete_all_rows :: "FM_SHARE \<Rightarrow> FM_INFO \<Rightarrow> ha_fastmem \<Rightarrow> (FM_SHARE \<times> FM_INFO \<times> ha_fastmem) option" where
  "delete_all_rows share info h = do { (share, info) \<leftarrow> fm_clear share info; Some (share, info, h) }"

definition reset_auto_increment :: "FM_SHARE \<Rightarrow> fm_u64 \<Rightarrow> FM_SHARE" where
  "reset_auto_increment share v = fm_set_auto_increment share v"

definition disable_indexes :: ha_err where
  "disable_indexes = HA_ERR_WRONG_COMMAND"

definition enable_indexes :: ha_err where
  "enable_indexes = HA_ERR_WRONG_COMMAND"

definition indexes_are_disabled :: nat where
  "indexes_are_disabled = 0"

datatype rkey_function = HA_READ_KEY_EXACT | HA_READ_AFTER_KEY | HA_READ_OTHER

record key_range =
  kr_length :: nat
  kr_flag :: rkey_function

text \<open>\<open>None\<close> is \<^verbatim>\<open>HA_POS_ERROR\<close>. \<open>estimate\<close> is the entry of \<^verbatim>\<open>rec_per_key\<close> for the whole key.\<close>

definition records_in_range ::
  "ha_statistics \<Rightarrow> nat \<Rightarrow> int \<Rightarrow> key_range option \<Rightarrow> key_range option \<Rightarrow> int option" where
  "records_in_range st key_length estimate min_key max_key = (case (min_key, max_key) of
      (Some lo, Some hi) \<Rightarrow>
        if kr_length lo \<noteq> kr_length hi \<or> kr_length lo \<noteq> key_length \<or>
           kr_flag lo \<noteq> HA_READ_KEY_EXACT \<or> kr_flag hi \<noteq> HA_READ_AFTER_KEY
        then None
        else Some (if stats_records st \<le> 1 then stats_records st else estimate)
    | _ \<Rightarrow> None)"


section \<open>Tables\<close>

text \<open>What the server provides when a table is opened or created: its character set for binary data, the numbers of
  the key types, the size limit of the session, the clock, the functions behind the keys.\<close>

record server =
  sv_bin :: CHARSET_INFO
  sv_kn :: "ha_keytype \<Rightarrow> nat"
  sv_heap_size :: nat
  sv_now :: nat
  sv_env :: my_env

text \<open>The part of \<^verbatim>\<open>open\<close> for a table without a share, or an internal one: create the share and open it. The result is
  the handler and whether it has a handle now.\<close>

definition open_new ::
  "server \<Rightarrow> fm_world \<Rightarrow> ha_fastmem \<Rightarrow> TABLE \<Rightarrow> string \<Rightarrow> nat \<Rightarrow> (fm_world \<times> ha_fastmem) option" where
  "open_new S w h t name mode = do {
     let h = h\<lparr> h_file := None \<rparr>;
     (w, prep) \<leftarrow> fm_prepare_create_info (sv_bin S) (sv_kn S) (sv_heap_size S) w t (h_internal_table h);
     case prep of
       Inl e \<Rightarrow> Some (w, h)
     | Inr create_info \<Rightarrow> do {
         (w, r) \<leftarrow> fm_create (sv_now S) w name (create_info\<lparr> ci_pin_share := True \<rparr>) True;
         let w = my_free w;
         case r of
           None \<Rightarrow> Some (w, h)
         | Some (a, created_new_share) \<Rightarrow> do {
             let h = h\<lparr> h_internal_share := Some a, h_implicit_emptied := created_new_share \<rparr>;
             (w, file) \<leftarrow> (if h_internal_table h then fm_open_from_share w a mode
                           else fm_open_from_share_and_register w a mode);
             case file of
               None \<Rightarrow> do { w \<leftarrow> fm_release_share w a (h_internal_table h); Some (w, h) }
             | Some i \<Rightarrow> Some (w, h\<lparr> h_file := Some i \<rparr>) } } }"

text \<open>\<^verbatim>\<open>open\<close> returns 0 or 1. \<open>internal\<close> is the flag \<^verbatim>\<open>HA_OPEN_INTERNAL_TABLE\<close>.\<close>

definition ha_open ::
  "server \<Rightarrow> fm_world \<Rightarrow> ha_fastmem \<Rightarrow> TABLE \<Rightarrow> string \<Rightarrow> nat \<Rightarrow> bool \<Rightarrow> (fm_world \<times> ha_fastmem \<times> nat) option" where
  "ha_open S w h t name mode internal = do {
     let h = h\<lparr> h_internal_table := internal \<rparr>;
     (w, h) \<leftarrow> (if internal then open_new S w h t name mode
       else do {
         (w, r) \<leftarrow> fm_open w name mode;
         case r of
           Inr i \<Rightarrow> Some (w, h\<lparr> h_file := Some i \<rparr>)
         | Inl e \<Rightarrow> if e = ENOENT then open_new S w h t name mode else Some (w, h\<lparr> h_file := None \<rparr>) });
     case h_file h of
       None \<Rightarrow> Some (w, h, 1)
     | Some i \<Rightarrow> do {
         info \<leftarrow> w_infos w i;
         share \<leftarrow> w_shares w (in_s info);
         core \<leftarrow> fm_key_ops_init (sv_env S) (fs_keydef share) (fs_core share);
         Some (upd_share w (in_s info) (share\<lparr> fs_core := core \<rparr>), h, 0) } }"

text \<open>\<^verbatim>\<open>clone\<close> opens a new handler on the name of the share. \<open>got\<close> says whether the server could make the handler.\<close>

definition ha_clone ::
  "server \<Rightarrow> fm_world \<Rightarrow> ha_fastmem \<Rightarrow> TABLE \<Rightarrow> nat \<Rightarrow> bool \<Rightarrow> (fm_world \<times> ha_fastmem option) option" where
  "ha_clone S w h t mode got =
     (if \<not> got then Some (w, None)
      else do {
        i \<leftarrow> h_file h;
        info \<leftarrow> w_infos w i;
        share \<leftarrow> w_shares w (in_s info);
        (w, new_handler, rc) \<leftarrow> ha_open S w new_ha_fastmem t (fs_name share) mode False;
        Some (w, if rc = 0 then Some new_handler else None) })"

definition ha_close :: "fm_world \<Rightarrow> ha_fastmem \<Rightarrow> fm_world option" where
  "ha_close w h = do { i \<leftarrow> h_file h; fm_close w i }"

text \<open>\<^verbatim>\<open>fastmem_drop_table\<close>, also \<^verbatim>\<open>ha_fastmem::delete_table\<close>: -1 for a table that is not there.\<close>

definition fastmem_drop_table :: "fm_world \<Rightarrow> string \<Rightarrow> (fm_world \<times> int) option" where
  "fastmem_drop_table w path = do {
     (w, e) \<leftarrow> fm_delete_table w path;
     Some (w, if e = ENOENT then -1 else 0) }"

definition ha_delete_table :: "fm_world \<Rightarrow> string \<Rightarrow> (fm_world \<times> int) option" where
  "ha_delete_table w name = fastmem_drop_table w name"

text \<open>\<^verbatim>\<open>ha_fastmem::drop_table\<close> marks the share and closes the handler.\<close>

definition ha_drop_table :: "fm_world \<Rightarrow> ha_fastmem \<Rightarrow> fm_world option" where
  "ha_drop_table w h = do {
     i \<leftarrow> h_file h;
     info \<leftarrow> w_infos w i;
     share \<leftarrow> w_shares w (in_s info);
     ha_close (upd_share w (in_s info) (share\<lparr> fs_delete_on_close := True \<rparr>)) h }"

definition rename_table :: "fm_world \<Rightarrow> string \<Rightarrow> string \<Rightarrow> (fm_world \<times> ha_err) option" where
  "rename_table w from_name to_name = fm_rename w from_name to_name"

text \<open>\<^verbatim>\<open>ha_fastmem::create\<close>: \<open>next_value\<close> is the \<^verbatim>\<open>auto_increment_value\<close> of the statement. The result is an error of the
  preparation, or whether \<^verbatim>\<open>fm_create\<close> failed.\<close>

definition ha_create ::
  "server \<Rightarrow> fm_world \<Rightarrow> ha_fastmem \<Rightarrow> string \<Rightarrow> TABLE \<Rightarrow> fm_u64 \<Rightarrow> (fm_world \<times> ha_fastmem \<times> (ha_err + bool)) option" where
  "ha_create S w h name t next_value = do {
     (w, prep) \<leftarrow> fm_prepare_create_info (sv_bin S) (sv_kn S) (sv_heap_size S) w t (h_internal_table h);
     case prep of
       Inl e \<Rightarrow> Some (w, h, Inl e)
     | Inr create_info \<Rightarrow> do {
         let create_info = create_info\<lparr> ci_auto_increment := (if next_value \<noteq> 0 then next_value - 1 else 0) \<rparr>;
         (w, r) \<leftarrow> fm_create (sv_now S) w name create_info False;
         Some (my_free w, case r of None \<Rightarrow> h | Some (a, new) \<Rightarrow> h\<lparr> h_internal_share := Some a \<rparr>, Inr (r \<noteq> None)) } }"

text \<open>\<^verbatim>\<open>update_create_info\<close>: the counter goes into the description unless the statement names one.\<close>

definition update_create_info ::
  "FM_SHARE \<Rightarrow> FM_INFO \<Rightarrow> ha_statistics \<Rightarrow> bool list \<Rightarrow> bool \<Rightarrow> fm_u64 \<Rightarrow> (FM_INFO \<times> ha_statistics \<times> fm_u64) option" where
  "update_create_info share info st nosame used_auto auto_value = do {
     (info, st, est) \<leftarrow> ha_info share info st True nosame;
     Some (info, st, if \<not> used_auto then stats_auto_increment_value st else auto_value) }"

definition check_if_incompatible_data :: "bool \<Rightarrow> fm_u64 \<Rightarrow> bool \<Rightarrow> bool \<Rightarrow> bool" where
  "check_if_incompatible_data used_auto auto_value changes_equal_no changes_pack_length =
     (used_auto \<and> auto_value \<noteq> 0 \<or> changes_equal_no \<or> changes_pack_length)"

end
