(* ===== verification/FM_Example.thy ===== *)
theory FM_Example
  imports FM_Hash
begin

text \<open>
  A small concrete table, on which the theorems of the later theories are applied: one byte
  per record, one unique hash key over it, three rows at most and two buckets. It is made by
  the initialisation code, and its rows by the insert code.
\<close>

definition ex_charset :: CHARSET_INFO where
  "ex_charset = \<lparr> mbmaxlen = 1, ci_charpos = (\<lambda>b n. n), ci_hash_sort = (\<lambda>h b. h),
     ci_strnncollsp = (\<lambda>a b. if a = b then 0 else 1) \<rparr>"

definition ex_env :: my_env where
  "ex_env = \<lparr> my_hasher_mysql5x = (1, 4), my_hash_add = (\<lambda>h b. (fst h + ucast b, snd h)),
     get_rec_bits = (\<lambda>r p s l. 0), uint2korr = (\<lambda>a b. unat a + 256 * unat b) \<rparr>"

definition ex_keydef :: FM_KEYDEF where
  "ex_keydef = column_keydef ex_charset 0 1 {HA_NOSAME}"

definition ex_empty :: FM_SHARE_CORE where
  "ex_empty = the (fm_key_ops_init ex_env [ex_keydef] (fm_core_init_share (\<lambda>_ _. True) 1 1 3 2))"

definition ex_insert :: "FM_SHARE_CORE \<Rightarrow> image \<Rightarrow> FM_SHARE_CORE" where
  "ex_insert s r = fst (the (fm_core_insert_row s r (-1) (Some 0) [0]))"

definition ex_one :: FM_SHARE_CORE where
  "ex_one = ex_insert ex_empty [7]"

definition ex_two :: FM_SHARE_CORE where
  "ex_two = ex_insert ex_one [9]"

lemma ex_empty_wired:
  "fm_key_ops_init ex_env [ex_keydef] (fm_core_init_share (\<lambda>_ _. True) 1 1 3 2) = Some ex_empty"
  "ex_empty = wire_keys [(fm_key_ops ex_env ex_keydef, True)] (fm_core_init_share (\<lambda>_ _. True) 1 1 3 2)"
  by (simp_all add: ex_empty_def fm_key_ops_init_def ex_keydef_def column_keydef_def init_share_ok serves_def)

lemma ex_empty_table:
  "core_inv ex_empty" "quiet ex_empty" "limited ex_empty" "rows ex_empty = Map.empty"
  "wlocked ex_empty = {}" "sc_keys ex_empty = 1" "sc_reclength ex_empty = 1"
  "kstat ex_empty 0 = Some (fm_key_ops ex_env ex_keydef, True, 2)" "sc_max_records ex_empty = 3"
proof -
  have ok: "\<forall>w \<in> set [(fm_key_ops ex_env ex_keydef, True)]. key_ok (Some (fst w, snd w, of_nat (if (2::nat) \<noteq> 0 then 2 else 1024)))"
    using fm_key_ops_ok [of ex_keydef 2 ex_env True]
    by (simp add: ex_keydef_def column_keydef_def seg_ok_def is_bit_def)
  have e: "ex_empty = wire_keys [(fm_key_ops ex_env ex_keydef, True)]
      (fm_core_init_share (\<lambda>_ _. True) 1 (length [(fm_key_ops ex_env ex_keydef, True)]) 3 2)"
    by (simp add: ex_empty_wired(2))
  note w = wired_share_inv [where ops = "\<lambda>_ _. True" and rl = 1 and mr = 3 and nb = 2 and ws = "[(fm_key_ops ex_env ex_keydef, True)]",
      OF _ _ _ _ ok, folded e]
  have sv: "serves (\<lambda>_ _. True) m" for m by (simp add: serves_def)
  show "core_inv ex_empty" "quiet ex_empty" "limited ex_empty" "rows ex_empty = Map.empty"
    "wlocked ex_empty = {}" "sc_keys ex_empty = 1" "sc_reclength ex_empty = 1"
    "kstat ex_empty 0 = Some (fm_key_ops ex_env ex_keydef, True, 2)" "sc_max_records ex_empty = 3"
    using w sv by simp_all
qed

lemma ex_empty_alloc: "\<not> alloc_fails ex_empty" "sc_records ex_empty = 0"
  by (simp_all add: alloc_fails_def ex_empty_wired(2) wire_keys_def init_share_ok serves_def)

definition ex_slot_one :: fm_i32 where
  "ex_slot_one = fst (snd (snd (the (fm_core_insert_row ex_empty [7] (-1) (Some 0) [0]))))"

definition ex_slot_two :: fm_i32 where
  "ex_slot_two = fst (snd (snd (the (fm_core_insert_row ex_one [9] (-1) (Some 0) [0]))))"

lemma ex_same_key: "same_key (Some (fm_key_ops ex_env ex_keydef, u, n)) a b = (byte_at a 0 = byte_at b 0)"
  by (simp add: same_key_def fm_key_ops_def fm_ops_cmp_rec_rec_def fm_rec_key_cmp_def ex_keydef_def
      column_keydef_def rec_cmp_seg_def rec_null_def is_bit_def bytes_def)

lemma ex_has_null: "\<not> has_null (Some (fm_key_ops ex_env ex_keydef, u, n)) r"
  by (simp add: has_null_def fm_key_ops_def fm_ops_has_null_part_def fm_if_null_in_key_def
      ex_keydef_def column_keydef_def rec_null_def)

lemma ex_conflict: "conflict (Some (fm_key_ops ex_env ex_keydef, True, n)) R r =
    (\<exists>i a. R i = Some a \<and> byte_at a 0 = byte_at r 0)"
  by (simp add: conflict_def ex_has_null ex_same_key is_unique_def)

lemma ex_matches: "matches (Some (fm_key_ops ex_env ex_keydef, u, n)) r p = (byte_at r 0 = byte_at p 0)"
  by (simp add: matches_def fm_key_ops_def fm_ops_cmp_rec_key_def fm_key_cmp_def ex_keydef_def
      column_keydef_def rec_null_def is_bit_def bytes_def)

lemma ex_one_table:
  "core_inv ex_one" "quiet ex_one" "limited ex_one" "rows ex_one = [ex_slot_one \<mapsto> [7]]"
  "same_shape ex_empty ex_one" "sc_records ex_one = 1"
proof -
  have nc: "\<forall>k < sc_keys ex_empty. \<not> conflict (kstat ex_empty k) (rows ex_empty) [7]"
    by (simp add: conflict_def ex_empty_table)
  obtain s' i sc where "fm_core_insert_row ex_empty [7] (-1) (Some 0) [0] = Some (s', FM_ERR_OK, i, Some 0, sc)"
    "core_inv s'" "quiet s'" "rows ex_empty i = None" "rows s' = (rows ex_empty)(i \<mapsto> [7])"
    "same_shape ex_empty s'" "limited ex_empty \<longrightarrow> limited s'" "sc_records s' = sc_records ex_empty + 1"
    by (rule insert_row_succeeds [OF ex_empty_table(1,2) _ _ _ ex_empty_alloc(1) nc, where scratch = "[0]"])
      (simp_all add: ex_empty_table ex_empty_alloc)
  then show "core_inv ex_one" "quiet ex_one" "limited ex_one" "rows ex_one = [ex_slot_one \<mapsto> [7]]"
    "same_shape ex_empty ex_one" "sc_records ex_one = 1"
    by (simp_all add: ex_one_def ex_insert_def ex_slot_one_def ex_empty_table ex_empty_alloc)
qed

lemma ex_one_shape:
  "sc_keys ex_one = 1" "sc_reclength ex_one = 1" "sc_max_records ex_one = 3" "wlocked ex_one = {}"
  "kstat ex_one 0 = Some (fm_key_ops ex_env ex_keydef, True, 2)" "\<not> alloc_fails ex_one"
  using ex_one_table(5) ex_empty_table ex_empty_alloc same_shape_alloc [OF ex_one_table(5)]
  by (simp_all add: same_shape_def)

lemma ex_two_table:
  "core_inv ex_two" "quiet ex_two" "limited ex_two" "rows ex_two = [ex_slot_one \<mapsto> [7], ex_slot_two \<mapsto> [9]]"
  "ex_slot_two \<noteq> ex_slot_one" "same_shape ex_one ex_two" "sc_records ex_two = 2"
proof -
  have nc: "\<forall>k < sc_keys ex_one. \<not> conflict (kstat ex_one k) (rows ex_one) [9]"
    by (auto simp: ex_conflict ex_one_shape ex_one_table(4) byte_at_def split: if_splits)
  obtain s' i sc where "fm_core_insert_row ex_one [9] (-1) (Some 0) [0] = Some (s', FM_ERR_OK, i, Some 0, sc)"
    "core_inv s'" "quiet s'" "rows ex_one i = None" "rows s' = (rows ex_one)(i \<mapsto> [9])"
    "same_shape ex_one s'" "limited ex_one \<longrightarrow> limited s'" "sc_records s' = sc_records ex_one + 1"
    by (rule insert_row_succeeds [OF ex_one_table(1,2) _ _ _ ex_one_shape(6) nc, where scratch = "[0]"])
      (simp_all add: ex_one_table ex_one_shape)
  then show "core_inv ex_two" "quiet ex_two" "limited ex_two"
    "rows ex_two = [ex_slot_one \<mapsto> [7], ex_slot_two \<mapsto> [9]]"
    "ex_slot_two \<noteq> ex_slot_one" "same_shape ex_one ex_two" "sc_records ex_two = 2"
    by (auto simp: ex_two_def ex_insert_def ex_slot_two_def ex_one_table split: if_splits)
qed

lemma ex_two_shape:
  "sc_keys ex_two = 1" "sc_reclength ex_two = 1" "sc_max_records ex_two = 3" "wlocked ex_two = {}"
  "kstat ex_two 0 = Some (fm_key_ops ex_env ex_keydef, True, 2)" "\<not> alloc_fails ex_two"
  using ex_two_table(6) ex_one_shape same_shape_alloc [OF ex_two_table(6)]
  by (simp_all add: same_shape_def)

text \<open>The slot of a row of the example tables.\<close>

lemma row_slotE:
  assumes "rows s i = Some r" "wlocked s = {}"
  obtains sl where "fm_slot s i = Some sl" "sl_state sl = FM_SLOT_ACTIVE" "sl_data sl = r" "\<not> sl_wlock sl"
    "the (gens s i) = sl_gen sl" "\<not> slot_stale sl (sl_gen sl)"
proof -
  from rows_slot [OF assms(1)] obtain sl where sl: "fm_slot s i = Some sl" "sl_state sl = FM_SLOT_ACTIVE" "sl_data sl = r"
    by blast
  then show thesis
    using assms(2) by (intro that [of sl]) (auto simp: gens_def slot_stale_def wlocked_def)
qed

lemma ex_rows: "rows ex_one ex_slot_one = Some [7]" "rows ex_two ex_slot_one = Some [7]" "rows ex_two ex_slot_two = Some [9]"
  using ex_two_table(5) by (auto simp: ex_one_table ex_two_table(4))

lemmas ex_one_slotE = row_slotE [OF ex_rows(1) ex_one_shape(4)]
lemmas ex_two_slotE = row_slotE [OF ex_rows(2) ex_two_shape(4)]

lemmas ex_one = ex_one_table ex_one_shape
lemmas ex_two = ex_two_table ex_two_shape

end
