(* ===== verification/FM_Table.thy ===== *)
theory FM_Table
  imports FM_Example
begin

text \<open>
  The table operations of the core as theorems over whole calls: what each call returns and
  does on every branch, from any state that satisfies the invariant.
\<close>

section \<open>Insert\<close>

text \<open>C1. An insert into a consistent table returns. Either the row is stored in a slot that held
  none and no unique key had a conflicting row; or some unique key has one, and the call says
  so; or the table holds \<^verbatim>\<open>max_records\<close> rows; or the allocator refused memory. In the last three
  cases the rows are as before. The table stays consistent and every lock is released.\<close>

theorem insert_row_correct:
  assumes "core_inv s" "quiet s" "length r = sc_reclength s" "length scratch = sc_reclength s"
  shows "\<exists>s' rc i ek' sc. fm_core_insert_row s r out ek scratch = Some (s', rc, i, ek', sc) \<and>
    core_inv s' \<and> quiet s' \<and> same_shape s s' \<and> gens s \<subseteq>\<^sub>m gens s' \<and>
    (rc = FM_ERR_OK \<and> rows s i = None \<and> rows s' = (rows s)(i \<mapsto> r) \<and>
       (\<forall>k < sc_keys s. \<not> conflict (kstat s k) (rows s) r)
     \<or> rc = FM_ERR_DUP_KEY \<and> i = out \<and> rows s' = rows s \<and> (\<exists>k < sc_keys s. conflict (kstat s k) (rows s) r)
     \<or> rc = FM_ERR_FULL \<and> i = out \<and> rows s' = rows s \<and> int (sc_max_records s) \<le> sc_records s
     \<or> rc = FM_ERR_NOMEM \<and> i = out \<and> rows s' = rows s \<and> alloc_fails s)"
proof (cases rule: insert_row_cases [OF assms, where out = out and ek = ek])
  case (3 m)
  let ?t = "s\<lparr> sc_nalloc := m \<rparr>"
  have "core_inv ?t" "same_table s ?t" using assms(1) by simp_all
  moreover then have "quiet ?t" "same_shape s ?t" "rows ?t = rows s" "gens s \<subseteq>\<^sub>m gens ?t"
    using assms(2) same_table_shape by (simp_all add: same_table_def quiet_def)
  ultimately show ?thesis using 3 full_records [OF assms(1) 3(2)] by auto
qed blast+

theorem insert_row_correct_witness:
  "\<exists>s' rc i ek' sc. fm_core_insert_row ex_one [9] (-1) (Some 0) [0] = Some (s', rc, i, ek', sc) \<and>
    core_inv s' \<and> rc \<noteq> FM_ERR_DUP_KEY \<and> (rc = FM_ERR_OK \<longrightarrow> rows s' i = Some [9])"
proof -
  have "\<not> conflict (kstat ex_one 0) (rows ex_one) [9]"
    by (auto simp: ex_conflict ex_one byte_at_def split: if_splits)
  then show ?thesis
    using insert_row_correct [OF ex_one(1,2), of "[9]" "[0]" "-1" "Some 0"] by (auto simp: ex_one)
qed

text \<open>C17. Liveness of insert: as long as the table has fewer than \<^verbatim>\<open>max_records\<close> rows, no unique
  key conflicts and the allocator serves its requests, the row is stored.\<close>

theorem insert_row_available:
  assumes "core_inv s" "quiet s" "length r = sc_reclength s" "length scratch = sc_reclength s"
    and "sc_records s < int (sc_max_records s)" "\<not> alloc_fails s"
    and "\<forall>k < sc_keys s. \<not> conflict (kstat s k) (rows s) r"
  shows "\<exists>s' i sc. fm_core_insert_row s r out ek scratch = Some (s', FM_ERR_OK, i, ek, sc) \<and>
    rows s' i = Some r \<and> sc_records s' = sc_records s + 1"
  using assms by (rule insert_row_succeeds [where out = out and ek = ek]) auto

theorem insert_row_available_witness:
  "\<exists>s' i sc. fm_core_insert_row ex_two [8] (-1) (Some 0) [0] = Some (s', FM_ERR_OK, i, Some 0, sc) \<and>
    rows s' i = Some [8] \<and> sc_records s' = 3"
proof -
  have "\<forall>k < sc_keys ex_two. \<not> conflict (kstat ex_two k) (rows ex_two) [8]"
    by (auto simp: ex_conflict ex_two byte_at_def split: if_splits)
  then show ?thesis
    using insert_row_available [OF ex_two(1,2), of "[8]" "[0]" "-1" "Some 0"] by (simp add: ex_two)
qed

text \<open>The key number that a refused insert reports. The loop that rolls the earlier keys back
  leaves its counter wrapped around, so the value written is 0 whatever key had the duplicate.\<close>

theorem insert_dup_errkey_zero:
  assumes "core_inv s" "quiet s" "length r = sc_reclength s" "length scratch = sc_reclength s"
    and "fm_core_insert_row s r out (Some e) scratch = Some (s', FM_ERR_DUP_KEY, i, ek', sc)"
  shows "ek' = Some 0"
  by (cases rule: insert_row_cases [OF assms(1-4), where out = out and ek = "Some e"])
    (use assms(5) in \<open>auto split: if_splits\<close>)

theorem insert_dup_errkey_zero_witness:
  "\<exists>s' sc. fm_core_insert_row ex_one [7] (-1) (Some 5) [0] = Some (s', FM_ERR_DUP_KEY, -1, Some 0, sc)"
proof (cases rule: insert_row_cases [OF ex_one(1,2), where r = "[7]" and scratch = "[0]" and out = "-1" and ek = "Some 5"])
  case (4 s' sc)
  then have "fm_core_insert_row ex_one [7] (-1) (Some 5) [0] =
    Some (s', FM_ERR_DUP_KEY, -1, map_option (\<lambda>_. 0) (Some (5 :: int)), sc)" by simp
  from this insert_dup_errkey_zero [OF ex_one(1,2) _ _ this] show ?thesis by (simp add: ex_one)
next
  case (5 m)
  then show ?thesis using full_records [OF ex_one(1)] by (auto simp: ex_one)
qed (auto simp: ex_one ex_conflict dest!: spec [of _ ex_slot_one])

section \<open>Lookups and scans on the example table\<close>

lemma ex_two_matching: "{i. \<exists>r. rows ex_two i = Some r \<and> matches (kstat ex_two 0) r [9]} = {ex_slot_two}"
  using ex_two(5) by (auto simp: ex_two(4,12) ex_matches byte_at_def split: if_splits)

theorem find_exact_witness:
  "\<exists>bf i. fm_core_find ex_two 0 [9] [0] (-1) = Some (ex_two, FM_ERR_OK, bf, i) \<and> rows ex_two i = Some bf"
proof -
  have "matches (kstat ex_two 0) [9] [9]" by (simp add: ex_two_shape(5) ex_matches)
  then have "\<exists>j r. rows ex_two j = Some r \<and> matches (kstat ex_two 0) r [9]" using ex_rows(3) by blast
  moreover have "0 < sc_keys ex_two" "length [0 :: fm_u8] = sc_reclength ex_two" by (simp_all add: ex_two)
  ultimately show ?thesis using find_exact [OF ex_two(1,2), of 0 "[0]" "[9]" "-1"] by blast
qed

theorem index_scan_complete_witness:
  "fm_core_find ex_two 0 [9] [0] (-1) = Some (ex_two, FM_ERR_OK, [9], ex_slot_two) \<and>
   (\<exists>bf. fm_core_find_next ex_two 0 [9] ex_slot_two [0] (-1) = Some (ex_two, FM_ERR_NOT_FOUND, bf, -1))"
proof -
  have p: "0 < sc_keys ex_two" "length [0 :: fm_u8] = sc_reclength ex_two" by (simp_all add: ex_two)
  note scan = index_scan_complete [OF ex_two(1,2) p, of "[9]" "-1", unfolded ex_two_matching]
  have one: "L = [ex_slot_two]" if "distinct L" "set L = {ex_slot_two}" for L
  proof -
    have "length L = 1" using distinct_card [OF that(1)] that(2) by simp
    then obtain y where "L = [y]" by (metis One_nat_def length_0_conv length_Suc_conv)
    with that(2) show ?thesis by simp
  qed
  from scan show ?thesis
    by (elim exE conjE) (drule (1) one, simp add: ex_rows)
qed

theorem scan_next_exact_witness:
  "\<exists>p. fm_core_scan_next ex_one 0 [0] = Some (FM_ERR_OK, p, [7])"
proof -
  obtain sl where "fm_slot ex_one ex_slot_one = Some sl" by (rule ex_one_slotE)
  then have "0 \<le> ex_slot_one" using slot_exists [OF core_invD(1) [OF ex_one(1)]] by fastforce
  then have "rows ex_one (int (nat ex_slot_one)) = Some [7]" by (simp add: ex_rows)
  then have some: "\<not> (\<forall>j \<ge> 0. rows ex_one (int j) = None)" by (metis le0 option.distinct(1))
  have img: "bf = [7]" if "rows ex_one i = Some bf" for i bf using that by (simp add: ex_one(4) split: if_splits)
  have len: "length [0 :: fm_u8] = sc_reclength ex_one" by (simp add: ex_one)
  from scan_next_exact [OF ex_one(1) len, of 0] some obtain p bf
    where "fm_core_scan_next ex_one 0 [0] = Some (FM_ERR_OK, p, bf)" "rows ex_one (int (p - 1)) = Some bf" by blast
  then show ?thesis using img by blast
qed

section \<open>Update\<close>

text \<open>C4. An update that gets the image the slot holds as the old one returns, and releases every lock.
  Either the new image is in the slot and in the chains of its keys; or a changed unique key has
  a conflicting row, the least such key is reported as its number plus one, and no row changes;
  or the slot does not hold the row of that generation, and no row changes.\<close>

theorem update_row_correct:
  assumes "core_inv s" "quiet s" "fm_slot s i = Some sl" "\<not> sl_wlock sl"
    and "length new_rec = sc_reclength s" "length scratch = sc_reclength s"
    and "\<not> slot_stale sl g \<longrightarrow> old_rec = sl_data sl"
  shows "\<exists>s' rc ek' sc. fm_core_update_row s i g old_rec new_rec ek scratch = Some (s', rc, ek', sc) \<and>
    core_inv s' \<and> quiet s' \<and> same_shape s s' \<and> gens s' = gens s \<and>
    (rc = FM_ERR_OK \<and> \<not> slot_stale sl g \<and> (\<nexists>k. refused s old_rec new_rec k) \<and> rows s' = (rows s)(i \<mapsto> new_rec)
     \<or> rc = FM_ERR_DUP_KEY \<and> (\<exists>k. refused s old_rec new_rec k) \<and> rows s' = rows s \<and>
         ek' = map_option (\<lambda>_. int (LEAST k. refused s old_rec new_rec k) + 1) ek
     \<or> rc = FM_ERR_DELETED \<and> slot_stale sl g \<and> rows s' = rows s)"
proof -
  have o: "\<not> slot_stale sl g \<Longrightarrow> old_rec = sl_data sl" using assms(7) by blast
  show ?thesis
    by (cases rule: update_row_cases [OF assms(1-6) o, where ek = ek]) (auto simp: good_step_def)
qed

theorem update_row_correct_witness:
  "\<exists>s' ek' sc. fm_core_update_row ex_two ex_slot_one (the (gens ex_two ex_slot_one)) [7] [9] (Some 0) [0] =
     Some (s', FM_ERR_DUP_KEY, ek', sc) \<and> ek' = Some 1 \<and> rows s' = rows ex_two"
proof -
  obtain sl where sl: "fm_slot ex_two ex_slot_one = Some sl" "sl_data sl = [7]" "\<not> sl_wlock sl"
    "the (gens ex_two ex_slot_one) = sl_gen sl" "\<not> slot_stale sl (sl_gen sl)" by (rule ex_two_slotE)
  have c: "conflict (kstat ex_two 0) (rows ex_two) [9]"
    using ex_rows(3) by (auto simp: ex_two(12) ex_conflict)
  have r: "refused ex_two [7] [9] k = (k = 0)" for k
    using c by (auto simp: refused_def ex_two(8,12) ex_same_key byte_at_def)
  show ?thesis
    using update_row_correct [OF ex_two(1,2) sl(1,3), of "[9]" "[0]" "sl_gen sl" "[7]" "Some 0"] sl(2,5)
    by (auto simp: ex_two sl(4) r)
qed

text \<open>C8. The same for the variant whose caller holds the write lock of the slot: it neither takes nor
  releases that lock, and a slot that does not hold the row is left untouched.\<close>

theorem update_row_locked_correct:
  assumes "core_inv s" "quiet s" "fm_slot s i = Some sl"
    and "length new_rec = sc_reclength s" "length scratch = sc_reclength s"
    and "\<not> slot_stale sl g \<longrightarrow> old_rec = sl_data sl"
  shows "\<exists>s' rc ek' sc. fm_core_update_row_locked s i g old_rec new_rec ek scratch = Some (s', rc, ek', sc) \<and>
    core_inv s' \<and> quiet s' \<and> same_shape s s' \<and> gens s' = gens s \<and>
    (rc = FM_ERR_OK \<and> \<not> slot_stale sl g \<and> (\<nexists>k. refused s old_rec new_rec k) \<and> rows s' = (rows s)(i \<mapsto> new_rec)
     \<or> rc = FM_ERR_DUP_KEY \<and> (\<exists>k. refused s old_rec new_rec k) \<and> rows s' = rows s \<and>
         ek' = map_option (\<lambda>_. int (LEAST k. refused s old_rec new_rec k) + 1) ek
     \<or> rc = FM_ERR_DELETED \<and> slot_stale sl g \<and> s' = s)"
proof -
  have o: "\<not> slot_stale sl g \<Longrightarrow> old_rec = sl_data sl" using assms(6) by blast
  show ?thesis
    by (cases rule: update_locked_cases [OF assms(1-5) o, where ek = ek]) (use assms(1,2) in \<open>auto simp: good_step_def\<close>)
qed

theorem update_row_locked_correct_witness:
  "\<exists>s' ek' sc. fm_core_update_row_locked ex_one ex_slot_one (the (gens ex_one ex_slot_one)) [7] [8] (Some 0) [0] =
     Some (s', FM_ERR_OK, ek', sc) \<and> rows s' = [ex_slot_one \<mapsto> [8]]"
proof -
  obtain sl where sl: "fm_slot ex_one ex_slot_one = Some sl" "sl_data sl = [7]"
    "the (gens ex_one ex_slot_one) = sl_gen sl" "\<not> slot_stale sl (sl_gen sl)" by (rule ex_one_slotE)
  have r: "\<not> refused ex_one [7] [8] k" for k
    by (auto simp: refused_def ex_one ex_conflict byte_at_def split: if_splits)
  show ?thesis
    using update_row_locked_correct [OF ex_one(1,2) sl(1), of "[8]" "[0]" "sl_gen sl" "[7]" "Some 0"] sl(2,4)
    by (auto simp: ex_one sl(3) r)
qed

section \<open>Delete\<close>

text \<open>C5. A delete returns and releases every lock. A row of the expected generation is taken out of all
  chains, its image is in the scratch buffer, its slot is free again with the next generation and
  no other slot changes its generation; otherwise nothing changes.\<close>

theorem delete_row_correct:
  assumes "core_inv s" "quiet s" "fm_slot s i = Some sl" "\<not> sl_wlock sl" "length scratch = sc_reclength s"
  shows "\<exists>s' rc sc. fm_core_delete_row s i g scratch = Some (s', rc, sc) \<and>
    core_inv s' \<and> quiet s' \<and> same_shape s s' \<and>
    (rc = FM_ERR_OK \<and> \<not> slot_stale sl g \<and> rows s i = Some sc \<and> rows s' = (rows s)(i := None) \<and>
       gens s' = (gens s)(i \<mapsto> g + 1) \<and> sc_records s' = sc_records s - 1
     \<or> rc = FM_ERR_DELETED \<and> slot_stale sl g \<and> s' = s)"
proof (cases rule: delete_row_cases [OF assms, where g = g])
  case (1 s')
  have r: "rows s i = Some (sl_data sl)" "sl_gen sl = g"
    using 1(2) assms(3) by (auto simp: slot_stale_def rows_def)
  then have "sc_records s' = sc_records s - 1" using removed_records [OF assms(1) _ 1(3)] by simp
  with 1 r show ?thesis by (auto simp: removed_def)
next
  case 2
  with assms show ?thesis by auto
qed

theorem delete_row_correct_witness:
  "\<exists>s' sc. fm_core_delete_row ex_two ex_slot_one (the (gens ex_two ex_slot_one)) [0] = Some (s', FM_ERR_OK, sc) \<and>
     sc = [7] \<and> rows s' = [ex_slot_two \<mapsto> [9]] \<and> sc_records s' = 1"
proof -
  obtain sl where sl: "fm_slot ex_two ex_slot_one = Some sl" "\<not> sl_wlock sl"
    "the (gens ex_two ex_slot_one) = sl_gen sl" "\<not> slot_stale sl (sl_gen sl)" by (rule ex_two_slotE)
  have "(rows ex_two)(ex_slot_one := None) = [ex_slot_two \<mapsto> [9]]" using ex_two(5) by (auto simp: ex_two)
  then show ?thesis
    using delete_row_correct [OF ex_two(1,2) sl(1,2), of "[0]" "sl_gen sl"] sl(4) ex_rows(2)
    by (auto simp: ex_two(7,9) sl(3))
qed

text \<open>C9. The same for the variant whose caller holds the write lock of the slot.\<close>

theorem delete_row_locked_correct:
  assumes "core_inv s" "quiet s" "fm_slot s i = Some sl" "length scratch = sc_reclength s"
  shows "\<exists>s' rc sc. fm_core_delete_row_locked s i g scratch = Some (s', rc, sc) \<and>
    core_inv s' \<and> quiet s' \<and> same_shape s s' \<and>
    (rc = FM_ERR_OK \<and> \<not> slot_stale sl g \<and> rows s i = Some sc \<and> rows s' = (rows s)(i := None) \<and>
       gens s' = (gens s)(i \<mapsto> g + 1) \<and> sc_records s' = sc_records s - 1
     \<or> rc = FM_ERR_DELETED \<and> slot_stale sl g \<and> s' = s)"
proof (cases rule: delete_locked_cases [OF assms, where g = g])
  case (1 s')
  have r: "rows s i = Some (sl_data sl)" "sl_gen sl = g"
    using 1(2) assms(3) by (auto simp: slot_stale_def rows_def)
  then have "sc_records s' = sc_records s - 1" using removed_records [OF assms(1) _ 1(3)] by simp
  with 1 r show ?thesis by (auto simp: removed_def)
next
  case 2
  with assms show ?thesis by auto
qed

theorem delete_row_locked_correct_witness:
  "\<exists>s'. fm_core_delete_row_locked ex_one ex_slot_one (the (gens ex_one ex_slot_one) + 1) [0] =
     Some (s', FM_ERR_DELETED, [0]) \<and> rows s' = rows ex_one"
proof -
  obtain sl where sl: "fm_slot ex_one ex_slot_one = Some sl" "the (gens ex_one ex_slot_one) = sl_gen sl" by (rule ex_one_slotE)
  have st: "slot_stale sl (sl_gen sl + 1)" by (simp add: slot_stale_def)
  then have "fm_core_delete_row_locked ex_one ex_slot_one (sl_gen sl + 1) [0] = Some (ex_one, FM_ERR_DELETED, [0])"
    by (simp add: fm_core_delete_row_locked_def sl)
  then show ?thesis
    using delete_row_locked_correct [OF ex_one(1,2) sl(1), of "[0]" "sl_gen sl + 1"] by (auto simp: sl(2))
qed

section \<open>Clear\<close>

text \<open>C7. Emptying a table of which no slot is write-locked returns, and leaves a consistent table without
  rows, in which every slot has its next generation.\<close>

theorem clear_table_correct:
  assumes "core_inv s" "quiet s" "wlocked s = {}"
  shows "\<exists>s'. fm_core_clear s = Some s' \<and> core_inv s' \<and> quiet s' \<and> same_shape s s' \<and>
    rows s' = Map.empty \<and> sc_records s' = 0 \<and> gens s' = map_option (\<lambda>g. g + 1) \<circ> gens s"
proof -
  obtain s' where s': "fm_core_clear s = Some s'" "core_inv s'" "quiet s'" "rows s' = Map.empty"
    "same_shape s s'" "gens s' = map_option (\<lambda>g. g + 1) \<circ> gens s" by (rule clear_correct [OF assms])
  moreover have "sc_records s' = 0" using core_invD(4) [OF s'(2)] s'(4) by simp
  ultimately show ?thesis by blast
qed

theorem clear_table_correct_witness:
  "\<exists>s'. fm_core_clear ex_two = Some s' \<and> rows s' = Map.empty \<and> sc_records s' = 0 \<and>
     gens s' ex_slot_one = Some (the (gens ex_two ex_slot_one) + 1)"
proof -
  obtain sl where "fm_slot ex_two ex_slot_one = Some sl" by (rule ex_two_slotE)
  then have "gens ex_two ex_slot_one = Some (the (gens ex_two ex_slot_one))" by (simp add: gens_def)
  then show ?thesis
    using clear_table_correct [OF ex_two(1,2,11)] by (auto simp: fun_eq_iff)
qed

text \<open>C18. Emptying pushes every slot of the allocated chunks on the free list, also those beyond
  \<^verbatim>\<open>max_records\<close>: a limit that is not a multiple of the chunk size no longer holds afterwards.\<close>

theorem clear_lifts_limit:
  assumes "core_inv s" "quiet s" "wlocked s = {}" "sc_max_records s < sc_chunk_cnt s * FM_CHUNK_SIZE"
  shows "\<exists>s' xs. fm_core_clear s = Some s' \<and> free_list s' xs \<and> sc_max_records s' < length xs \<and> \<not> limited s'"
proof -
  let ?n = "sc_chunk_cnt s * FM_CHUNK_SIZE"
  obtain s' where s': "fm_core_clear s = Some s'" "same_shape s s'" "free_list s' (map int (rev [0..<?n]))"
    by (rule clear_correct [OF assms(1-3)])
  have "?n - 1 \<in> set (rev [0..<?n])" using assms(4) by simp
  then have "int (?n - 1) \<in> set (map int (rev [0..<?n]))" by (metis image_eqI list.set_map)
  moreover have "xs = map int (rev [0..<?n])" if "free_list s' xs" for xs
    using that s'(3) unfolding free_list_def by (blast intro: linked_unique)
  ultimately have "\<not> limited s'"
    using assms(4) s'(2) unfolding limited_def same_shape_def by fastforce
  with s' assms(4) show ?thesis by (auto simp: same_shape_def)
qed

theorem clear_lifts_limit_witness:
  "\<exists>s' xs. fm_core_clear ex_one = Some s' \<and> free_list s' xs \<and> sc_max_records s' < length xs"
proof -
  obtain sl where "fm_slot ex_one ex_slot_one = Some sl" by (rule ex_one_slotE)
  then have "0 < sc_chunk_cnt ex_one"
    using slot_exists [OF core_invD(1) [OF ex_one(1)], of ex_slot_one] by (cases "sc_chunk_cnt ex_one") auto
  then have "sc_max_records ex_one < sc_chunk_cnt ex_one * FM_CHUNK_SIZE" by (simp add: ex_one)
  then show ?thesis using clear_lifts_limit [OF ex_one(1,2,10)] by blast
qed

end
