(* ===== verification/FM_Runs.thy ===== *)
theory FM_Runs
  imports FM_Table
begin

text \<open>
  The calls on a table as a transition system: a step is one call of the core, made while no
  other call is under way, and a run starts with a table that the initialisation code made.
  A step is labelled with the call, its arguments and what it returned. Every state of a run is
  consistent, the accounts of its memory balance, and the labels of a run are accepted by the
  abstract table, a map from slots to record images with their generations.
\<close>

section \<open>Steps\<close>

text \<open>What the caller sees of a call: its arguments, the return code and the outputs.\<close>

datatype table_event =
    Ev_insert image fm_err fm_i32
  | Ev_update fm_i32 fm_u32 image image fm_err
  | Ev_update_locked fm_i32 fm_u32 image image fm_err
  | Ev_delete fm_i32 fm_u32 fm_err image
  | Ev_delete_locked fm_i32 fm_u32 fm_err image
  | Ev_clear
  | Ev_find nat image fm_err image fm_i32
  | Ev_find_next nat image fm_i32 fm_err image fm_i32
  | Ev_scan nat fm_err nat image
  | Ev_read fm_i32 fm_u32 fm_err image
  | Ev_lock fm_i32
  | Ev_unlock fm_i32

text \<open>An update is called with the image that the row has, a call on a write-locked row waits for
  the lock, and so does emptying the table.\<close>

inductive table_call :: "FM_SHARE_CORE \<Rightarrow> table_event \<Rightarrow> FM_SHARE_CORE \<Rightarrow> bool" where
  insert: "length r = sc_reclength s \<Longrightarrow> length scratch = sc_reclength s \<Longrightarrow>
    fm_core_insert_row s r out ek scratch = Some (s', rc, i, ek', sc) \<Longrightarrow> table_call s (Ev_insert r rc i) s'"
| update: "fm_slot s i = Some sl \<Longrightarrow> \<not> sl_wlock sl \<Longrightarrow> length new_rec = sc_reclength s \<Longrightarrow>
    length scratch = sc_reclength s \<Longrightarrow> (\<not> slot_stale sl g \<longrightarrow> old_rec = sl_data sl) \<Longrightarrow>
    fm_core_update_row s i g old_rec new_rec ek scratch = Some (s', rc, ek', sc) \<Longrightarrow>
    table_call s (Ev_update i g old_rec new_rec rc) s'"
| update_locked: "fm_slot s i = Some sl \<Longrightarrow> length new_rec = sc_reclength s \<Longrightarrow>
    length scratch = sc_reclength s \<Longrightarrow> (\<not> slot_stale sl g \<longrightarrow> old_rec = sl_data sl) \<Longrightarrow>
    fm_core_update_row_locked s i g old_rec new_rec ek scratch = Some (s', rc, ek', sc) \<Longrightarrow>
    table_call s (Ev_update_locked i g old_rec new_rec rc) s'"
| delete: "fm_slot s i = Some sl \<Longrightarrow> \<not> sl_wlock sl \<Longrightarrow> length scratch = sc_reclength s \<Longrightarrow>
    fm_core_delete_row s i g scratch = Some (s', rc, sc) \<Longrightarrow> table_call s (Ev_delete i g rc sc) s'"
| delete_locked: "fm_slot s i = Some sl \<Longrightarrow> length scratch = sc_reclength s \<Longrightarrow>
    fm_core_delete_row_locked s i g scratch = Some (s', rc, sc) \<Longrightarrow> table_call s (Ev_delete_locked i g rc sc) s'"
| clear: "wlocked s = {} \<Longrightarrow> fm_core_clear s = Some s' \<Longrightarrow> table_call s Ev_clear s'"
| find: "k < sc_keys s \<Longrightarrow> length buf = sc_reclength s \<Longrightarrow>
    fm_core_find s k key buf out = Some (s', rc, bf, i) \<Longrightarrow> table_call s (Ev_find k key rc bf i) s'"
| find_next: "k < sc_keys s \<Longrightarrow> length buf = sc_reclength s \<Longrightarrow>
    fm_core_find_next s k key cur buf out = Some (s', rc, bf, i) \<Longrightarrow> table_call s (Ev_find_next k key cur rc bf i) s'"
| scan: "length buf = sc_reclength s \<Longrightarrow>
    fm_core_scan_next s pos buf = Some (rc, p, bf) \<Longrightarrow> table_call s (Ev_scan pos rc p bf) s"
| read: "length buf = sc_reclength s \<Longrightarrow>
    fm_core_read_row s i True g buf = Some (rc, bf) \<Longrightarrow> table_call s (Ev_read i g rc bf) s"
| lock_row: "lock_slot s i = Some s' \<Longrightarrow> table_call s (Ev_lock i) s'"
| unlock_row: "unlock_slot s i = Some s' \<Longrightarrow> table_call s (Ev_unlock i) s'"

definition table_step :: "FM_SHARE_CORE \<Rightarrow> FM_SHARE_CORE \<Rightarrow> bool" where
  "table_step s s' = (\<exists>e. table_call s e s')"

section \<open>The abstract table\<close>

text \<open>The keys, the rows and the generations by slot, the row limit, and whether the allocator may
  refuse a request.\<close>

record spec_table =
  st_keys :: "key_static list"
  st_rows :: "fm_i32 \<rightharpoonup> image"
  st_gens :: "fm_i32 \<rightharpoonup> fm_u32"
  st_max :: nat
  st_may_fail :: bool

definition spec_live :: "spec_table \<Rightarrow> fm_i32 \<Rightarrow> fm_u32 \<Rightarrow> bool" where
  "spec_live a i g = (st_rows a i \<noteq> None \<and> st_gens a i = Some g)"

text \<open>A slot that is used for the first time gets some generation; a slot keeps the one it has.\<close>

definition spec_insert :: "spec_table \<Rightarrow> image \<Rightarrow> fm_err \<Rightarrow> fm_i32 \<Rightarrow> spec_table \<Rightarrow> bool" where
  "spec_insert a r rc i a' = (\<exists>G. st_gens a \<subseteq>\<^sub>m G \<and>
     (rc = FM_ERR_OK \<and> st_rows a i = None \<and> (\<forall>K \<in> set (st_keys a). \<not> conflict K (st_rows a) r) \<and>
        i \<in> dom G \<and> a' = a\<lparr> st_rows := (st_rows a)(i \<mapsto> r), st_gens := G \<rparr>
      \<or> rc = FM_ERR_DUP_KEY \<and> (\<exists>K \<in> set (st_keys a). conflict K (st_rows a) r) \<and> a' = a\<lparr> st_gens := G \<rparr>
      \<or> rc = FM_ERR_FULL \<and> st_max a \<le> card (dom (st_rows a)) \<and> a' = a
      \<or> rc = FM_ERR_NOMEM \<and> st_may_fail a \<and> a' = a))"

text \<open>Some unique key changes and another row has its new value. The update that takes the row's lock
  itself checks this first, the other one checks first that the row is there.\<close>

definition spec_refuses :: "spec_table \<Rightarrow> image \<Rightarrow> image \<Rightarrow> bool" where
  "spec_refuses a old_rec r = (\<exists>K \<in> set (st_keys a). \<not> same_key K old_rec r \<and> conflict K (st_rows a) r)"

definition spec_update :: "spec_table \<Rightarrow> fm_i32 \<Rightarrow> fm_u32 \<Rightarrow> image \<Rightarrow> image \<Rightarrow> fm_err \<Rightarrow> spec_table \<Rightarrow> bool" where
  "spec_update a i g old_rec r rc a' =
     (rc = FM_ERR_OK \<and> spec_live a i g \<and> st_rows a i = Some old_rec \<and> \<not> spec_refuses a old_rec r \<and>
        a' = a\<lparr> st_rows := (st_rows a)(i \<mapsto> r) \<rparr>
      \<or> rc = FM_ERR_DUP_KEY \<and> spec_refuses a old_rec r \<and> a' = a
      \<or> rc = FM_ERR_DELETED \<and> \<not> spec_live a i g \<and> a' = a)"

definition spec_delete :: "spec_table \<Rightarrow> fm_i32 \<Rightarrow> fm_u32 \<Rightarrow> fm_err \<Rightarrow> image \<Rightarrow> spec_table \<Rightarrow> bool" where
  "spec_delete a i g rc sc a' =
     (if spec_live a i g then rc = FM_ERR_OK \<and> st_rows a i = Some sc \<and>
        a' = a\<lparr> st_rows := (st_rows a)(i := None), st_gens := (st_gens a)(i \<mapsto> g + 1) \<rparr>
      else rc = FM_ERR_DELETED \<and> a' = a)"

fun spec_step :: "spec_table \<Rightarrow> table_event \<Rightarrow> spec_table \<Rightarrow> bool" where
  "spec_step a (Ev_insert r rc i) a' = spec_insert a r rc i a'"
| "spec_step a (Ev_update i g old_rec r rc) a' = spec_update a i g old_rec r rc a'"
| "spec_step a (Ev_update_locked i g old_rec r rc) a' =
     (spec_update a i g old_rec r rc a' \<and> (rc = FM_ERR_DUP_KEY \<longrightarrow> spec_live a i g))"
| "spec_step a (Ev_delete i g rc sc) a' = spec_delete a i g rc sc a'"
| "spec_step a (Ev_delete_locked i g rc sc) a' = spec_delete a i g rc sc a'"
| "spec_step a Ev_clear a' = (a' = a\<lparr> st_rows := Map.empty, st_gens := map_option (\<lambda>g. g + 1) \<circ> st_gens a \<rparr>)"
| "spec_step a (Ev_find k key rc bf i) a' = (a' = a \<and>
     (if \<exists>j r. st_rows a j = Some r \<and> matches (st_keys a ! k) r key
      then rc = FM_ERR_OK \<and> st_rows a i = Some bf \<and> matches (st_keys a ! k) bf key
      else rc = FM_ERR_NOT_FOUND))"
| "spec_step a (Ev_find_next k key cur rc bf i) a' = (a' = a \<and>
     (rc = FM_ERR_OK \<and> st_rows a i = Some bf \<and> matches (st_keys a ! k) bf key \<and> i \<noteq> cur \<or> rc = FM_ERR_NOT_FOUND))"
| "spec_step a (Ev_scan pos rc p bf) a' = (a' = a \<and>
     (if \<forall>j \<ge> pos. st_rows a (int j) = None then rc = FM_ERR_EOF
      else rc = FM_ERR_OK \<and> pos < p \<and> st_rows a (int (p - 1)) = Some bf \<and>
        (\<forall>j. pos \<le> j \<longrightarrow> j < p - 1 \<longrightarrow> st_rows a (int j) = None)))"
| "spec_step a (Ev_read i g rc bf) a' = (a' = a \<and>
     (if spec_live a i g then rc = FM_ERR_OK \<and> st_rows a i = Some bf else rc = FM_ERR_DELETED))"
| "spec_step a (Ev_lock i) a' = (a' = a)"
| "spec_step a (Ev_unlock i) a' = (a' = a)"

text \<open>The rows that a sequence of events leaves, read off the events alone.\<close>

fun replay :: "table_event \<Rightarrow> (fm_i32 \<rightharpoonup> image) \<Rightarrow> (fm_i32 \<rightharpoonup> image)" where
  "replay (Ev_insert r rc i) R = (if rc = FM_ERR_OK then R(i \<mapsto> r) else R)"
| "replay (Ev_update i g old_rec r rc) R = (if rc = FM_ERR_OK then R(i \<mapsto> r) else R)"
| "replay (Ev_update_locked i g old_rec r rc) R = (if rc = FM_ERR_OK then R(i \<mapsto> r) else R)"
| "replay (Ev_delete i g rc sc) R = (if rc = FM_ERR_OK then R(i := None) else R)"
| "replay (Ev_delete_locked i g rc sc) R = (if rc = FM_ERR_OK then R(i := None) else R)"
| "replay Ev_clear R = Map.empty"
| "replay e R = R"

lemma spec_insert_rows: "spec_insert a r rc i a' \<Longrightarrow> st_rows a' = (if rc = FM_ERR_OK then (st_rows a)(i \<mapsto> r) else st_rows a)"
  unfolding spec_insert_def by fastforce

lemma spec_update_rows: "spec_update a i g old_rec r rc a' \<Longrightarrow> st_rows a' = (if rc = FM_ERR_OK then (st_rows a)(i \<mapsto> r) else st_rows a)"
  unfolding spec_update_def by fastforce

lemma spec_delete_rows: "spec_delete a i g rc sc a' \<Longrightarrow> st_rows a' = (if rc = FM_ERR_OK then (st_rows a)(i := None) else st_rows a)"
  unfolding spec_delete_def by (simp split: if_splits)

lemma spec_step_replay: "spec_step a e a' \<Longrightarrow> st_rows a' = replay e (st_rows a)"
  by (cases e) (simp_all only: spec_step.simps replay.simps spec_table.simps,
      (blast dest: spec_insert_rows spec_update_rows spec_delete_rows | simp)+)

definition abs_table :: "FM_SHARE_CORE \<Rightarrow> spec_table" where
  "abs_table s = \<lparr> st_keys = map (kstat s) [0..<sc_keys s], st_rows = rows s, st_gens = gens s,
     st_max = sc_max_records s, st_may_fail = alloc_fails s \<rparr>"

section \<open>What a step keeps, and the simulation\<close>

text \<open>Schema, limits and the memory accounts stay.\<close>

definition same_schema :: "FM_SHARE_CORE \<Rightarrow> FM_SHARE_CORE \<Rightarrow> bool" where
  "same_schema s s' = (kstat s' = kstat s \<and> sc_keys s' = sc_keys s \<and> sc_reclength s' = sc_reclength s \<and>
     sc_max_records s' = sc_max_records s \<and> lasting s' = lasting s)"

lemma same_shape_schema: "same_shape s s' \<Longrightarrow> same_schema s s'"
  by (simp add: same_shape_def same_schema_def)

lemma same_schema_refl [simp]: "same_schema s s"
  by (simp add: same_schema_def)

lemma same_schema_trans: "same_schema s t \<Longrightarrow> same_schema t u \<Longrightarrow> same_schema s u"
  by (simp add: same_schema_def)

lemma same_schema_abs:
  "same_schema s s' \<Longrightarrow> abs_table s' = (abs_table s)\<lparr> st_rows := rows s', st_gens := gens s' \<rparr>"
  by (simp add: same_schema_def abs_table_def lasting_def alloc_fails_def)

definition call_ok :: "FM_SHARE_CORE \<Rightarrow> table_event \<Rightarrow> FM_SHARE_CORE \<Rightarrow> bool" where
  "call_ok s e s' = (core_inv s' \<and> quiet s' \<and> same_schema s s' \<and> spec_step (abs_table s) e (abs_table s'))"

lemma call_okI:
  assumes "core_inv s'" "quiet s'" "same_schema s s'"
    "spec_step (abs_table s) e ((abs_table s)\<lparr> st_rows := rows s', st_gens := gens s' \<rparr>)"
  shows "call_ok s e s'"
  using assms same_schema_abs [OF assms(3)] by (simp add: call_ok_def)

lemma abs_simps [simp]:
  "st_rows (abs_table s) = rows s" "st_gens (abs_table s) = gens s"
  "st_max (abs_table s) = sc_max_records s" "st_may_fail (abs_table s) = alloc_fails s"
  "k < sc_keys s \<Longrightarrow> st_keys (abs_table s) ! k = kstat s k"
  "set (st_keys (abs_table s)) = kstat s ` {0..<sc_keys s}"
  "(abs_table s)\<lparr> st_rows := rows s, st_gens := gens s \<rparr> = abs_table s"
  by (simp_all add: abs_table_def)

lemma spec_live_slot: "fm_slot s i = Some sl \<Longrightarrow> spec_live (abs_table s) i g = (\<not> slot_stale sl g)"
  by (auto simp: spec_live_def rows_def gens_def slot_stale_def)

lemma active_row: "fm_slot s i = Some sl \<Longrightarrow> \<not> slot_stale sl g \<Longrightarrow> rows s i = Some (sl_data sl)"
  by (simp add: rows_def slot_stale_def)

lemma call_insert:
  assumes inv: "core_inv s" "quiet s" and len: "length r = sc_reclength s" "length scratch = sc_reclength s"
    and run: "fm_core_insert_row s r out ek scratch = Some (s', rc, i, ek', sc)"
  shows "call_ok s (Ev_insert r rc i) s'"
proof (cases rule: insert_row_cases [OF inv len, where out = out and ek = ek])
  case (1 t j c)
  then have t: "s' = t" "rc = FM_ERR_OK" "i = j" using run by simp_all
  have "j \<in> dom (gens t)" using rows_slot [of t j r] 1(5) by (auto simp: gens_def)
  then have "spec_insert (abs_table s) r FM_ERR_OK j ((abs_table s)\<lparr> st_rows := rows t, st_gens := gens t \<rparr>)"
    unfolding spec_insert_def using 1 by (intro exI [of _ "gens t"]) simp
  then show ?thesis unfolding t using 1 by (intro call_okI same_shape_schema) simp_all
next
  case (2 t c)
  then have t: "s' = t" "rc = FM_ERR_DUP_KEY" "i = out" using run by simp_all
  have "spec_insert (abs_table s) r FM_ERR_DUP_KEY out ((abs_table s)\<lparr> st_rows := rows t, st_gens := gens t \<rparr>)"
    unfolding spec_insert_def using 2 by (intro exI [of _ "gens t"]) (auto simp: abs_table_def)
  then show ?thesis unfolding t using 2 by (intro call_okI same_shape_schema) simp_all
next
  case (3 m)
  have "same_table s (s\<lparr> sc_nalloc := m \<rparr>)" "core_inv (s\<lparr> sc_nalloc := m \<rparr>)" using inv by simp_all
  moreover have s': "s' = s\<lparr> sc_nalloc := m \<rparr>" using 3 run by simp
  moreover have "abs_table (s\<lparr> sc_nalloc := m \<rparr>) = abs_table s"
    using calculation(1) gens_cong [of "s\<lparr> sc_nalloc := m \<rparr>" s] by (simp add: same_table_def abs_table_def alloc_fails_def fun_eq_iff)
  moreover have "spec_insert (abs_table s) r rc i (abs_table s)"
    unfolding spec_insert_def using 3 run full_records [OF inv(1) 3(2)] core_invD(4) [OF inv(1)]
    by (intro exI [of _ "gens s"]) (auto split: if_splits)
  ultimately show ?thesis using inv(2) same_shape_schema [OF same_table_shape]
    by (simp add: call_ok_def same_table_def quiet_def)
qed

lemma refused_spec: "(\<exists>k. refused s a r k) = spec_refuses (abs_table s) a r"
  by (auto simp: refused_def spec_refuses_def)

lemma good_step_call: "good_step s R s' \<Longrightarrow> spec_step (abs_table s) e ((abs_table s)\<lparr> st_rows := R \<rparr>) \<Longrightarrow> call_ok s e s'"
  by (intro call_okI same_shape_schema) (simp_all add: good_step_def abs_table_def)

lemma update_spec:
  assumes sl: "fm_slot s i = Some sl" and old: "\<not> slot_stale sl g \<longrightarrow> old_rec = sl_data sl"
  shows "slot_stale sl g \<Longrightarrow> spec_update (abs_table s) i g old_rec r FM_ERR_DELETED (abs_table s)"
    "\<exists>k. refused s old_rec r k \<Longrightarrow> spec_update (abs_table s) i g old_rec r FM_ERR_DUP_KEY (abs_table s)"
    "\<not> slot_stale sl g \<Longrightarrow> \<nexists>k. refused s old_rec r k \<Longrightarrow>
       spec_update (abs_table s) i g old_rec r FM_ERR_OK ((abs_table s)\<lparr> st_rows := (rows s)(i \<mapsto> r) \<rparr>)"
  unfolding spec_update_def spec_live_slot [OF sl] refused_spec using active_row [OF sl, of g] old by simp_all

lemma good_step_rows: "good_step s (rows s) s' \<Longrightarrow> spec_step (abs_table s) e (abs_table s) \<Longrightarrow> call_ok s e s'"
  by (rule good_step_call) (simp_all add: abs_table_def)

lemma call_update:
  assumes inv: "core_inv s" "quiet s" and sl: "fm_slot s i = Some sl" "\<not> sl_wlock sl"
    and len: "length new_rec = sc_reclength s" "length scratch = sc_reclength s"
    and old: "\<not> slot_stale sl g \<longrightarrow> old_rec = sl_data sl"
    and run: "fm_core_update_row s i g old_rec new_rec ek scratch = Some (s', rc, ek', sc)"
  shows "call_ok s (Ev_update i g old_rec new_rec rc) s'"
proof -
  have o: "\<not> slot_stale sl g \<Longrightarrow> old_rec = sl_data sl" using old by blast
  note U = update_spec [OF sl(1) old, of new_rec]
  show ?thesis
    by (cases rule: update_row_cases [OF inv sl len, where g = g and old_rec = old_rec and ek = ek])
      (use o run U in \<open>auto intro: good_step_call good_step_rows\<close>)
qed

lemma call_update_locked:
  assumes inv: "core_inv s" "quiet s" and sl: "fm_slot s i = Some sl"
    and len: "length new_rec = sc_reclength s" "length scratch = sc_reclength s"
    and old: "\<not> slot_stale sl g \<longrightarrow> old_rec = sl_data sl"
    and run: "fm_core_update_row_locked s i g old_rec new_rec ek scratch = Some (s', rc, ek', sc)"
  shows "call_ok s (Ev_update_locked i g old_rec new_rec rc) s'"
proof -
  have o: "\<not> slot_stale sl g \<Longrightarrow> old_rec = sl_data sl" using old by blast
  note U = update_spec [OF sl old, of new_rec] spec_live_slot [OF sl, of g]
  show ?thesis
  proof (cases "slot_stale sl g")
    case True
    then have "s' = s" "rc = FM_ERR_DELETED" using run by (simp_all add: fm_core_update_row_locked_def sl)
    with True U show ?thesis using good_step_refl [OF inv] by (auto intro: good_step_rows)
  next
    case False
    show ?thesis
      by (cases rule: update_locked_cases [OF inv sl len, where g = g and old_rec = old_rec and ek = ek])
        (use o run U False in \<open>auto intro: good_step_call good_step_rows\<close>)
  qed
qed

lemma call_same: "core_inv s \<Longrightarrow> quiet s \<Longrightarrow> spec_step (abs_table s) e (abs_table s) \<Longrightarrow> call_ok s e s"
  by (simp add: call_ok_def)

text \<open>Both deletes: the row is removed, or the slot does not hold it.\<close>

lemma delete_spec:
  assumes inv: "core_inv s" "quiet s" and sl: "fm_slot s i = Some sl" and e: "e = Ev_delete i g rc sc \<or> e = Ev_delete_locked i g rc sc"
    and res: "\<not> slot_stale sl g \<and> removed s i sl s' \<and> rc = FM_ERR_OK \<and> sc = sl_data sl \<or> slot_stale sl g \<and> s' = s \<and> rc = FM_ERR_DELETED"
  shows "call_ok s e s'"
  using res
proof
  assume r: "\<not> slot_stale sl g \<and> removed s i sl s' \<and> rc = FM_ERR_OK \<and> sc = sl_data sl"
  then have "spec_delete (abs_table s) i g rc sc ((abs_table s)\<lparr> st_rows := rows s', st_gens := gens s' \<rparr>)"
    using active_row [OF sl, of g] by (simp add: spec_delete_def spec_live_slot [OF sl] removed_def slot_stale_def)
  with r e show ?thesis by (intro call_okI same_shape_schema) (auto simp: removed_def)
next
  assume r: "slot_stale sl g \<and> s' = s \<and> rc = FM_ERR_DELETED"
  then have "spec_delete (abs_table s) i g rc sc (abs_table s)" by (simp add: spec_delete_def spec_live_slot [OF sl])
  with r e inv show ?thesis by (auto intro: call_same)
qed

lemma call_wlock:
  assumes inv: "core_inv s" "quiet s" and sl: "fm_slot s i = Some sl" and e: "e = Ev_lock i \<or> e = Ev_unlock i"
  shows "call_ok s e (upd_slot s i (sl\<lparr> sl_wlock := g \<rparr>))"
proof -
  let ?t = "upd_slot s i (sl\<lparr> sl_wlock := g \<rparr>)"
  have rw: "rewrite_ok s sl (sl\<lparr> sl_wlock := g \<rparr>)" by (simp add: rewrite_ok_def)
  have f: "core_inv ?t" "rows ?t = rows s" "gens ?t = gens s" "kstat ?t = kstat s" "key_lock ?t = key_lock s"
    using rewrite_inv [OF inv(1) sl rw] by simp_all
  then have "same_schema s ?t" "quiet ?t" using inv(2) by (simp_all add: same_schema_def quiet_def held_def)
  with f e show ?thesis by (intro call_okI) auto
qed

lemma call_clear:
  assumes inv: "core_inv s" "quiet s" and "wlocked s = {}" "fm_core_clear s = Some s'"
  shows "call_ok s Ev_clear s'"
proof -
  obtain t where t: "fm_core_clear s = Some t" "core_inv t" "quiet t" "rows t = Map.empty" "same_shape s t"
    "gens t = map_option (\<lambda>g. g + 1) \<circ> gens s"
    by (rule clear_correct [OF assms(1-3)])
  then show ?thesis using assms(4) by (intro call_okI same_shape_schema) simp_all
qed

lemma call_find:
  assumes inv: "core_inv s" "quiet s" and k: "k < sc_keys s" and len: "length buf = sc_reclength s"
  shows "fm_core_find s k key buf out = Some (s', rc, bf, i) \<Longrightarrow> call_ok s (Ev_find k key rc bf i) s'"
    "fm_core_find_next s k key cur buf out = Some (s', rc, bf, i) \<Longrightarrow> call_ok s (Ev_find_next k key cur rc bf i) s'"
proof -
  assume run: "fm_core_find s k key buf out = Some (s', rc, bf, i)"
  show "call_ok s (Ev_find k key rc bf i) s'"
    by (cases rule: find_cases [OF inv k len, where key = key and out = out])
      (use run k in \<open>auto intro!: call_same [OF inv] exI\<close>)
next
  assume run: "fm_core_find_next s k key cur buf out = Some (s', rc, bf, i)"
  show "call_ok s (Ev_find_next k key cur rc bf i) s'"
    by (cases rule: find_next_cases [OF inv k len, where key = key and cur = cur and out = out])
      (use run k in \<open>auto intro!: call_same [OF inv]\<close>)
qed

lemma call_scan:
  assumes inv: "core_inv s" "quiet s" and len: "length buf = sc_reclength s"
    and run: "fm_core_scan_next s pos buf = Some (rc, p, bf)"
  shows "call_ok s (Ev_scan pos rc p bf) s"
proof -
  have "rc = FM_ERR_OK \<and> pos < p \<and> rows s (int (p - 1)) = Some bf \<and> (\<forall>j. pos \<le> j \<longrightarrow> j < p - 1 \<longrightarrow> rows s (int j) = None)
    \<or> rc = FM_ERR_EOF \<and> (\<forall>j \<ge> pos. rows s (int j) = None)"
    using scan_next_scanned [OF inv(1) len, of pos] run by (simp add: scanned_def)
  moreover have "\<not> (\<forall>j \<ge> pos. rows s (int j) = None)" if "pos < p" "rows s (int (p - 1)) = Some bf"
    using that by (intro notI) (drule spec [of _ "p - 1"], simp)
  ultimately show ?thesis by (intro call_same [OF inv]) auto
qed

lemma call_read:
  assumes inv: "core_inv s" "quiet s" and len: "length buf = sc_reclength s"
    and run: "fm_core_read_row s i True g buf = Some (rc, bf)"
  shows "call_ok s (Ev_read i g rc bf) s"
proof (cases "spec_live (abs_table s) i g")
  case True
  then obtain r where r: "rows s i = Some r" "gens s i = Some g" by (auto simp: spec_live_def)
  then show ?thesis
    using True run read_row_gen [OF core_invD(3) [OF inv(1)] r len] by (intro call_same [OF inv]) simp
next
  case False
  moreover from this run have "rc = FM_ERR_DELETED"
    by (auto simp: spec_live_def fm_core_read_row_def rows_def gens_def bind_eq_Some_conv split: if_splits)
  ultimately show ?thesis by (intro call_same [OF inv]) simp
qed

lemma table_call_ok:
  assumes "table_call s e s'" "core_inv s" "quiet s"
  shows "call_ok s e s'"
  using assms(1)
proof (cases rule: table_call.cases)
  case (delete i sl scratch g rc sc)
  then show ?thesis
    by (cases rule: delete_row_cases [OF assms(2,3) delete(2-4), where g = g])
      (use delete_spec [OF assms(2,3) delete(2), of e g rc sc s'] in simp_all)
next
  case (delete_locked i sl scratch g rc sc)
  then show ?thesis
    by (cases rule: delete_locked_cases [OF assms(2,3) delete_locked(2,3), where g = g])
      (use delete_spec [OF assms(2,3) delete_locked(2), of e g rc sc s'] in simp_all)
next
  case (lock_row i)
  then show ?thesis
    using call_wlock [OF assms(2,3)] by (auto simp: lock_slot_def spin_lock_def bind_eq_Some_conv split: if_splits)
next
  case (unlock_row i)
  then show ?thesis
    using call_wlock [OF assms(2,3)] by (auto simp: unlock_slot_def bind_eq_Some_conv)
qed (use assms(2,3) in \<open>auto intro: call_insert call_update call_update_locked call_clear call_find call_scan call_read\<close>)

text \<open>What the users of the unlabelled step need of it.\<close>

definition step_ok :: "FM_SHARE_CORE \<Rightarrow> FM_SHARE_CORE \<Rightarrow> bool" where
  "step_ok s s' = (core_inv s' \<and> quiet s' \<and> same_schema s s')"

lemma table_step_ok: "table_step s s' \<Longrightarrow> core_inv s \<Longrightarrow> quiet s \<Longrightarrow> step_ok s s'"
  using table_call_ok by (auto simp: table_step_def call_ok_def step_ok_def)

interpretation table_sim: simulation table_call spec_step abs_table "\<lambda>s. core_inv s \<and> quiet s"
  by unfold_locales (use table_call_ok in \<open>auto simp: call_ok_def\<close>)

section \<open>Runs\<close>

text \<open>A table as it is created: the share is initialised and the callbacks are wired.\<close>

definition new_table ::
  "(nat \<Rightarrow> nat \<Rightarrow> bool) \<Rightarrow> nat \<Rightarrow> (FM_KEY_OPS \<times> bool) list \<Rightarrow> nat \<Rightarrow> nat \<Rightarrow> FM_SHARE_CORE" where
  "new_table ops rl ws mr nb = wire_keys ws (fm_core_init_share ops rl (length ws) mr nb)"

text \<open>The parameters a table is created with: the allocator serves the initialisation (it may refuse
  later requests), at most 64 keys, the row limit leaves room for a chunk below \<open>2 ^ 31\<close>, so that slot
  numbers fit an \<^verbatim>\<open>fm_i32\<close>, and the callbacks of every key keep their contract. The code has no check
  of the limit: \<^verbatim>\<open>fm_create\<close> hands the \<^verbatim>\<open>ulong\<close> it computed to an \<^verbatim>\<open>fm_u32\<close> parameter, and for a larger
  limit the slot numbers wrap. What follows is about tables whose limit is in the range.\<close>

definition create_ok :: "(nat \<Rightarrow> nat \<Rightarrow> bool) \<Rightarrow> (FM_KEY_OPS \<times> bool) list \<Rightarrow> nat \<Rightarrow> nat \<Rightarrow> bool" where
  "create_ok ops ws mr nb = (serves ops (2 + 2 * length ws) \<and> length ws \<le> FM_MAX_CHANGED_KEYS \<and>
     mr + FM_CHUNK_SIZE \<le> 2 ^ 31 \<and> nb < 2 ^ 32 \<and>
     (\<forall>w \<in> set ws. key_ok (Some (fst w, snd w, of_nat (if nb \<noteq> 0 then nb else 1024)))))"

lemma new_table_inv:
  assumes "create_ok ops ws mr nb"
  shows "core_inv (new_table ops rl ws mr nb)" "quiet (new_table ops rl ws mr nb)"
    "limited (new_table ops rl ws mr nb)" "rows (new_table ops rl ws mr nb) = Map.empty"
    "sc_keys (new_table ops rl ws mr nb) = length ws" "sc_reclength (new_table ops rl ws mr nb) = rl"
    "sc_max_records (new_table ops rl ws mr nb) = (if mr \<noteq> 0 then mr else 1)"
    "sc_live (new_table ops rl ws mr nb) = blocks (new_table ops rl ws mr nb)"
    "(sc_keydef (new_table ops rl ws mr nb) = None) = (sc_keys (new_table ops rl ws mr nb) = 0)"
  using assms wired_share_inv [where ops = ops and ws = ws and rl = rl and mr = mr and nb = nb]
  unfolding create_ok_def new_table_def blocks_def by simp_all

definition run_ok :: "FM_SHARE_CORE \<Rightarrow> FM_SHARE_CORE \<Rightarrow> bool" where
  "run_ok s0 s = (core_inv s \<and> quiet s \<and> same_schema s0 s)"

interpretation table: machine table_step "run_ok s0" for s0
proof
  fix s s' assume "table_step s s'" "run_ok s0 s"
  then have "step_ok s s'" "run_ok s0 s" using table_step_ok by (auto simp: run_ok_def)
  then show "run_ok s0 s'" by (auto simp: run_ok_def step_ok_def intro: same_schema_trans)
qed

lemma table_run_ok: "table_step\<^sup>*\<^sup>* s0 s \<Longrightarrow> core_inv s0 \<Longrightarrow> quiet s0 \<Longrightarrow> run_ok s0 s"
  by (erule table.reach_good) (simp add: run_ok_def same_schema_def)

lemma new_run_ok:
  "create_ok ops ws mr nb \<Longrightarrow> table_step\<^sup>*\<^sup>* (new_table ops rl ws mr nb) s \<Longrightarrow> run_ok (new_table ops rl ws mr nb) s"
  by (rule table_run_ok) (simp_all add: new_table_inv)

text \<open>The run that made the example table.\<close>

abbreviation ex_ws :: "(FM_KEY_OPS \<times> bool) list" where
  "ex_ws \<equiv> [(fm_key_ops ex_env ex_keydef, True)]"

lemma ex_create_ok: "create_ok (\<lambda>_ _. True) ex_ws 3 2"
  using fm_key_ops_ok [of ex_keydef 2 ex_env True]
  by (simp add: create_ok_def serves_def ex_keydef_def column_keydef_def seg_ok_def is_bit_def)

text \<open>Two inserts, one delete and a lookup of the row that is left.\<close>

definition ex_events :: "table_event list" where
  "ex_events = [Ev_insert [7] FM_ERR_OK ex_slot_one, Ev_insert [9] FM_ERR_OK ex_slot_two,
     Ev_delete ex_slot_one (the (gens ex_two ex_slot_one)) FM_ERR_OK [7], Ev_find 0 [9] FM_ERR_OK [9] ex_slot_two]"

lemma ex_insert_call:
  assumes "core_inv s" "quiet s" "sc_reclength s = 1" "length r = 1" "sc_records s < int (sc_max_records s)" "\<not> alloc_fails s"
    "\<forall>k < sc_keys s. \<not> conflict (kstat s k) (rows s) r"
  shows "table_call s (Ev_insert r FM_ERR_OK (fst (snd (snd (the (fm_core_insert_row s r (-1) (Some 0) [0])))))) (ex_insert s r)"
proof -
  have len: "length r = sc_reclength s" "length [0 :: fm_u8] = sc_reclength s" using assms(3,4) by simp_all
  obtain t i sc where "fm_core_insert_row s r (-1) (Some 0) [0] = Some (t, FM_ERR_OK, i, Some 0, sc)"
    by (rule insert_row_succeeds [OF assms(1,2) len assms(5-7), where out = "-1" and ek = "Some 0"])
  with table_call.insert [OF len this] show ?thesis by (simp add: ex_insert_def)
qed

lemma ex_calls:
  "table_call (new_table (\<lambda>_ _. True) 1 ex_ws 3 2) (Ev_insert [7] FM_ERR_OK ex_slot_one) ex_one"
  "table_call ex_one (Ev_insert [9] FM_ERR_OK ex_slot_two) ex_two"
proof -
  have e: "new_table (\<lambda>_ _. True) 1 ex_ws 3 2 = ex_empty"
    by (simp add: new_table_def ex_empty_wired(2))
  show "table_call (new_table (\<lambda>_ _. True) 1 ex_ws 3 2) (Ev_insert [7] FM_ERR_OK ex_slot_one) ex_one"
    unfolding e ex_slot_one_def ex_one_def
    by (rule ex_insert_call) (simp_all add: ex_empty_table ex_empty_alloc conflict_def)
  have "\<forall>k < sc_keys ex_one. \<not> conflict (kstat ex_one k) (rows ex_one) [9]"
    by (auto simp: ex_conflict ex_one byte_at_def split: if_splits)
  then show "table_call ex_one (Ev_insert [9] FM_ERR_OK ex_slot_two) ex_two"
    unfolding ex_slot_two_def ex_two_def by (intro ex_insert_call) (simp_all add: ex_one)
qed

lemma ex_run: "table_step\<^sup>*\<^sup>* (new_table (\<lambda>_ _. True) 1 ex_ws 3 2) ex_two"
proof -
  have "table_step (new_table (\<lambda>_ _. True) 1 ex_ws 3 2) ex_one" "table_step ex_one ex_two"
    using ex_calls by (auto simp: table_step_def)
  then show ?thesis by (rule converse_rtranclp_into_rtranclp [OF _ r_into_rtranclp])
qed

lemma ex_trace:
  obtains s where "trace table_call (new_table (\<lambda>_ _. True) 1 ex_ws 3 2) ex_events s"
proof -
  obtain sl where sl: "fm_slot ex_two ex_slot_one = Some sl" "sl_data sl = [7]" "\<not> sl_wlock sl"
    "the (gens ex_two ex_slot_one) = sl_gen sl" "\<not> slot_stale sl (sl_gen sl)" by (rule ex_two_slotE)
  let ?g = "the (gens ex_two ex_slot_one)"
  have len: "length [0 :: fm_u8] = sc_reclength ex_two" by (simp add: ex_two)
  obtain s where s: "fm_core_delete_row ex_two ex_slot_one ?g [0] = Some (s, FM_ERR_OK, [7])" "removed ex_two ex_slot_one sl s"
    by (cases rule: delete_row_cases [OF ex_two(1,2) sl(1,3) len, where g = ?g]) (use sl in auto)
  have del: "table_call ex_two (Ev_delete ex_slot_one ?g FM_ERR_OK [7]) s" using sl(1,3) len s(1) by (rule table_call.delete)
  have t: "core_inv s" "quiet s" "rows s = [ex_slot_two \<mapsto> [9]]" "sc_keys s = 1" "sc_reclength s = 1" "kstat s 0 = kstat ex_two 0"
    using s(2) ex_two(5) by (auto simp: removed_def same_shape_def ex_two)
  have k: "0 < sc_keys s" "length [0 :: fm_u8] = sc_reclength s" using t by simp_all
  have "matches (kstat s 0) [9] [9]" by (simp add: t(6) ex_two ex_matches)
  then have "fm_core_find s 0 [9] [0] (-1) = Some (s, FM_ERR_OK, [9], ex_slot_two)"
    by (cases rule: find_cases [OF t(1,2) k, where key = "[9]" and out = "-1"]) (auto simp: t(3) split: if_splits)
  from table_call.find [OF k this] have "trace table_call s [Ev_find 0 [9] FM_ERR_OK [9] ex_slot_two] s"
    by (rule trace.cons) simp
  then have "trace table_call ex_two (drop 2 ex_events) s" unfolding ex_events_def by (auto intro: trace.cons del)
  then have "trace table_call ex_one (tl ex_events) s" unfolding ex_events_def by (auto intro: trace.cons ex_calls(2))
  then have "trace table_call (new_table (\<lambda>_ _. True) 1 ex_ws 3 2) (hd ex_events # tl ex_events) s"
    unfolding ex_events_def list.sel by (rule trace.cons [of table_call, OF ex_calls(1)])
  then have "trace table_call (new_table (\<lambda>_ _. True) 1 ex_ws 3 2) ex_events s" by (simp add: ex_events_def)
  then show thesis by (rule that)
qed

text \<open>C19. In every state that calls on a created table lead to: each row has the record length, the row
  counter is the number of rows, no two rows agree on a unique key unless a part of it is null, every
  row can be found under each of its keys, and no bucket lock and no structure mutex is left held.\<close>

theorem run_invariant:
  assumes "create_ok ops ws mr nb" "table_step\<^sup>*\<^sup>* (new_table ops rl ws mr nb) s"
  shows "core_inv s \<and> quiet s \<and> sc_records s = int (card (dom (rows s))) \<and>
    (\<forall>i r. rows s i = Some r \<longrightarrow> length r = rl) \<and>
    (\<forall>k < length ws. unique_rows (kstat s k) (rows s) \<and> key_chains s k (rows s))"
proof -
  have r: "run_ok (new_table ops rl ws mr nb) s" by (rule new_run_ok [OF assms])
  then have c: "sc_reclength s = rl" "sc_keys s = length ws" "core_inv s" "quiet s"
    using new_table_inv [OF assms(1), of rl] by (simp_all add: run_ok_def same_schema_def)
  have "length r = rl" if "rows s i = Some r" for i r
    using core_invD(3) [OF c(3)] rows_slot [OF that] c(1) by (auto simp: slots_ok_def slot_ok_def)
  with c core_invD [OF c(3)] show ?thesis by simp
qed

theorem run_invariant_witness: "core_inv ex_two \<and> quiet ex_two \<and> unique_rows (kstat ex_two 0) (rows ex_two)"
  using run_invariant [OF ex_create_ok ex_run] by simp

text \<open>C20. Refinement, with the labels kept. The events of a run (every call with its arguments, its
  return code and its outputs) are a run of the abstract table that starts without rows: an insert
  is refused as a duplicate exactly when a unique key conflicts and succeeds only in an empty slot; an
  update and a delete succeed only on a row of the given generation, change that row alone and report
  what they found; a lookup by key finds a row exactly when one matches; scans and reads by position
  return the rows of the abstract table. The rows at the end are those that replaying the successful
  inserts, updates, deletes and clears leaves.\<close>

theorem run_refines_spec:
  assumes "create_ok ops ws mr nb" "trace table_call (new_table ops rl ws mr nb) es s"
  shows "st_rows (abs_table (new_table ops rl ws mr nb)) = Map.empty \<and>
    trace spec_step (abs_table (new_table ops rl ws mr nb)) es (abs_table s) \<and>
    rows s = fold replay es Map.empty"
proof -
  note n = new_table_inv [OF assms(1), of rl]
  have tr: "trace spec_step (abs_table (new_table ops rl ws mr nb)) es (abs_table s)"
    by (rule table_sim.trace_simulates [OF assms(2)]) (simp add: n)
  have "st_rows (abs_table s) = fold replay es (st_rows (abs_table (new_table ops rl ws mr nb)))"
    by (rule trace_fold [OF tr]) (rule spec_step_replay)
  then have "rows s = fold replay es Map.empty" by (simp add: n)
  with tr n(4) show ?thesis by simp
qed

theorem run_refines_spec_witness:
  "\<exists>s. trace table_call (new_table (\<lambda>_ _. True) 1 ex_ws 3 2) ex_events s \<and>
     trace spec_step (abs_table (new_table (\<lambda>_ _. True) 1 ex_ws 3 2)) ex_events (abs_table s) \<and>
     rows s = [ex_slot_two \<mapsto> [9]]"
proof -
  obtain s where s: "trace table_call (new_table (\<lambda>_ _. True) 1 ex_ws 3 2) ex_events s" by (rule ex_trace)
  have "fold replay ex_events Map.empty = [ex_slot_two \<mapsto> [9]]"
    using ex_two(5) by (auto simp: ex_events_def)
  with s run_refines_spec [OF ex_create_ok s] show ?thesis by auto
qed

text \<open>C24. Memory. Whatever calls were made on a table, and whichever allocations failed on the way, freeing
  the share gives back every block that was allocated, and none twice.\<close>

theorem run_no_leak:
  assumes "create_ok ops ws mr nb" "table_step\<^sup>*\<^sup>* (new_table ops rl ws mr nb) s"
  shows "\<exists>z. fm_core_free_share s = Some z \<and> sc_live z = 0 \<and> sc_chunks z = None \<and> sc_keydef z = None"
proof -
  let ?n = "new_table ops rl ws mr nb"
  have r: "core_inv s" "same_schema ?n s" using new_run_ok [OF assms] by (simp_all add: run_ok_def)
  from r(2) have "sc_live s - blocks s = sc_live ?n - blocks ?n" "(sc_keydef s = None) = (sc_keydef ?n = None)"
    "sc_keys s = sc_keys ?n"
    by (auto simp: same_schema_def lasting_def blocks_def chunk_blocks_def)
  then have "sc_live s = blocks s" "(sc_keydef s = None) = (sc_keys s = 0)"
    using new_table_inv(8,9) [OF assms(1), of rl] by simp_all
  then obtain z where "fm_core_free_share s = Some z" "sc_live z = 0" "sc_chunks z = None" "sc_keydef z = None"
    by (rule free_share_run [OF r(1)])
  then show ?thesis by blast
qed

theorem run_no_leak_witness: "\<exists>z. fm_core_free_share ex_two = Some z \<and> sc_live z = 0"
  using run_no_leak [OF ex_create_ok ex_run] by blast

text \<open>C29. Bounds, for a table created with a row limit of at most \<open>2 ^ 31 - 4096\<close> (which the code does not
  check; see \<open>create_ok\<close>). In every run the number of rows stays below the limit rounded up to whole
  chunks, and every slot number is a non-negative 32-bit integer.\<close>

theorem run_bounds:
  assumes "create_ok ops ws mr nb" "table_step\<^sup>*\<^sup>* (new_table ops rl ws mr nb) s"
  shows "sc_records s < int (max mr 1) + int FM_CHUNK_SIZE \<and> (\<forall>i \<in> dom (rows s). 0 \<le> i \<and> i < 2 ^ 31)"
proof -
  have r: "core_inv s" "same_schema (new_table ops rl ws mr nb) s" using new_run_ok [OF assms] by (simp_all add: run_ok_def)
  note S = core_invD(1) [OF r(1)]
  have m: "sc_max_records s = max mr 1"
    using r(2) new_table_inv(7) [OF assms(1), of rl] by (auto simp: same_schema_def max_def)
  have c: "sc_chunk_cnt s * FM_CHUNK_SIZE < sc_max_records s + FM_CHUNK_SIZE"
  proof -
    have "sc_chunk_cnt s \<le> (sc_max_records s + 4095) div 4096" using S by (simp add: sizes_ok_def add.commute)
    then have "sc_chunk_cnt s * 4096 \<le> (sc_max_records s + 4095) div 4096 * 4096" by (rule mult_le_mono1)
    then show ?thesis using div_times_less_eq_dividend [of "sc_max_records s + 4095" 4096] by linarith
  qed
  have sub: "dom (rows s) \<subseteq> {0..<int (sc_chunk_cnt s * FM_CHUNK_SIZE)}"
    using slot_exists [OF S] by (auto dest!: rows_slot) (metis option.distinct(1))+
  then have "card (dom (rows s)) \<le> sc_chunk_cnt s * FM_CHUNK_SIZE"
    using card_mono [OF _ sub] by simp
  moreover have "int (sc_chunk_cnt s * FM_CHUNK_SIZE) < 2 ^ 31" using sizes_bound(1) [OF S] by simp
  ultimately show ?thesis using c m core_invD(4) [OF r(1)] sub by (auto dest!: subsetD)
qed

theorem run_bounds_witness: "sc_records ex_two < 3 + 4096 \<and> 0 \<le> ex_slot_one"
  using run_bounds [OF ex_create_ok ex_run] ex_rows(2) by (auto simp: domIff)

end
