(* ===== verification/FM_Registry_Laws.thy ===== *)
theory FM_Registry_Laws
  imports FM_Registry FM_Runs
begin

text \<open>
  The registry keeps its books: the list holds the shares that are alive and not internal, a
  share counts its handles, and every block is accounted for. Calls on handles and shares that
  are alive return, whatever allocations fail, except that a core that could not be
  initialised is not freed properly.
\<close>

section \<open>Number of buckets\<close>

lemma bucket_loop_power:
  "n \<le> 20 \<Longrightarrow> \<exists>e. bucket_loop m (2 ^ n) = Some (2 ^ e) \<and> n \<le> e \<and> e \<le> 20 \<and> (m \<le> 2 ^ e \<or> e = 20) \<and>
     (e = n \<or> 2 ^ e < 2 * m)"
proof (induction "20 - n" arbitrary: n)
  case 0
  then have "n = 20" by simp
  then show ?case using bucket_loop.simps [of m "2 ^ 20"] by (intro exI [of _ "20 :: nat"]) simp
next
  case (Suc d)
  then have "n < 20" by simp
  moreover have "(2 :: nat) ^ n < 2 ^ 20" by (rule power_strict_increasing) (use Suc in simp_all)
  ultimately have n: "n < 20" "(2 :: nat) ^ n < 2 ^ 20" .
  show ?case
  proof (cases "2 ^ n < m")
    case True
    have d: "d = 20 - Suc n" "Suc n \<le> 20" using Suc(2) n by simp_all
    from Suc(1) [OF d] obtain e where "bucket_loop m (2 ^ Suc n) = Some (2 ^ e)" "Suc n \<le> e" "e \<le> 20"
      "m \<le> 2 ^ e \<or> e = 20" "e = Suc n \<or> 2 ^ e < 2 * m"
      by blast
    then show ?thesis using True n by (auto simp: bucket_loop.simps [of m "2 ^ n"])
  next
    case False
    then show ?thesis using n by (auto simp: bucket_loop.simps [of m "2 ^ n"])
  qed
qed

section \<open>The books\<close>

text \<open>A core that \<^verbatim>\<open>fm_core_free_share\<close> can free without losing a block.\<close>

definition freeable :: "FM_SHARE_CORE \<Rightarrow> bool" where
  "freeable core = (\<exists>z. fm_core_free_share core = Some z \<and> sc_live z = 0)"

text \<open>A share whose keys \<^verbatim>\<open>fm_key_ops_init\<close> can connect.\<close>

definition wirable :: "FM_SHARE \<Rightarrow> bool" where
  "wirable sh = (sc_keys (fs_core sh) = 0 \<or> sc_keydef (fs_core sh) \<noteq> None \<and> sc_keys (fs_core sh) \<le> length (fs_keydef sh))"

lemma wirable_upd [simp]:
  "wirable (sh\<lparr> fs_open_count := n \<rparr>) = wirable sh" "wirable (sh\<lparr> fs_open_list := xs \<rparr>) = wirable sh"
  "wirable (sh\<lparr> fs_name := name \<rparr>) = wirable sh" "wirable (sh\<lparr> fs_delete_on_close := b \<rparr>) = wirable sh"
  by (simp_all add: wirable_def)

definition handles :: "fm_world \<Rightarrow> addr \<Rightarrow> addr set" where
  "handles w a = {i. \<exists>info. w_infos w i = Some info \<and> in_s info = a}"

definition listed :: "fm_world \<Rightarrow> addr \<Rightarrow> addr set" where
  "listed w a = {i. \<exists>info. w_infos w i = Some info \<and> in_s info = a \<and> in_open_listed info}"

text \<open>\<open>pins a\<close> references to the share at \<open>a\<close> are held by calls under way that have no handle yet.\<close>

definition share_ok :: "(addr \<Rightarrow> nat) \<Rightarrow> fm_world \<Rightarrow> addr \<Rightarrow> FM_SHARE \<Rightarrow> bool" where
  "share_ok pins w a sh = (freeable (fs_core sh) \<and> wirable sh \<and> fs_open_count sh = card (handles w a) + pins a \<and>
     distinct (fs_open_list sh) \<and> set (fs_open_list sh) = listed w a)"

definition registered :: "fm_world \<Rightarrow> addr set" where
  "registered w = {a. \<exists>sh. w_shares w a = Some sh \<and> \<not> fs_internal sh}"

text \<open>\<open>k\<close> blocks are held by a call under way.\<close>

definition reg_ok :: "(addr \<Rightarrow> nat) \<Rightarrow> int \<Rightarrow> fm_world \<Rightarrow> bool" where
  "reg_ok pins k w = (finite (dom (w_shares w)) \<and> finite (dom (w_infos w)) \<and>
     (\<forall>a \<in> dom (w_shares w) \<union> dom (w_infos w). a < w_next w) \<and>
     distinct (w_list w) \<and> set (w_list w) = registered w \<and>
     (\<forall>i info. w_infos w i = Some info \<longrightarrow> w_shares w (in_s info) \<noteq> None) \<and>
     (\<forall>a sh. w_shares w a = Some sh \<longrightarrow> share_ok pins w a sh) \<and>
     (\<forall>a. w_shares w a = None \<longrightarrow> pins a = 0) \<and>
     w_live w = 2 * int (card (dom (w_shares w))) + int (card (dom (w_infos w))) + k \<and> w_lost w = 0)"

lemma reg_okD:
  assumes "reg_ok p k w"
  shows "finite (dom (w_shares w))" "finite (dom (w_infos w))"
    "\<And>a sh. w_shares w a = Some sh \<Longrightarrow> a < w_next w" "\<And>i info. w_infos w i = Some info \<Longrightarrow> i < w_next w"
    "distinct (w_list w)" "set (w_list w) = registered w"
    "\<And>i info. w_infos w i = Some info \<Longrightarrow> w_shares w (in_s info) \<noteq> None"
    "\<And>a sh. w_shares w a = Some sh \<Longrightarrow> share_ok p w a sh" "\<And>a. w_shares w a = None \<Longrightarrow> p a = 0"
    "w_live w = 2 * int (card (dom (w_shares w))) + int (card (dom (w_infos w))) + k" "w_lost w = 0"
  using assms by (auto simp: reg_ok_def)

lemma reg_okI:
  assumes "finite (dom (w_shares w))" "finite (dom (w_infos w))"
    "\<And>a sh. w_shares w a = Some sh \<Longrightarrow> a < w_next w" "\<And>i info. w_infos w i = Some info \<Longrightarrow> i < w_next w"
    "distinct (w_list w)" "set (w_list w) = registered w"
    "\<And>i info. w_infos w i = Some info \<Longrightarrow> w_shares w (in_s info) \<noteq> None"
    "\<And>a sh. w_shares w a = Some sh \<Longrightarrow> share_ok p w a sh" "\<And>a. w_shares w a = None \<Longrightarrow> p a = 0"
    "w_live w = 2 * int (card (dom (w_shares w))) + int (card (dom (w_infos w))) + k" "w_lost w = 0"
  shows "reg_ok p k w"
  using assms unfolding reg_ok_def by blast

lemma reg_ok_mutex [simp]:
  "reg_ok p k (w\<lparr> w_mutex := b \<rparr>) = reg_ok p k w"
  by (simp add: reg_ok_def share_ok_def handles_def listed_def registered_def)

lemma reg_ok_unlock [simp]: "reg_ok p k (registry_unlock w) = reg_ok p k w"
  by (simp add: registry_unlock_def)

lemma my_malloc_ok:
  assumes "reg_ok p k w" "my_malloc w = (w', ok)"
  shows "reg_ok p (k + (if ok then 1 else 0)) w'" "w_shares w' = w_shares w" "w_infos w' = w_infos w"
    "w_list w' = w_list w" "w_mutex w' = w_mutex w" "w_next w' = w_next w" "w_core_alloc w' = w_core_alloc w"
    "w_dbug w' = w_dbug w"
  using assms by (auto simp: my_malloc_def Let_def reg_ok_def share_ok_def handles_def listed_def registered_def)

lemma my_free_ok: "reg_ok p k w \<Longrightarrow> reg_ok p (k - 1) (my_free w)"
  by (simp add: my_free_def reg_ok_def share_ok_def handles_def listed_def registered_def)

lemma find_share_loop_ok:
  "\<forall>a \<in> set as. w_shares w a \<noteq> None \<Longrightarrow>
     find_share_loop w name as = Some None \<and> (\<forall>a \<in> set as. \<forall>sh. w_shares w a = Some sh \<longrightarrow> fs_name sh \<noteq> name) \<or>
     (\<exists>a \<in> set as. \<exists>sh. find_share_loop w name as = Some (Some a) \<and> w_shares w a = Some sh \<and> fs_name sh = name)"
proof (induction as)
  case (Cons a as)
  then obtain sh where "w_shares w a = Some sh" by auto
  with Cons show ?case by (cases "fs_name sh = name") simp_all
qed simp

text \<open>A search by name finds a share that is alive, or there is none of that name.\<close>

lemma find_named_cases:
  assumes "reg_ok p k w"
  obtains (none) "fm_find_named_share w name = Some None"
      "\<forall>a \<in> registered w. \<forall>sh. w_shares w a = Some sh \<longrightarrow> fs_name sh \<noteq> name"
  | (found) a sh where "fm_find_named_share w name = Some (Some a)" "w_shares w a = Some sh"
      "\<not> fs_internal sh" "fs_name sh = name"
proof -
  have l: "set (w_list w) = registered w" using assms by (simp add: reg_ok_def)
  have "\<forall>a \<in> set (w_list w). w_shares w a \<noteq> None" unfolding l by (auto simp: registered_def)
  from find_share_loop_ok [OF this, of name] show thesis
    unfolding fm_find_named_share_def [symmetric] l using none found by (auto simp: registered_def)
qed

lemma freeD:
  assumes "reg_ok p k w" "w_shares w a = Some sh"
  shows "a < w_next w" "freeable (fs_core sh)" "fs_open_count sh = card (handles w a) + p a"
    "distinct (fs_open_list sh)" "set (fs_open_list sh) = listed w a" "finite (handles w a)"
    "wirable sh"
  using assms by (auto simp: reg_ok_def share_ok_def handles_def intro: finite_subset [of _ "dom (w_infos w)"])

text \<open>Freeing a share that nothing refers to.\<close>

lemma fm_free_ok:
  assumes ok: "reg_ok p k w" and sh: "w_shares w a = Some sh" and no: "handles w a = {}"
  obtains w' where "fm_free a w = Some w'" "reg_ok (p(a := 0)) k w'" "w_shares w' = (w_shares w)(a := None)"
    "w_infos w' = w_infos w" "w_mutex w' = w_mutex w" "w_next w' = w_next w" "w_core_alloc w' = w_core_alloc w"
proof -
  obtain z where z: "fm_core_free_share (fs_core sh) = Some z" "sc_live z = 0"
    using freeD(2) [OF ok sh] by (auto simp: freeable_def)
  define w' where "w' = w\<lparr> w_list := remove1 a (w_list w), w_live := w_live w - 2, w_shares := (w_shares w)(a := None) \<rparr>"
  have l: "distinct (w_list w)" "set (w_list w) = registered w" "finite (dom (w_shares w))"
    using ok by (simp_all add: reg_ok_def)
  have "a \<notin> set (w_list w)" if "fs_internal sh" using that l(2) sh by (auto simp: registered_def)
  then have run: "fm_free a w = Some w'"
    using z sh by (simp add: fm_free_def my_free_def fm_share_list_remove_def w'_def Let_def remove1_idem)
  have "card (dom (w_shares w)) = Suc (card (dom ((w_shares w)(a := None))))"
    using card.remove [OF l(3) domI [of "w_shares w", OF sh]] by (simp only: dom_fun_upd if_True simp_thms)
  moreover have "registered w' = registered w - {a}" by (auto simp: registered_def w'_def)
  moreover have "handles w' = handles w" "listed w' = listed w" by (simp_all add: w'_def fun_eq_iff handles_def listed_def)
  ultimately have "reg_ok (p(a := 0)) k w'"
    using reg_okD [OF ok] no
    by (intro reg_okI) (auto simp: w'_def share_ok_def handles_def set_remove1_eq split: if_splits)
  then show thesis using that [OF run] by (simp add: w'_def)
qed


text \<open>Writing to a share.\<close>

lemma upd_share_ok:
  assumes ok: "reg_ok p k w" and sh: "w_shares w a = Some sh" "fs_internal sh' = fs_internal sh"
    and sh': "share_ok p' w a sh'" and p': "\<And>b. b \<noteq> a \<Longrightarrow> p' b = p b"
  shows "reg_ok p' k (upd_share w a sh')"
proof -
  have h: "handles (upd_share w a sh') = handles w" "listed (upd_share w a sh') = listed w"
    by (simp_all add: upd_share_def handles_def listed_def fun_eq_iff)
  then have "share_ok p' (upd_share w a sh') b x" if "w_shares (upd_share w a sh') b = Some x" for b x
    using that sh' p' reg_okD(8) [OF ok, of b x] by (cases "b = a") (auto simp: upd_share_def share_ok_def)
  moreover have "dom (w_shares (upd_share w a sh')) = dom (w_shares w)" using sh(1) by (auto simp: upd_share_def)
  moreover have "registered (upd_share w a sh') = registered w" using sh by (auto simp: upd_share_def registered_def)
  ultimately show ?thesis
    using reg_okD [OF ok] p' sh(1)
    by (intro reg_okI) (auto simp: upd_share_def split: if_splits)
qed

text \<open>A new handle, and a handle that goes away.\<close>

definition add_info :: "fm_world \<Rightarrow> addr \<Rightarrow> FM_SHARE \<Rightarrow> FM_INFO \<Rightarrow> fm_world" where
  "add_info w a share info = (upd_info (upd_share w a share) (w_next w) info)\<lparr> w_next := w_next w + 1 \<rparr>"

lemma add_info_ok:
  assumes ok: "reg_ok p (k + 1) w" and sh: "w_shares w a = Some sh"
    and info: "in_s info = a" "\<not> in_open_listed info"
  shows "reg_ok p k (add_info w a (sh\<lparr> fs_open_count := fs_open_count sh + 1 \<rparr>) info)" (is "reg_ok p k ?w")
proof -
  note D = reg_okD [OF ok] and F = freeD [OF ok sh]
  have n: "w_infos w (w_next w) = None" using D(4) by (metis less_irrefl not_None_eq)
  have h: "handles ?w b = (if b = a then insert (w_next w) (handles w a) else handles w b)"
    "listed ?w b = listed w b" for b
    using info n by (auto simp: add_info_def upd_info_def upd_share_def handles_def listed_def)
  have "w_next w \<notin> handles w a" using n by (simp add: handles_def)
  then have "share_ok p ?w b x" if "w_shares ?w b = Some x" for b x
    using that F D(8) [of b x] h by (auto simp: add_info_def upd_info_def upd_share_def share_ok_def split: if_splits)
  moreover have "dom (w_shares ?w) = dom (w_shares w)" "dom (w_infos ?w) = insert (w_next w) (dom (w_infos w))"
    using sh by (auto simp: add_info_def upd_info_def upd_share_def)
  moreover have "card (insert (w_next w) (dom (w_infos w))) = Suc (card (dom (w_infos w)))"
    using n D(2) by (simp add: domIff)
  moreover have "registered ?w = registered w" using sh by (auto simp: add_info_def upd_info_def upd_share_def registered_def)
  ultimately show ?thesis
    using D n sh info
    by (intro reg_okI) (auto simp: add_info_def upd_info_def upd_share_def less_SucI split: if_splits)
qed


definition drop_info :: "fm_world \<Rightarrow> addr \<Rightarrow> fm_world" where
  "drop_info w i = w\<lparr> w_infos := (w_infos w)(i := None) \<rparr>"

lemma drop_info_ok:
  assumes ok: "reg_ok p k w" and i: "w_infos w i = Some info"
    and sh: "w_shares w (in_s info) = Some sh"
  shows "reg_ok p (k + 1) (drop_info (upd_share w (in_s info) (sh\<lparr> fs_open_list := remove1 i (fs_open_list sh),
      fs_open_count := fs_open_count sh - 1 \<rparr>)) i)" (is "reg_ok p _ ?w")
    "0 < fs_open_count sh" "i \<notin> listed w (in_s info) \<Longrightarrow> remove1 i (fs_open_list sh) = fs_open_list sh"
    "i \<in> listed w (in_s info) \<longleftrightarrow> in_open_listed info"
proof -
  note D = reg_okD [OF ok] and F = freeD [OF ok sh]
  have hi: "i \<in> handles w (in_s info)" using i by (simp add: handles_def)
  then have c: "card (handles w (in_s info)) = Suc (card (handles w (in_s info) - {i}))"
    by (rule card.remove [OF F(6)])
  then show "0 < fs_open_count sh" using F(3) by simp
  show "remove1 i (fs_open_list sh) = fs_open_list sh" if "i \<notin> listed w (in_s info)" using that F(5) by (simp add: remove1_idem)
  show "i \<in> listed w (in_s info) \<longleftrightarrow> in_open_listed info" using i by (auto simp: listed_def)
  have h: "handles ?w b = (if b = in_s info then handles w b - {i} else handles w b)"
    "listed ?w b = (if b = in_s info then listed w b - {i} else listed w b)" for b
    using i by (auto simp: drop_info_def upd_share_def handles_def listed_def)
  have "share_ok p ?w b x" if "w_shares ?w b = Some x" for b x
    using that F c D(8) [of b x] h by (auto simp: drop_info_def upd_share_def share_ok_def set_remove1_eq split: if_splits)
  moreover have "dom (w_shares ?w) = dom (w_shares w)" "dom (w_infos ?w) = dom (w_infos w) - {i}"
    using sh by (auto simp: drop_info_def upd_share_def)
  moreover have "card (dom (w_infos w)) = Suc (card (dom (w_infos w) - {i}))"
    using card.remove [OF D(2) domI [of "w_infos w", OF i]] .
  moreover have "registered ?w = registered w" using sh by (auto simp: drop_info_def upd_share_def registered_def)
  ultimately show "reg_ok p (k + 1) ?w"
    using D sh by (intro reg_okI) (auto simp: drop_info_def upd_share_def split: if_splits)
qed

section \<open>Calls that return\<close>

text \<open>What a call that is not under way any more leaves behind: the books in order, the mutex free.\<close>

definition reg_inv :: "(addr \<Rightarrow> nat) \<Rightarrow> int \<Rightarrow> fm_world \<Rightarrow> bool" where
  "reg_inv pins k w = (reg_ok pins k w \<and> \<not> w_mutex w)"

lemma reg_inv_lock: "reg_inv p k w \<Longrightarrow> registry_lock w = Some (w\<lparr> w_mutex := True \<rparr>)"
  by (simp add: reg_inv_def registry_lock_def)

lemma reg_inv_unlock: "reg_ok p k w \<Longrightarrow> reg_inv p k (registry_unlock w)"
  by (simp add: reg_inv_def) (simp add: registry_unlock_def)

lemma open_locked_cases:
  assumes ok: "reg_ok p k w" and sh: "w_shares w a = Some sh"
  obtains (failed) w' where "fm_open_from_share_locked w a mode = Some (w', None)" "reg_ok p k w'"
      "w_shares w' = w_shares w" "w_infos w' = w_infos w" "w_mutex w' = w_mutex w"
  | (opened) w' i where "fm_open_from_share_locked w a mode = Some (w', Some i)" "reg_ok p k w'"
      "w_shares w' = (w_shares w)(a \<mapsto> sh\<lparr> fs_open_count := fs_open_count sh + 1 \<rparr>)"
      "w_infos w i = None" "w_infos w' = (w_infos w)(i \<mapsto> new_info (w_dbug w) a sh mode)" "w_mutex w' = w_mutex w"
proof -
  obtain w1 got where m: "my_malloc w = (w1, got)" by force
  note M = my_malloc_ok [OF ok m]
  show thesis
  proof (cases got)
    case False
    then show thesis using failed [of w1] m M sh by (simp add: fm_open_from_share_locked_def)
  next
    case True
    have n: "w_infos w (w_next w) = None" using reg_okD(4) [OF ok] by (metis less_irrefl not_None_eq)
    let ?s = "sh\<lparr> fs_open_count := fs_open_count sh + 1 \<rparr>"
    have "reg_ok p k (add_info w1 a ?s (new_info (w_dbug w) a sh mode))"
      by (rule add_info_ok) (use M sh True in \<open>simp_all add: new_info_def\<close>)
    moreover have "fm_open_from_share_locked w a mode = Some (add_info w1 a ?s (new_info (w_dbug w) a sh mode), Some (w_next w))"
      using sh m True M by (simp add: fm_open_from_share_locked_def add_info_def upd_share_def Let_def)
    ultimately show thesis
      using opened [of "add_info w1 a ?s (new_info (w_dbug w) a sh mode)" "w_next w"] M n
      by (simp add: add_info_def upd_info_def upd_share_def)
  qed
qed


lemma list_info_ok:
  assumes ok: "reg_ok p k w" and i: "w_infos w i = Some info" "\<not> in_open_listed info"
    and sh: "w_shares w (in_s info) = Some sh"
  obtains w' where "list_info i w = Some w'" "reg_ok p k w'" "w_mutex w' = w_mutex w"
    "w_shares w' = (w_shares w)(in_s info \<mapsto> sh\<lparr> fs_open_list := i # fs_open_list sh \<rparr>)"
    "w_infos w' = (w_infos w)(i \<mapsto> info\<lparr> in_open_listed := True \<rparr>)"
proof -
  define w' where "w' = upd_info (upd_share w (in_s info) (sh\<lparr> fs_open_list := i # fs_open_list sh \<rparr>))
       i (info\<lparr> in_open_listed := True \<rparr>)"
  note D = reg_okD [OF ok] and F = freeD [OF ok sh]
  have h: "handles w' b = handles w b" "listed w' b = (if b = in_s info then insert i (listed w b) else listed w b)" for b
    using i by (auto simp: w'_def upd_info_def upd_share_def handles_def listed_def)
  have "i \<notin> listed w (in_s info)" using i by (simp add: listed_def)
  then have "share_ok p w' b x" if "w_shares w' b = Some x" for b x
    using that F D(8) [of b x] h by (auto simp: w'_def upd_info_def upd_share_def share_ok_def split: if_splits)
  moreover have "dom (w_shares w') = dom (w_shares w)" "dom (w_infos w') = dom (w_infos w)"
    using sh i by (auto simp: w'_def upd_info_def upd_share_def)
  moreover have "registered w' = registered w" using sh by (auto simp: w'_def upd_info_def upd_share_def registered_def)
  ultimately have "reg_ok p k w'"
    using D sh i by (intro reg_okI) (auto simp: w'_def upd_info_def upd_share_def split: if_splits)
  moreover have "list_info i w = Some w'" using i sh by (simp add: list_info_def w'_def)
  ultimately show thesis using that [of w'] by (simp add: w'_def upd_info_def upd_share_def)
qed

text \<open>Opening with the mutex held, and entering the handle into the list.\<close>

lemma open_listed_cases:
  assumes ok: "reg_ok p k w" and sh: "w_shares w a = Some sh"
  obtains (failed) w' where "fm_open_from_share_locked w a mode = Some (w', None)" "reg_ok p k w'"
      "w_shares w' = w_shares w" "w_infos w' = w_infos w"
  | (opened) w' w'' i sh' where "fm_open_from_share_locked w a mode = Some (w', Some i)" "list_info i w' = Some w''"
      "reg_ok p k w''" "w_infos w i = None"
      "w_infos w'' = (w_infos w)(i \<mapsto> (new_info (w_dbug w) a sh mode)\<lparr> in_open_listed := True \<rparr>)"
      "sh' = sh\<lparr> fs_open_count := fs_open_count sh + 1, fs_open_list := i # fs_open_list sh \<rparr>"
      "w_shares w'' = (w_shares w)(a \<mapsto> sh')"
proof (cases rule: open_locked_cases [OF ok sh, where mode = mode])
  case (1 w')
  show thesis by (rule failed [OF 1(1-4)])
next
  case (2 w' i)
  obtain w'' where w'': "list_info i w' = Some w''" "reg_ok p k w''" "w_mutex w'' = w_mutex w'"
    "w_shares w'' = (w_shares w')(a \<mapsto> sh\<lparr> fs_open_count := fs_open_count sh + 1, fs_open_list := i # fs_open_list sh \<rparr>)"
    "w_infos w'' = (w_infos w')(i \<mapsto> (new_info (w_dbug w) a sh mode)\<lparr> in_open_listed := True \<rparr>)"
    by (rule list_info_ok [OF 2(2), of i "new_info (w_dbug w) a sh mode"
          "sh\<lparr> fs_open_count := fs_open_count sh + 1 \<rparr>"]) (use 2 in \<open>simp_all add: new_info_def\<close>)
  show thesis by (rule opened [OF 2(1) w''(1,2) 2(4)]) (use w'' 2 in simp_all)
qed

lemma fm_open_cases:
  assumes inv: "reg_inv p k w"
  obtains (none) w' where "fm_open w name mode = Some (w', Inl ENOENT)" "reg_inv p k w'"
      "w_shares w' = w_shares w" "\<forall>a \<in> registered w. \<forall>sh. w_shares w a = Some sh \<longrightarrow> fs_name sh \<noteq> name"
      "w' = w"
  | (failed) w' where "fm_open w name mode = Some (w', Inl ENOMEM)" "reg_inv p k w'" "w_shares w' = w_shares w"
      "w_infos w' = w_infos w"
  | (opened) w' i a sh where "fm_open w name mode = Some (w', Inr i)" "reg_inv p k w'" "w_infos w i = None"
      "w_shares w a = Some sh" "\<not> fs_internal sh" "fs_name sh = name"
      "w_infos w' = (w_infos w)(i \<mapsto> (new_info (w_dbug w) a sh mode)\<lparr> in_open_listed := True \<rparr>)"
      "w_shares w' = (w_shares w)(a \<mapsto> sh\<lparr> fs_open_count := fs_open_count sh + 1, fs_open_list := i # fs_open_list sh \<rparr>)"
proof -
  let ?l = "w\<lparr> w_mutex := True \<rparr>"
  have ok: "reg_ok p k ?l" using inv by (simp add: reg_inv_def)
  note L = reg_inv_lock [OF inv]
  show thesis
  proof (cases rule: find_named_cases [OF ok, where name = name])
    case 1
    have "registry_unlock ?l = w" using inv by (cases w) (simp add: registry_unlock_def reg_inv_def)
    then show thesis
      using 1 L inv by (intro none [of w]) (simp_all add: fm_open_def registered_def)
  next
    case (2 a sh)
    show thesis
    proof (cases rule: open_listed_cases [OF ok 2(2), where mode = mode])
      case (1 w')
      show thesis
        by (rule failed [of "registry_unlock w'"])
          (use 1 2 L reg_inv_unlock [OF 1(2)] in \<open>simp_all add: fm_open_def registry_unlock_def\<close>)
    next
      case o: (2 w' w'' i sh')
      show thesis
        by (rule opened [of "registry_unlock w''" i a sh])
          (use o 2 L reg_inv_unlock [OF o(3)] in \<open>simp_all add: fm_open_def registry_unlock_def\<close>)
    qed
  qed
qed

text \<open>\<^verbatim>\<open>fm_open_from_share_and_register\<close> turns the pin of its caller into the handle.\<close>

lemma register_cases:
  assumes inv: "reg_inv p k w" and sh: "w_shares w a = Some sh" and pin: "0 < p a"
  obtains (failed) w' where "fm_open_from_share_and_register w a mode = Some (w', None)" "reg_inv p k w'"
      "w_shares w' = w_shares w" "w_infos w' = w_infos w"
  | (opened) w' i where "fm_open_from_share_and_register w a mode = Some (w', Some i)"
      "reg_inv (p(a := p a - 1)) k w'" "w_infos w i = None"
      "w_infos w' = (w_infos w)(i \<mapsto> (new_info (w_dbug w) a sh mode)\<lparr> in_open_listed := True \<rparr>)"
      "w_shares w' = (w_shares w)(a \<mapsto> sh\<lparr> fs_open_list := i # fs_open_list sh \<rparr>)"
proof -
  let ?l = "w\<lparr> w_mutex := True \<rparr>"
  have ok: "reg_ok p k ?l" and a: "w_shares ?l a = Some sh" using inv sh by (simp_all add: reg_inv_def)
  note L = reg_inv_lock [OF inv]
  show thesis
  proof (cases rule: open_listed_cases [OF ok a, where mode = mode])
    case (1 w')
    show thesis
      by (rule failed [of "registry_unlock w'"])
        (use 1 L reg_inv_unlock [OF 1(2)] in \<open>simp_all add: fm_open_from_share_and_register_def registry_unlock_def\<close>)
  next
    case (2 w' w'' i sh')
    have s: "w_shares w'' a = Some sh'" using 2(7) by simp
    let ?s = "sh'\<lparr> fs_open_count := uint_dec (fs_open_count sh') \<rparr>"
    have "share_ok (p(a := p a - 1)) w'' a ?s"
      using freeD [OF 2(3) s] pin by (simp add: share_ok_def uint_dec_def)
    then have "reg_ok (p(a := p a - 1)) k (upd_share w'' a ?s)" by (intro upd_share_ok [OF 2(3) s]) simp_all
    then show thesis
      by (intro opened [of "registry_unlock (upd_share w'' a ?s)" i])
        (use 2 L s in \<open>simp_all add: fm_open_from_share_and_register_def reg_inv_unlock\<close>,
         simp_all add: registry_unlock_def upd_share_def uint_dec_def)
  qed
qed


text \<open>Freeing commutes with forgetting a handle, so closing can be seen as forgetting the handle first.\<close>

lemma fm_free_drop_info: "fm_free a (drop_info w i) = map_option (\<lambda>w'. drop_info w' i) (fm_free a w)"
proof (cases "w_shares w a")
  case (Some sh)
  then show ?thesis
    by (cases "fm_core_free_share (fs_core sh)")
      (simp_all add: fm_free_def drop_info_def my_free_def fm_share_list_remove_def Let_def)
qed (simp add: fm_free_def drop_info_def)

lemma my_free_drop_info: "drop_info (my_free w) i = my_free (drop_info w i)"
  by (cases w) (simp add: drop_info_def my_free_def)

lemma close_cases:
  assumes inv: "reg_inv p k w" and i: "w_infos w i = Some info"
    and sh: "w_shares w (in_s info) = Some sh"
  obtains (last) w' where "fm_close w i = Some w'" "reg_inv p k w'" "fs_open_count sh = 1" "fs_delete_on_close sh"
      "w_infos w' = (w_infos w)(i := None)" "w_shares w' = (w_shares w)(in_s info := None)"
  | (kept) w' sh' where "fm_close w i = Some w'" "reg_inv p k w'" "fs_open_count sh \<noteq> 1 \<or> \<not> fs_delete_on_close sh"
      "w_infos w' = (w_infos w)(i := None)" "w_shares w' = (w_shares w)(in_s info \<mapsto> sh')"
      "fs_core sh' = fs_core sh" "fs_name sh' = fs_name sh" "fs_open_count sh' = fs_open_count sh - 1"
      "fs_delete_on_close sh' = fs_delete_on_close sh"
proof -
  let ?l = "w\<lparr> w_mutex := True \<rparr>"
  let ?s = "sh\<lparr> fs_open_list := remove1 i (fs_open_list sh), fs_open_count := fs_open_count sh - 1 \<rparr>"
  have ok: "reg_ok p k ?l" and il: "w_infos ?l i = Some info" "w_shares ?l (in_s info) = Some sh"
    using inv i sh by (simp_all add: reg_inv_def)
  let ?u = "upd_share ?l (in_s info) ?s" and ?d = "drop_info (upd_share ?l (in_s info) ?s) i"
  note X = drop_info_ok [OF ok il]
  have d: "reg_ok p (k + 1) ?d" by (rule X(1))
  have ds: "w_shares ?d (in_s info) = Some ?s" by (simp add: drop_info_def upd_share_def)
  have s: "(if in_open_listed info then sh\<lparr> fs_open_list := remove1 i (fs_open_list sh) \<rparr> else sh) =
      sh\<lparr> fs_open_list := remove1 i (fs_open_list sh) \<rparr>" using X(3,4) by auto
  have run: "fm_close w i =
      do { w \<leftarrow> (if fs_open_count sh = 1 \<and> fs_delete_on_close sh then fm_free (in_s info) ?u else Some ?u);
           Some (registry_unlock (drop_info (my_free w) i)) }"
    unfolding fm_close_def using i sh X(2)
    by (simp add: reg_inv_lock [OF inv] s Let_def uint_dec_def drop_info_def my_free_def)
  show thesis
  proof (cases "fs_open_count sh = 1 \<and> fs_delete_on_close sh")
    case True
    then have h: "handles ?d (in_s info) = {}" and "p (in_s info) = 0"
      using freeD(3,6) [OF d ds] by simp_all
    obtain w' where w': "fm_free (in_s info) ?d = Some w'" "reg_ok (p(in_s info := 0)) (k + 1) w'"
      "w_shares w' = (w_shares ?d)(in_s info := None)" "w_infos w' = w_infos ?d" "w_mutex w' = w_mutex ?d"
      by (rule fm_free_ok [OF d ds h])
    then obtain v where v: "fm_free (in_s info) ?u = Some v" "w' = drop_info v i" by (auto simp: fm_free_drop_info)
    have "reg_ok p k (my_free w')" using my_free_ok [OF w'(2)] \<open>p (in_s info) = 0\<close> by (simp add: fun_upd_idem)
    moreover have "fm_close w i = Some (registry_unlock (my_free w'))"
      using run True v by (simp add: my_free_drop_info)
    ultimately show thesis
      using True w' by (intro last [of "registry_unlock (my_free w')"])
        (simp_all add: reg_inv_unlock, simp_all add: registry_unlock_def my_free_def drop_info_def upd_share_def)
  next
    case False
    have "reg_ok p k (my_free ?d)" using my_free_ok [OF d] by simp
    moreover have "fm_close w i = Some (registry_unlock (my_free ?d))"
      unfolding run if_not_P [OF False] by (simp add: my_free_drop_info)
    ultimately show thesis
      using False by (intro kept [of "registry_unlock (my_free ?d)" ?s])
        (simp_all add: reg_inv_unlock, simp_all add: registry_unlock_def my_free_def drop_info_def upd_share_def)
  qed
qed

lemma try_free_cases:
  assumes ok: "reg_ok p k w" and sh: "w_shares w a = Some sh"
  obtains (freed) w' where "fm_try_free a w = Some w'" "reg_ok p k w'" "fs_open_count sh = 0"
      "w_shares w' = (w_shares w)(a := None)" "w_infos w' = w_infos w"
  | (marked) w' where "fm_try_free a w = Some w'" "reg_ok p k w'" "fs_open_count sh \<noteq> 0"
      "w_shares w' = (w_shares w)(a \<mapsto> sh\<lparr> fs_delete_on_close := True \<rparr>)" "w_infos w' = w_infos w"
proof (cases "fs_open_count sh = 0")
  case True
  then have h: "handles w a = {}" and pa: "p a = 0" using freeD(3,6) [OF ok sh] by simp_all
  obtain w' where "fm_free a w = Some w'" "reg_ok (p(a := 0)) k w'" "w_shares w' = (w_shares w)(a := None)"
    "w_infos w' = w_infos w" by (rule fm_free_ok [OF ok sh h])
  then show thesis using True pa sh by (intro freed [of w']) (simp_all add: fm_try_free_def fun_upd_idem)
next
  case False
  let ?s = "sh\<lparr> fs_delete_on_close := True \<rparr>"
  have "reg_ok p k (upd_share w a ?s)"
    by (rule upd_share_ok [OF ok sh]) (use freeD [OF ok sh] in \<open>simp_all add: share_ok_def\<close>)
  then show thesis
    using False sh by (intro marked [of "upd_share w a ?s"]) (simp_all add: fm_try_free_def, simp_all add: upd_share_def)
qed


lemma delete_table_cases:
  assumes inv: "reg_inv p k w"
  obtains (none) w' where "fm_delete_table w name = Some (w', ENOENT)" "reg_inv p k w'" "w_shares w' = w_shares w"
      "\<forall>a \<in> registered w. \<forall>sh. w_shares w a = Some sh \<longrightarrow> fs_name sh \<noteq> name" "w_infos w' = w_infos w"
  | (freed) w' a sh where "fm_delete_table w name = Some (w', HA_OK)" "reg_inv p k w'" "w_shares w a = Some sh"
      "fs_name sh = name" "fs_open_count sh = 0" "w_shares w' = (w_shares w)(a := None)" "w_infos w' = w_infos w"
  | (marked) w' a sh where "fm_delete_table w name = Some (w', HA_OK)" "reg_inv p k w'" "w_shares w a = Some sh"
      "fs_name sh = name" "fs_open_count sh \<noteq> 0" "w_shares w' = (w_shares w)(a \<mapsto> sh\<lparr> fs_delete_on_close := True \<rparr>)"
      "w_infos w' = w_infos w"
proof -
  let ?l = "w\<lparr> w_mutex := True \<rparr>"
  have ok: "reg_ok p k ?l" using inv by (simp add: reg_inv_def)
  note L = reg_inv_lock [OF inv]
  show thesis
  proof (cases rule: find_named_cases [OF ok, where name = name])
    case 1
    show thesis
      by (rule none [of "registry_unlock ?l"])
        (use 1 L reg_inv_unlock [OF ok] in \<open>simp_all add: fm_delete_table_def registry_unlock_def registered_def\<close>)
  next
    case (2 a sh)
    show thesis
    proof (cases rule: try_free_cases [OF ok 2(2)])
      case (1 w')
      show thesis
        by (rule freed [of "registry_unlock w'" a sh])
          (use 1 2 L reg_inv_unlock [OF 1(2)] in \<open>simp_all add: fm_delete_table_def registry_unlock_def\<close>)
    next
      case m: (2 w')
      show thesis
        by (rule marked [of "registry_unlock w'" a sh])
          (use m 2 L reg_inv_unlock [OF m(2)] in \<open>simp_all add: fm_delete_table_def registry_unlock_def\<close>)
    qed
  qed
qed

lemma drop_table_ok:
  assumes inv: "reg_inv p k w" and i: "w_infos w i = Some info"
  obtains w' where "fm_drop_table w i = Some w'" "reg_inv p k w'"
proof -
  let ?l = "w\<lparr> w_mutex := True \<rparr>"
  have ok: "reg_ok p k ?l" using inv by (simp add: reg_inv_def)
  obtain sh where sh: "w_shares ?l (in_s info) = Some sh" using reg_okD(7) [OF ok, of i info] i by auto
  show thesis
    by (cases rule: try_free_cases [OF ok sh])
      (use that i reg_inv_lock [OF inv] in \<open>auto simp: fm_drop_table_def reg_inv_unlock\<close>)
qed

lemma rename_ok:
  assumes inv: "reg_inv p k w"
  obtains w' e where "fm_rename w old_name new_name = Some (w', e)" "reg_inv p k w'" "w_infos w' = w_infos w"
proof -
  let ?l = "w\<lparr> w_mutex := True \<rparr>"
  have ok: "reg_ok p k ?l" using inv by (simp add: reg_inv_def)
  note L = reg_inv_lock [OF inv]
  show thesis
  proof (cases rule: find_named_cases [OF ok, where name = old_name])
    case 1
    show thesis
      by (rule that [of "registry_unlock ?l"]) (use 1 L reg_inv_unlock [OF ok] in \<open>simp_all add: fm_rename_def\<close>, simp add: registry_unlock_def)
  next
    case (2 a sh)
    obtain w1 got where m: "my_malloc ?l = (w1, got)" by force
    note M = my_malloc_ok [OF ok m]
    show thesis
    proof (cases got)
      case False
      then show thesis
        by (intro that [of "registry_unlock w1"]) (use M 2 L m in \<open>simp_all add: fm_rename_def reg_inv_unlock\<close>, simp add: registry_unlock_def)
    next
      case True
      have k: "reg_ok p k (my_free w1)" and s: "w_shares (my_free w1) a = Some sh"
        using my_free_ok [OF M(1)] True M(2) 2(2) by (simp_all add: my_free_def)
      have "reg_ok p k (upd_share (my_free w1) a (sh\<lparr> fs_name := new_name \<rparr>))"
        by (rule upd_share_ok [OF k s]) (use freeD [OF k s] in \<open>simp_all add: share_ok_def\<close>)
      then show thesis
        by (intro that [of "registry_unlock (upd_share (my_free w1) a (sh\<lparr> fs_name := new_name \<rparr>))" HA_OK])
          (use 2 L m True M(3) in \<open>simp_all add: fm_rename_def reg_inv_unlock\<close>, simp add: registry_unlock_def upd_share_def my_free_def)
    qed
  qed
qed

lemma release_ok:
  assumes inv: "reg_inv p k w" and sh: "w_shares w a = Some sh"
    and ref: "if internal then fs_open_count sh = 0 else 0 < p a"
  obtains w' where "fm_release_share w a internal = Some w'"
    "reg_inv (p(a := if internal then 0 else p a - 1)) k w'" "w_infos w' = w_infos w"
proof (cases internal)
  case True
  then have h: "handles w a = {}" using ref freeD(3,6) [of p k w a sh] inv sh by (simp add: reg_inv_def)
  obtain w' where "fm_free a w = Some w'" "reg_ok (p(a := 0)) k w'" "w_mutex w' = w_mutex w" "w_infos w' = w_infos w"
    by (rule fm_free_ok [OF _ sh h, of p k]) (use inv in \<open>simp add: reg_inv_def\<close>)
  then show thesis using True inv by (intro that [of w']) (simp_all add: fm_release_share_def reg_inv_def)
next
  case False
  let ?l = "w\<lparr> w_mutex := True \<rparr>" and ?s = "sh\<lparr> fs_open_count := uint_dec (fs_open_count sh) \<rparr>"
  have ok: "reg_ok p k ?l" and sl: "w_shares ?l a = Some sh" using inv sh by (simp_all add: reg_inv_def)
  let ?p = "p(a := p a - 1)" and ?u = "upd_share (w\<lparr> w_mutex := True \<rparr>) a (sh\<lparr> fs_open_count := uint_dec (fs_open_count sh) \<rparr>)"
  have u: "reg_ok ?p k ?u"
    by (rule upd_share_ok [OF ok sl]) (use freeD [OF ok sl] ref False in \<open>simp_all add: share_ok_def uint_dec_def\<close>)
  have us: "w_shares ?u a = Some ?s" by (simp add: upd_share_def)
  show thesis
  proof (cases "fs_open_count ?s = 0")
    case True
    then have h: "handles ?u a = {}" and pa: "?p a = 0" using freeD(3,6) [OF u us] by simp_all
    obtain w' where "fm_free a ?u = Some w'" "reg_ok (?p(a := 0)) k w'" "w_infos w' = w_infos ?u" by (rule fm_free_ok [OF u us h])
    then show thesis
      using False True pa sh by (intro that [of "registry_unlock w'"])
        (simp_all add: fm_release_share_def reg_inv_lock [OF inv] reg_inv_unlock Let_def, simp add: registry_unlock_def upd_share_def)
  next
    case f: False
    then show thesis
      using False u sh by (intro that [of "registry_unlock ?u"])
        (simp_all add: fm_release_share_def reg_inv_lock [OF inv] reg_inv_unlock Let_def, simp add: registry_unlock_def upd_share_def)
  qed
qed


section \<open>Creating\<close>

lemma free_pristine:
  assumes "sc_keydef s = (if sc_keys s = 0 then None else Some (replicate (sc_keys s) (fresh_key n)))"
    "sc_chunks s \<noteq> None" "sc_chunk_cnt s = 0" "sc_live s = (if sc_keys s = 0 then 1 else 2 + 2 * int (sc_keys s))"
  shows "freeable s"
proof -
  let ?t = "s\<lparr> sc_live := sc_live s - 1 \<rparr>"
  have "\<exists>kc. get_key ?t k = Some kc \<and> kc_head kc \<noteq> None \<and> kc_locks kc \<noteq> None" if "k < sc_keys s" for k
    using that assms(1) by (simp add: get_key_def fresh_key_def)
  from free_keys_run [OF this] show ?thesis
    using assms by (simp add: freeable_def fm_core_free_share_def ops_dealloc_def Let_def zero_share_def)
qed

lemma new_share_freeable:
  assumes "serves alloc (2 + 2 * length (ci_keydef ci))"
  shows "freeable (fs_core (new_share now ci alloc n name))" "sc_chunks (fs_core (new_share now ci alloc n name)) \<noteq> None"
    "wirable (new_share now ci alloc n name)"
  using init_share_ok [OF assms]
  by (auto simp: new_share_def wirable_def Let_def intro!: free_pristine [where n = "if n \<noteq> 0 then n else 1024"])

text \<open>A share enters the books.\<close>

lemma add_share_ok:
  assumes ok: "reg_ok p (k + 2) w" and a: "a = w_next w" and sh: "freeable (fs_core sh)" "wirable sh" "fs_open_count sh = 0" "fs_open_list sh = []"
  shows "reg_ok p k (let w = upd_share (w\<lparr> w_next := Suc a \<rparr>) a sh in if \<not> fs_internal sh then fm_share_list_add a w else w)"
    (is "reg_ok p k ?w")
proof -
  define v where "v = ?w"
  note D = reg_okD [OF ok]
  have n: "w_shares w a = None" using D(3) a by (metis less_irrefl not_None_eq)
  have na: "in_s info \<noteq> a" if "w_infos w i = Some info" for i info using D(7) [OF that] n by auto
  have s: "w_shares v = (w_shares w)(a \<mapsto> sh)" "w_infos v = w_infos w" "w_next v = Suc a"
    "w_list v = (if fs_internal sh then w_list w else a # w_list w)" "w_live v = w_live w" "w_lost v = w_lost w"
    by (simp_all add: v_def upd_share_def fm_share_list_add_def Let_def)
  then have h: "handles v = handles w" "listed v = listed w" by (simp_all add: handles_def listed_def fun_eq_iff)
  have "handles w a = {}" "listed w a = {}" using na by (auto simp: handles_def listed_def)
  then have "share_ok p v b x" if "w_shares v b = Some x" for b x
    using that D(8) [of b x] D(9) [OF n] sh h s by (auto simp: share_ok_def split: if_splits)
  moreover have "registered v = (if fs_internal sh then registered w else insert a (registered w))" "a \<notin> registered w"
    unfolding registered_def s using n by auto
  moreover have "card (insert a (dom (w_shares w))) = Suc (card (dom (w_shares w)))" using n D(1) by (simp add: domIff)
  ultimately show ?thesis
    unfolding v_def [symmetric] using D a by (intro reg_okI) (auto simp: s less_SucI split: if_splits)
qed

lemma create_share_cases:
  assumes ok: "reg_ok p k w" and sv: "serves (w_core_alloc w (w_next w)) (2 + 2 * length (ci_keydef ci))"
  obtains (failed) w' where "create_share now w name ci = Some (w', None)" "reg_ok p k w'" "w_shares w' = w_shares w"
      "w_infos w' = w_infos w"
  | (made) w' a sh where "create_share now w name ci = Some (w', Some a)" "reg_ok p k w'" "w_shares w a = None"
      "w_shares w' = (w_shares w)(a \<mapsto> sh)" "w_infos w' = w_infos w" "fs_name sh = name" "fs_open_count sh = 0"
      "fs_keydef sh = ci_keydef ci" "fs_internal sh = ci_internal_table ci"
proof -
  let ?a = "w_next w"
  obtain e where b: "bucket_loop (ci_max_records ci div 4) 1024 = Some (2 ^ e)"
    using bucket_loop_power [of 10 "ci_max_records ci div 4"] by auto
  define sh where "sh = new_share now ci (w_core_alloc w ?a) (2 ^ e) name"
  note S = new_share_freeable [OF sv, of now "2 ^ e" name, folded sh_def]
  obtain cs where cs: "sc_chunks (fs_core sh) = Some cs" using S(2) by auto
  have internal: "fs_internal sh = ci_internal_table ci" by (simp add: sh_def new_share_def Let_def)
  have n: "w_shares w ?a = None" using reg_okD(3) [OF ok] by (metis less_irrefl not_None_eq)
  obtain w1 g1 where m1: "my_malloc w = (w1, g1)" by force
  note M1 = my_malloc_ok [OF ok m1]
  show thesis
  proof (cases g1)
    case False
    then show thesis using M1 by (intro failed [of w1]) (simp_all add: create_share_def b m1)
  next
    case True
    then have ok1: "reg_ok p (k + 1) w1" using M1(1) by simp
    have ok1': "reg_ok p (k + 1) (w1\<lparr> w_next := Suc ?a \<rparr>)"
      using reg_okD [OF ok1] M1 by (intro reg_okI)
        (auto simp: share_ok_def handles_def listed_def registered_def less_SucI)
    obtain w2 g2 where m2: "my_malloc (w1\<lparr> w_next := Suc ?a \<rparr>) = (w2, g2)" by force
    note M2 = my_malloc_ok [OF ok1' m2]
    show thesis
    proof (cases g2)
      case False
      obtain z where z: "fm_core_free_share (fs_core sh) = Some z" "sc_live z = 0" using S(1) by (auto simp: freeable_def)
      have "reg_ok p k (my_free w2)" using my_free_ok [OF M2(1)] False by simp
      moreover have "(my_free w2)\<lparr> w_lost := w_lost w2 \<rparr> = my_free w2" by (cases w2) (simp add: my_free_def)
      ultimately show thesis
        using False True z M1 M2 S(2) by (intro failed [of "my_free w2"])
          (auto simp: create_share_def b m1 m2 sh_def [symmetric] Let_def my_free_def)
    next
      case g2: True
      obtain w3 g3 where m3: "my_malloc w1 = (w3, g3)" by force
      have w2: "w2 = w3\<lparr> w_next := Suc ?a \<rparr>" "g3" using m2 m3 g2 by (auto simp: my_malloc_def Let_def)
      note M3 = my_malloc_ok [OF ok1 m3]
      let ?w = "let w = upd_share w2 ?a sh in if \<not> fs_internal sh then fm_share_list_add ?a w else w"
      have "reg_ok p k ?w"
        unfolding w2(1) by (rule add_share_ok) (use M3 M1 w2(2) S(1,3) in \<open>simp_all add: sh_def new_share_def Let_def add.commute [of k]\<close>)
      moreover have "create_share now w name ci = Some (?w, Some ?a)"
        using True g2 M1 cs internal by (simp add: create_share_def b m1 m2 sh_def [symmetric] Let_def)
      moreover have "w_shares ?w = (w_shares w)(?a \<mapsto> sh)" "w_infos ?w = w_infos w"
        using M1 M2 by (simp_all add: upd_share_def fm_share_list_add_def Let_def)
      ultimately show thesis
        using n by (intro made [of ?w ?a sh]) (simp_all add: sh_def new_share_def Let_def)
    qed
  qed
qed


lemma create_lookup_cases:
  assumes ok: "reg_ok p k w"
  obtains (fresh) w' where "create_lookup w name = Some (w', None)" "reg_ok p k w'" "w_next w' = w_next w" "w_core_alloc w' = w_core_alloc w"
      "w_infos w' = w_infos w"
  | (shared) a sh where "create_lookup w name = Some (w, Some a)" "w_shares w a = Some sh" "fs_name sh = name" "\<not> fs_internal sh"
      "fs_open_count sh \<noteq> 0"
proof (cases rule: find_named_cases [OF ok, where name = name])
  case 1
  then show thesis by (intro fresh [of w]) (simp_all add: create_lookup_def ok)
next
  case (2 a sh)
  show thesis
  proof (cases "fs_open_count sh = 0")
    case True
    then have h: "handles w a = {}" and pa: "p a = 0" using freeD(3,6) [OF ok 2(2)] by simp_all
    obtain w' where "fm_free a w = Some w'" "reg_ok (p(a := 0)) k w'" "w_next w' = w_next w" "w_core_alloc w' = w_core_alloc w"
      "w_infos w' = w_infos w"
      by (rule fm_free_ok [OF ok 2(2) h])
    then show thesis using 2 True pa by (intro fresh [of w']) (simp_all add: create_lookup_def fun_upd_idem)
  next
    case False
    then show thesis using 2 by (intro shared [of a sh]) (simp_all add: create_lookup_def)
  qed
qed

lemma fm_create_cases:
  assumes inv: "reg_inv p k w" and sv: "serves (w_core_alloc w (w_next w)) (2 + 2 * length (ci_keydef ci))"
  obtains (failed) w' where "fm_create now w name ci pin = Some (w', None)" "reg_inv p k w'" "w_infos w' = w_infos w"
  | (created) w' a sh new where "fm_create now w name ci pin = Some (w', Some (a, new))"
      "reg_inv (if pin \<and> \<not> ci_internal_table ci then p(a := p a + 1) else p) k w'" "w_infos w' = w_infos w" "w_shares w' a = Some sh" "fs_name sh = name"
      "fs_internal sh = ci_internal_table ci" "ci_internal_table ci \<longrightarrow> fs_open_count sh = 0"
proof (cases "ci_internal_table ci")
  case True
  have ok: "reg_ok p k w" and mx: "\<not> w_mutex w" using inv by (simp_all add: reg_inv_def)
  have mut: "w_mutex w' = w_mutex w" if "create_share now w name ci = Some (w', r)" for w' r
    using that by (auto simp: create_share_def my_malloc_def my_free_def upd_share_def fm_share_list_add_def Let_def
        bind_eq_Some_conv split: if_splits)
  show thesis
  proof (cases rule: create_share_cases [OF ok sv, where now = now and name = name])
    case (1 w')
    then show thesis using True mut mx by (intro failed [of w']) (auto simp: fm_create_def reg_inv_def)
  next
    case (2 w' a sh)
    then show thesis using True mut mx by (intro created [of w' a True sh]) (auto simp: fm_create_def reg_inv_def)
  qed
next
  case False
  let ?l = "w\<lparr> w_mutex := True \<rparr>"
  have ok: "reg_ok p k ?l" using inv by (simp add: reg_inv_def)
  have fin: thesis if run: "fm_create now w name ci pin = create_pin pin v (Some (a, new))" and v: "reg_ok p k v" "w_infos v = w_infos w"
    and sh: "w_shares v a = Some sh" "fs_name sh = name" "\<not> fs_internal sh" for v a new sh
  proof -
    let ?s = "sh\<lparr> fs_open_count := fs_open_count sh + 1 \<rparr>"
    have "reg_ok (p(a := p a + 1)) k (upd_share v a ?s)"
      by (rule upd_share_ok [OF v(1) sh(1)]) (use freeD [OF v(1) sh(1)] in \<open>simp_all add: share_ok_def\<close>)
    then show thesis
      using run v sh False
      by (intro created [of "registry_unlock (if pin then upd_share v a ?s else v)" a new "if pin then ?s else sh"])
        (simp_all add: create_pin_def reg_inv_unlock, simp_all add: registry_unlock_def upd_share_def)
  qed
  show thesis
  proof (cases rule: create_lookup_cases [OF ok, where name = name])
    case (1 w')
    have sv': "serves (w_core_alloc w' (w_next w')) (2 + 2 * length (ci_keydef ci))" using sv 1(3,4) by simp
    have run: "fm_create now w name ci pin =
        do { (w, r) \<leftarrow> create_share now w' name ci; create_pin pin w (map_option (\<lambda>a. (a, True)) r) }"
      using False 1(1) reg_inv_lock [OF inv]
      by (simp add: fm_create_def)
    show thesis
    proof (cases rule: create_share_cases [OF 1(2) sv', where now = now and name = name])
      case c: (1 v)
      then show thesis using run 1
        by (intro failed [of "registry_unlock v"]) (simp_all add: create_pin_def reg_inv_unlock, simp_all add: registry_unlock_def)
    next
      case c: (2 v a sh)
      then show thesis using run 1(5) False by (intro fin [of v a True sh]) simp_all
    qed
  next
    case (2 a sh)
    then show thesis
      by (intro fin [of ?l a False sh])
        (use False ok reg_inv_lock [OF inv] in \<open>simp_all add: fm_create_def\<close>)
  qed
qed

end
