(* ===== verification/FM_Registry_Runs.thy ===== *)
theory FM_Registry_Runs
  imports FM_Registry_Laws
begin

text \<open>
  The registry as a transition system: any sequence of the calls that create, open, close, drop
  and rename tables, with row operations on the tables in between. A state pairs the engine
  with the pins, the references that the callers of \<^verbatim>\<open>fm_create\<close> hold.
\<close>

section \<open>Tables in use\<close>

text \<open>A core whose keys are wired and whose accounts balance.\<close>

definition balanced :: "FM_SHARE_CORE \<Rightarrow> bool" where
  "balanced s = (core_inv s \<and> quiet s \<and> sc_live s = blocks s \<and> (sc_keydef s = None) = (sc_keys s = 0))"

lemma balanced_freeable: "balanced s \<Longrightarrow> freeable s"
  unfolding balanced_def freeable_def by (metis free_share_run)

lemma balanced_step:
  assumes "balanced s" "table_step s s'"
  shows "balanced s'"
proof -
  have b: "core_inv s" "quiet s" "sc_live s = blocks s" "(sc_keydef s = None) = (sc_keys s = 0)"
    using assms(1) by (simp_all add: balanced_def)
  have s: "core_inv s'" "quiet s'" "same_schema s s'" using table_step_ok [OF assms(2) b(1,2)] by (simp_all add: step_ok_def)
  from s(3) have "sc_live s' - blocks s' = sc_live s - blocks s" "(sc_keydef s' = None) = (sc_keydef s = None)"
    "sc_keys s' = sc_keys s"
    by (auto simp: same_schema_def lasting_def blocks_def chunk_blocks_def)
  with s b show ?thesis by (simp add: balanced_def)
qed

lemma balanced_step_keys:
  assumes "balanced s" "table_step s s'"
  shows "sc_keys s' = sc_keys s" "(sc_keydef s' = None) = (sc_keydef s = None)"
proof -
  have "same_schema s s'" using table_step_ok [OF assms(2)] assms(1) by (simp add: step_ok_def balanced_def)
  then show "sc_keys s' = sc_keys s" "(sc_keydef s' = None) = (sc_keydef s = None)" by (auto simp: same_schema_def lasting_def)
qed

lemma new_table_balanced: "create_ok ops ws mr nb \<Longrightarrow> balanced (new_table ops rl ws mr nb)"
  by (simp add: balanced_def new_table_inv)

text \<open>Connecting the keys does not change what freeing the core does.\<close>

lemma wire_fields [simp]:
  "sc_keys (wire_keys ws s) = sc_keys s" "sc_chunk_cnt (wire_keys ws s) = sc_chunk_cnt s" "sc_chunks (wire_keys ws s) = sc_chunks s"
  "sc_live (wire_keys ws s) = sc_live s" "sc_alloc (wire_keys ws s) = sc_alloc s" "sc_nalloc (wire_keys ws s) = sc_nalloc s"
  "(sc_keydef (wire_keys ws s) = None) = (sc_keydef s = None)"
  "(\<exists>y. sc_keydef (wire_keys ws s) = Some y) = (\<exists>y. sc_keydef s = Some y)" "ops_dealloc (wire_keys ws s) = wire_keys ws (ops_dealloc s)"
  by (simp_all add: wire_keys_def ops_dealloc_def)

lemma wire_free_chunk: "free_chunk i (wire_keys ws s) = map_option (wire_keys ws) (free_chunk i s)"
proof -
  have "(ops_dealloc ^^ n) (wire_keys ws s) = wire_keys ws ((ops_dealloc ^^ n) s)" for n s
    by (simp add: ops_dealloc_pow wire_keys_def)
  then show ?thesis by (auto simp: free_chunk_def Let_def split: option.splits bind_splits)
qed

lemma wire_free_key: "k < length ws \<Longrightarrow> free_key k (wire_keys ws s) = map_option (wire_keys ws) (free_key k s)"
  by (cases "sc_keydef s")
    (auto simp: free_key_def get_key_def wire_keys_def wire_key_def ops_dealloc_def Let_def split_beta)

lemma foldM_commute:
  assumes "\<And>x s. x \<in> set xs \<Longrightarrow> f x (g s) = map_option g (f x s)"
  shows "foldM f xs (g s) = map_option g (foldM f xs s)"
  using assms by (induction xs arbitrary: s) (auto simp: bind_map_option comp_def split: bind_splits)

lemma free_chunks_keys: "foldM free_chunk xs s = Some t \<Longrightarrow> sc_keys t = sc_keys s"
proof (induction xs arbitrary: s)
  case (Cons i xs)
  have "sc_keys u = sc_keys s" if "free_chunk i s = Some u" for u
    using that by (auto simp: free_chunk_def ops_dealloc_pow ops_dealloc_def Let_def bind_eq_Some_conv split: option.splits if_splits)
  then show ?case using Cons by (auto simp: bind_eq_Some_conv)
qed simp

lemma wire_free:
  assumes "sc_keys s \<le> length ws"
  shows "fm_core_free_share (wire_keys ws s) = fm_core_free_share s"
proof (cases "foldM free_chunk [0..<sc_chunk_cnt s] s")
  case None
  then show ?thesis by (simp add: fm_core_free_share_def foldM_commute [where g = "wire_keys ws"] wire_free_chunk)
next
  case (Some t)
  have k: "foldM free_key [0..<sc_keys t] (wire_keys ws u) = map_option (wire_keys ws) (foldM free_key [0..<sc_keys t] u)" for u
    by (rule foldM_commute) (use wire_free_key assms free_chunks_keys [OF Some] in simp)
  have o: "sc_keys (ops_dealloc t) = sc_keys t" by (simp add: ops_dealloc_def)
  show ?thesis
    using Some k o
    by (cases "sc_chunks t")
      (auto simp: fm_core_free_share_def foldM_commute [where g = "wire_keys ws"] wire_free_chunk Let_def bind_map_option comp_def
        split: bind_splits)
qed

lemma wire_share:
  assumes "fm_key_ops_init E (fs_keydef sh) (fs_core sh) = Some c" "freeable (fs_core sh)" "wirable sh"
  shows "freeable c" "wirable (sh\<lparr> fs_core := c \<rparr>)"
proof -
  from assms(1) obtain ws where c: "c = wire_keys ws (fs_core sh)" "sc_keys (fs_core sh) \<le> length ws"
    by (auto simp: fm_key_ops_init_def split: if_splits)
  show "freeable c" using assms(2) unfolding freeable_def c(1) wire_free [OF c(2)] .
  show "wirable (sh\<lparr> fs_core := c \<rparr>)" using assms(3) by (auto simp: wirable_def c(1))
qed

section \<open>Steps\<close>

type_synonym reg_state = "fm_world \<times> (addr \<Rightarrow> nat)"

inductive reg_step :: "reg_state \<Rightarrow> reg_state \<Rightarrow> bool" where
  create: "\<not> ci_internal_table ci \<Longrightarrow> serves (w_core_alloc w (w_next w)) (2 + 2 * length (ci_keydef ci)) \<Longrightarrow>
    fm_create now w name ci False = Some (w', r) \<Longrightarrow> reg_step (w, p) (w', p)"
| create_pinned: "\<not> ci_internal_table ci \<Longrightarrow> serves (w_core_alloc w (w_next w)) (2 + 2 * length (ci_keydef ci)) \<Longrightarrow>
    fm_create now w name ci True = Some (w', r) \<Longrightarrow>
    reg_step (w, p) (w', case r of None \<Rightarrow> p | Some (a, new) \<Rightarrow> p(a := p a + 1))"
| create_internal: "ci_internal_table ci \<Longrightarrow> serves (w_core_alloc w (w_next w)) (2 + 2 * length (ci_keydef ci)) \<Longrightarrow>
    fm_create now w name ci pin = Some (w', r) \<Longrightarrow> reg_step (w, p) (w', p)"
| open_name: "fm_open w name mode = Some (w', r) \<Longrightarrow> reg_step (w, p) (w', p)"
| open_pinned: "0 < p a \<Longrightarrow> w_shares w a = Some sh \<Longrightarrow> fm_open_from_share_and_register w a mode = Some (w', r) \<Longrightarrow>
    reg_step (w, p) (w', case r of None \<Rightarrow> p | Some i \<Rightarrow> p(a := p a - 1))"
| open_internal: "w_shares w a = Some sh \<Longrightarrow> fs_internal sh \<Longrightarrow> fm_open_from_share w a mode = Some (w', r) \<Longrightarrow>
    reg_step (w, p) (w', p)"
| close: "w_infos w i = Some info \<Longrightarrow> fm_close w i = Some w' \<Longrightarrow> reg_step (w, p) (w', p)"
| release: "0 < p a \<Longrightarrow> w_shares w a = Some sh \<Longrightarrow> fm_release_share w a False = Some w' \<Longrightarrow>
    reg_step (w, p) (w', p(a := p a - 1))"
| release_internal: "w_shares w a = Some sh \<Longrightarrow> fs_internal sh \<Longrightarrow> fs_open_count sh = 0 \<Longrightarrow>
    fm_release_share w a True = Some w' \<Longrightarrow> reg_step (w, p) (w', p)"
| delete_table: "fm_delete_table w name = Some (w', e) \<Longrightarrow> reg_step (w, p) (w', p)"
| drop_table: "w_infos w i = Some info \<Longrightarrow> fm_drop_table w i = Some w' \<Longrightarrow> reg_step (w, p) (w', p)"
| rename: "fm_rename w old_name new_name = Some (w', e) \<Longrightarrow> reg_step (w, p) (w', p)"
| wire: "w_shares w a = Some sh \<Longrightarrow> fm_key_ops_init E (fs_keydef sh) (fs_core sh) = Some c \<Longrightarrow>
    reg_step (w, p) (upd_share w a (sh\<lparr> fs_core := c \<rparr>), p)"
| row_call: "w_shares w a = Some sh \<Longrightarrow> balanced (fs_core sh) \<Longrightarrow> table_step (fs_core sh) c \<Longrightarrow>
    reg_step (w, p) (upd_share w a (sh\<lparr> fs_core := c \<rparr>), p)"

definition empty_world :: "(nat \<Rightarrow> bool) \<Rightarrow> (addr \<Rightarrow> nat \<Rightarrow> nat \<Rightarrow> bool) \<Rightarrow> bool \<Rightarrow> fm_world" where
  "empty_world alloc core_alloc dbug = \<lparr> w_shares = Map.empty, w_infos = Map.empty, w_list = [], w_mutex = False,
     w_next = 0, w_alloc = alloc, w_nalloc = 0, w_live = 0, w_core_alloc = core_alloc, w_lost = 0, w_dbug = dbug \<rparr>"

lemma empty_world_inv: "reg_inv (\<lambda>_. 0) 0 (empty_world alloc core_alloc dbug)"
  by (simp add: reg_inv_def reg_ok_def empty_world_def registered_def)

lemma upd_core_inv:
  assumes "reg_inv p k w" "w_shares w a = Some sh" "freeable c" "wirable (sh\<lparr> fs_core := c \<rparr>)"
  shows "reg_inv p k (upd_share w a (sh\<lparr> fs_core := c \<rparr>))"
proof -
  have ok: "reg_ok p k w" using assms(1) by (simp add: reg_inv_def)
  have "reg_ok p k (upd_share w a (sh\<lparr> fs_core := c \<rparr>))"
    by (rule upd_share_ok [OF ok assms(2)]) (use freeD [OF ok assms(2)] assms(3,4) in \<open>simp_all add: share_ok_def\<close>)
  then show ?thesis using assms(1) by (simp add: reg_inv_def upd_share_def)
qed

lemma open_share_inv:
  assumes inv: "reg_inv p k w" and sh: "w_shares w a = Some sh"
  obtains w' r where "fm_open_from_share w a mode = Some (w', r)" "reg_inv p k w'"
  using inv unfolding reg_inv_def fm_open_from_share_def
  by (elim conjE) (cases rule: open_locked_cases [OF _ sh, of p k mode]; simp)

lemma reg_step_inv:
  assumes "reg_step (w, p) (w', p')" "reg_inv p 0 w"
  shows "reg_inv p' 0 w'"
  using assms(1)
proof (cases rule: reg_step.cases)
  case (create ci now name r)
  then show ?thesis by (cases rule: fm_create_cases [OF assms(2) create(3), of now name False]) auto
next
  case (create_pinned ci now name r)
  then show ?thesis by (cases rule: fm_create_cases [OF assms(2) create_pinned(3), of now name True]) auto
next
  case (create_internal ci now name pin r)
  then show ?thesis by (cases rule: fm_create_cases [OF assms(2) create_internal(3), of now name pin]) auto
next
  case (open_name name mode r)
  then show ?thesis by (cases rule: fm_open_cases [OF assms(2), of name mode]) auto
next
  case (open_pinned a sh mode r)
  then show ?thesis by (cases rule: register_cases [OF assms(2) open_pinned(3,2), of mode]) auto
next
  case (open_internal a sh mode r)
  then show ?thesis by (cases rule: open_share_inv [OF assms(2) open_internal(2), of mode]) auto
next
  case (close i info)
  then obtain sh where sh: "w_shares w (in_s info) = Some sh"
    using reg_okD(7) [of p 0 w i info] assms(2) by (auto simp: reg_inv_def)
  show ?thesis by (cases rule: close_cases [OF assms(2) close(2) sh]) (use close assms in auto)
next
  case (release a sh)
  then show ?thesis by (cases rule: release_ok [OF assms(2) release(3), of False]) auto
next
  case (release_internal a sh)
  then show ?thesis
    by (cases rule: release_ok [OF assms(2) release_internal(2), of True])
      (use freeD(3) [of p 0 w a sh] assms(2) in \<open>auto simp: reg_inv_def fun_upd_idem\<close>)
next
  case (delete_table name e)
  then show ?thesis by (cases rule: delete_table_cases [OF assms(2), of name]) auto
next
  case (drop_table i info)
  then show ?thesis by (cases rule: drop_table_ok [OF assms(2) drop_table(2)]) auto
next
  case (rename old_name new_name e)
  then show ?thesis by (cases rule: rename_ok [OF assms(2), of old_name new_name]) auto
next
  case (wire a sh E c)
  have "freeable (fs_core sh)" "wirable sh" using freeD [of p 0 w a sh] assms(2) wire(3) by (simp_all add: reg_inv_def)
  then show ?thesis using upd_core_inv [OF assms(2) wire(3) wire_share [OF wire(4)]] wire(1,2) by simp
next
  case (row_call a sh c)
  have "wirable sh" using freeD [of p 0 w a sh] assms(2) row_call(3) by (simp add: reg_inv_def)
  then have "wirable (sh\<lparr> fs_core := c \<rparr>)" using balanced_step_keys [OF row_call(4,5)] by (simp add: wirable_def)
  then show ?thesis
    using upd_core_inv [OF assms(2) row_call(3) balanced_freeable [OF balanced_step [OF row_call(4,5)]]] row_call(1,2) by simp
qed

interpretation registry: machine reg_step "\<lambda>(w, p). reg_inv p 0 w"
  by unfold_locales (auto intro: reg_step_inv)

lemma reg_run_inv: "reg_step\<^sup>*\<^sup>* (empty_world alloc core_alloc dbug, \<lambda>_. 0) (w, p) \<Longrightarrow> reg_inv p 0 w"
  using registry.reach_good empty_world_inv by fastforce

section \<open>The length of packed keys\<close>

lemma text_len_le: "text_len seg buf pos \<le> seg_length seg"
  by (simp add: text_len_def Let_def)

lemma pack_seg_fits:
  assumes "is_bit s \<longrightarrow> seg_length s \<noteq> 0"
  shows "length (make_key_seg E rec (fst (pack_seg s))) \<le> snd (pack_seg s)"
proof -
  have l: "text_len s rec (seg_start s) \<le> seg_length s" by (rule text_len_le)
  have u: "text_len (s\<lparr> seg_type := ty, seg_bit_start := b \<rparr>) rec p = text_len s rec p"
    "text_len (s\<lparr> seg_bit_start := b \<rparr>) rec p = text_len s rec p" for ty b p
    by (simp_all add: text_len_def Let_def)
  show ?thesis
    using l assms by (cases "seg_type s") (auto simp: pack_seg_def make_key_seg_def is_bit_def u Let_def)
qed

lemma pack_key_fits:
  assumes "\<forall>s \<in> set (kd_seg kd). is_bit s \<longrightarrow> seg_length s \<noteq> 0"
  shows "length (fm_make_key E (pack_key kd) rec) \<le> kd_length (pack_key kd)"
proof -
  have "length (concat (map (make_key_seg E rec) (map (fst \<circ> pack_seg) ss))) \<le> sum_list (map (snd \<circ> pack_seg) ss)"
    if "\<forall>s \<in> set ss. is_bit s \<longrightarrow> seg_length s \<noteq> 0" for ss
    using that by (induction ss) (auto intro: add_mono pack_seg_fits)
  from this [OF assms] show ?thesis by (simp add: fm_make_key_def pack_key_def)
qed

lemma max_loop_bound:
  "\<forall>kd \<in> set kds. kd_length kd \<le> fold (\<lambda>kd m. if kd_length kd > m then kd_length kd else m) kds m0"
  "m0 \<le> fold (\<lambda>kd m. if kd_length kd > m then kd_length kd else m) kds m0"
proof (induction kds arbitrary: m0)
  case (Cons kd kds)
  case 1
  show ?case using Cons [of "max m0 (kd_length kd)"] by (auto simp: max_def split: if_splits)
next
  case (Cons kd kds)
  case 2
  show ?case using Cons(2) [of "max m0 (kd_length kd)"] by (auto simp: max_def split: if_splits)
qed simp_all

section \<open>A concrete run\<close>

definition ex_ci :: FM_CREATE_INFO where
  "ex_ci = \<lparr> ci_keydef = [ex_keydef], ci_reclength = 1, ci_max_key_length = 1, ci_max_records = 3,
     ci_max_table_size = 200, ci_auto_increment = 0, ci_auto_key = 0, ci_auto_key_type = 0,
     ci_with_auto_increment = False, ci_internal_table = False, ci_pin_share = False \<rparr>"

text \<open>An engine with enough memory, after the table \<open>t\<close> has been created, and after it has been opened
  as well.\<close>

abbreviation ex_world :: fm_world where
  "ex_world \<equiv> empty_world (\<lambda>_. True) (\<lambda>_ _ _. True) False"

definition ex_share :: FM_SHARE where
  "ex_share = new_share 0 ex_ci (\<lambda>_ _. True) 1024 ''t''"

definition ex_created :: fm_world where
  "ex_created = ex_world\<lparr> w_nalloc := 2, w_live := 2, w_next := 1, w_list := [0], w_shares := [0 \<mapsto> ex_share] \<rparr>"

lemma bucket_ex: "bucket_loop 0 1024 = Some 1024"
  by (simp add: bucket_loop.simps [of 0 1024])

lemma ex_share_fields:
  "fs_name ex_share = ''t''" "fs_open_count ex_share = 0" "\<not> fs_internal ex_share" "fs_open_list ex_share = []"
  "\<not> fs_delete_on_close ex_share" "sc_chunks (fs_core ex_share) \<noteq> None"
  using new_share_freeable(2) [of "\<lambda>_ _. True" ex_ci 0 1024 "''t''"]
  by (simp_all add: ex_share_def new_share_def ex_ci_def Let_def serves_def)

lemma ex_create_run: "fm_create 0 ex_world ''t'' ex_ci False = Some (ex_created, Some (0, True))"
proof -
  have "create_share 0 (ex_world\<lparr> w_mutex := True \<rparr>) ''t'' ex_ci = Some (ex_created\<lparr> w_mutex := True \<rparr>, Some 0)"
    using ex_share_fields(6)
    by (auto simp: create_share_def bucket_ex my_malloc_def empty_world_def ex_created_def ex_share_def [symmetric]
        upd_share_def fm_share_list_add_def ex_ci_def [THEN arg_cong, of ci_max_records]
        ex_ci_def [THEN arg_cong, of ci_internal_table] Let_def)
  then show ?thesis
    by (simp add: fm_create_def registry_lock_def create_lookup_def fm_find_named_share_def create_pin_def
        registry_unlock_def ex_created_def empty_world_def ex_ci_def)
qed


lemma ex_serves: "serves (w_core_alloc ex_world (w_next ex_world)) (2 + 2 * length (ci_keydef ex_ci))"
  by (simp add: serves_def empty_world_def)

lemma ex_created_reach: "reg_step\<^sup>*\<^sup>* (ex_world, \<lambda>_. 0) (ex_created, \<lambda>_. 0)"
  by (rule r_into_rtranclp, rule reg_step.create [OF _ ex_serves ex_create_run]) (simp add: ex_ci_def)

definition ex_opened :: fm_world where
  "ex_opened = ex_created\<lparr> w_nalloc := 3, w_live := 3, w_next := 2,
     w_shares := [0 \<mapsto> ex_share\<lparr> fs_open_count := 1, fs_open_list := [1] \<rparr>],
     w_infos := [1 \<mapsto> (new_info False 0 ex_share 0)\<lparr> in_open_listed := True \<rparr>] \<rparr>"

lemma ex_open_run: "fm_open ex_created ''t'' 0 = Some (ex_opened, Inr 1)"
  using ex_share_fields
  by (simp add: fm_open_def registry_lock_def registry_unlock_def fm_find_named_share_def ex_created_def empty_world_def
      fm_open_from_share_locked_def my_malloc_def upd_share_def upd_info_def list_info_def ex_opened_def new_info_def Let_def)

lemma ex_opened_reach: "reg_step\<^sup>*\<^sup>* (ex_world, \<lambda>_. 0) (ex_opened, \<lambda>_. 0)"
  by (rule rtranclp.rtrancl_into_rtrancl [OF ex_created_reach reg_step.open_name [OF ex_open_run]])

lemma find_named_frame [simp]:
  "fm_find_named_share (w\<lparr> w_mutex := b \<rparr>) name = fm_find_named_share w name"
proof -
  have "find_share_loop (w\<lparr> w_mutex := b \<rparr>) name as = find_share_loop w name as" for as
    by (induction as) (simp_all cong: if_cong)
  then show ?thesis by (simp add: fm_find_named_share_def)
qed

lemma find_named_upd:
  assumes "w_shares w a = Some sh" "fs_name sh' = fs_name sh"
  shows "fm_find_named_share (upd_share w a sh') name = fm_find_named_share w name"
proof -
  have "find_share_loop (upd_share w a sh') name as = find_share_loop w name as" for as
  proof (induction as)
    case (Cons b as)
    then show ?case using assms by (cases "b = a") (simp_all add: upd_share_def cong: if_cong)
  qed simp
  then show ?thesis by (simp add: fm_find_named_share_def upd_share_def)
qed

section \<open>Properties\<close>

text \<open>The books of the registry. Whatever tables were created, opened, closed, dropped, renamed and
  worked on, and whichever allocations failed: every block outside of the cores belongs to a share or to a
  handle, no block of a freed core was lost, the list holds the shares that are not internal, every share
  counts its handles and pins, and no handle points to a freed share.\<close>

theorem registry_books:
  assumes "reg_step\<^sup>*\<^sup>* (empty_world alloc core_alloc dbug, \<lambda>_. 0) (w, p)"
  shows "w_lost w = 0 \<and> w_live w = 2 * int (card (dom (w_shares w))) + int (card (dom (w_infos w))) \<and>
    \<not> w_mutex w \<and> distinct (w_list w) \<and> set (w_list w) = registered w \<and>
    (\<forall>a sh. w_shares w a = Some sh \<longrightarrow>
       fs_open_count sh = card (handles w a) + p a \<and> set (fs_open_list sh) = listed w a \<and> freeable (fs_core sh)) \<and>
    (\<forall>i info. w_infos w i = Some info \<longrightarrow> w_shares w (in_s info) \<noteq> None)"
  using reg_run_inv [OF assms] unfolding reg_inv_def reg_ok_def share_ok_def by simp

theorem registry_books_witness: "w_lost ex_opened = 0 \<and> w_live ex_opened = 3 \<and> handles ex_opened 0 = {1}"
  using registry_books [OF ex_opened_reach] by (auto simp: ex_opened_def handles_def new_info_def)

text \<open>No call of the registry deadlocks or touches freed memory: on live handles, every call returns. For
  \<^verbatim>\<open>fm_create\<close> the allocator has to serve the initialisation of the core.\<close>

theorem registry_calls_return:
  assumes "reg_step\<^sup>*\<^sup>* (empty_world alloc core_alloc dbug, \<lambda>_. 0) (w, p)"
  shows "(\<exists>r. fm_open w name mode = Some r) \<and> (\<exists>r. fm_delete_table w name = Some r) \<and>
    (\<exists>r. fm_rename w name new_name = Some r) \<and>
    (\<forall>i \<in> dom (w_infos w). (\<exists>r. fm_close w i = Some r) \<and> (\<exists>r. fm_drop_table w i = Some r)) \<and>
    (\<forall>a. 0 < p a \<longrightarrow> (\<exists>r. fm_open_from_share_and_register w a mode = Some r) \<and> (\<exists>r. fm_release_share w a False = Some r)) \<and>
    (\<not> ci_internal_table ci \<and> serves (w_core_alloc w (w_next w)) (2 + 2 * length (ci_keydef ci)) \<longrightarrow>
       (\<exists>r. fm_create now w name ci pin = Some r))"
proof -
  have inv: "reg_inv p 0 w" by (rule reg_run_inv [OF assms])
  then have ok: "reg_ok p 0 w" by (simp add: reg_inv_def)
  have "\<exists>r. fm_open w name mode = Some r" by (cases rule: fm_open_cases [OF inv, of name mode]) auto
  moreover have "\<exists>r. fm_delete_table w name = Some r" by (cases rule: delete_table_cases [OF inv, of name]) auto
  moreover have "\<exists>r. fm_rename w name new_name = Some r" by (cases rule: rename_ok [OF inv, of name new_name]) auto
  moreover have "(\<exists>r. fm_close w i = Some r) \<and> (\<exists>r. fm_drop_table w i = Some r)" if "i \<in> dom (w_infos w)" for i
  proof -
    from that obtain info sh where i: "w_infos w i = Some info" "w_shares w (in_s info) = Some sh"
      using reg_okD(7) [OF ok] by fastforce
    show ?thesis by (cases rule: close_cases [OF inv i]; cases rule: drop_table_ok [OF inv i(1)]) auto
  qed
  moreover have "(\<exists>r. fm_open_from_share_and_register w a mode = Some r) \<and> (\<exists>r. fm_release_share w a False = Some r)"
    if "0 < p a" for a
  proof -
    from that obtain sh where sh: "w_shares w a = Some sh" using reg_okD(9) [OF ok, of a] by fastforce
    show ?thesis
      by (cases rule: register_cases [OF inv sh that, of mode]; cases rule: release_ok [OF inv sh, of False]) (use that in auto)
  qed
  moreover have "\<exists>r. fm_create now w name ci pin = Some r"
    if "\<not> ci_internal_table ci" "serves (w_core_alloc w (w_next w)) (2 + 2 * length (ci_keydef ci))"
    using that by (cases rule: fm_create_cases [OF inv that(2), of now name pin]) auto
  ultimately show ?thesis by blast
qed

theorem registry_calls_return_witness: "(\<exists>r. fm_open ex_opened ''t'' 0 = Some r) \<and> (\<exists>r. fm_close ex_opened 1 = Some r)"
  using registry_calls_return [OF ex_opened_reach, of "''t''" 0] by (auto simp: ex_opened_def)

lemma ex_opened_named:
  "fm_find_named_share ex_opened ''t'' = Some (Some 0)"
  "w_infos ex_opened 1 = Some ((new_info False 0 ex_share 0)\<lparr> in_open_listed := True \<rparr>)"
  "w_shares ex_opened 0 = Some (ex_share\<lparr> fs_open_count := 1, fs_open_list := [1] \<rparr>)"
  by (simp_all add: fm_find_named_share_def ex_opened_def ex_created_def ex_share_fields)

text \<open>Closing the handles of a share one after the other.\<close>

definition close_all :: "addr list \<Rightarrow> fm_world \<Rightarrow> fm_world option" where
  "close_all = foldM (\<lambda>i w. fm_close w i)"

text \<open>Every close gives back the block of the handle, and the one that frees the share two more.\<close>

lemma close_live:
  assumes "reg_inv p k w" "reg_inv p k w'" "w_infos w i = Some info" "w_infos w' = (w_infos w)(i := None)"
  shows "dom (w_shares w') = dom (w_shares w) \<Longrightarrow> w_live w' = w_live w - 1"
    "w_shares w a = Some sh \<Longrightarrow> dom (w_shares w') = dom (w_shares w) - {a} \<Longrightarrow> w_live w' = w_live w - 3"
proof -
  have ok: "reg_ok p k w" "reg_ok p k w'" using assms(1,2) by (simp_all add: reg_inv_def)
  have "card (dom (w_infos w)) = Suc (card (dom (w_infos w) - {i}))"
    by (rule card.remove) (use reg_okD(2) [OF ok(1)] assms(3) in auto)
  then have i: "int (card (dom (w_infos w))) = int (card (dom (w_infos w'))) + 1" using assms(4) by simp
  show "dom (w_shares w') = dom (w_shares w) \<Longrightarrow> w_live w' = w_live w - 1"
    using reg_okD(10) [OF ok(1)] reg_okD(10) [OF ok(2)] i by simp
  assume a: "w_shares w a = Some sh" "dom (w_shares w') = dom (w_shares w) - {a}"
  have "card (dom (w_shares w)) = Suc (card (dom (w_shares w) - {a}))"
    by (rule card.remove) (use reg_okD(1) [OF ok(1)] a(1) in auto)
  with a(2) show "w_live w' = w_live w - 3" using reg_okD(10) [OF ok(1)] reg_okD(10) [OF ok(2)] i by simp
qed

text \<open>The share of a dropped table while some of its handles are open, and when none is.\<close>

definition dropped_open :: "fm_world \<Rightarrow> addr \<Rightarrow> FM_SHARE_CORE \<Rightarrow> nat \<Rightarrow> bool" where
  "dropped_open w a c n = (\<exists>sh. w_shares w a = Some sh \<and> fs_core sh = c \<and> fs_delete_on_close sh \<and> fs_open_count sh = n)"

lemma close_all_dropped:
  assumes "reg_inv p 0 w" "dropped_open w a c (length hs)" "set hs = handles w a" "distinct hs" "hs \<noteq> []"
  shows "(\<exists>z. close_all hs w = Some z \<and> w_shares z a = None \<and> w_live z = w_live w - 2 - int (length hs) \<and> w_lost z = 0) \<and>
    (\<forall>n < length hs. \<exists>v. close_all (take n hs) w = Some v \<and> dropped_open v a c (length hs - n))"
  using assms
proof (induction hs arbitrary: w)
  case (Cons i hs)
  obtain info where i: "w_infos w i = Some info" "in_s info = a" using Cons.prems(3) by (auto simp: handles_def)
  obtain sh where sh: "w_shares w a = Some sh" "fs_core sh = c" "fs_delete_on_close sh" "fs_open_count sh = Suc (length hs)"
    using Cons.prems(2) by (auto simp: dropped_open_def)
  have si: "w_shares w (in_s info) = Some sh" using sh(1) i(2) by simp
  show ?case
  proof (cases rule: close_cases [OF Cons.prems(1) i(1) si])
    case (1 w')
    then have "hs = []" using sh(4) by simp
    moreover have "dom (w_shares w') = dom (w_shares w) - {a}" using 1(6) i(2) by auto
    then have "w_live w' = w_live w - 3" by (rule close_live(2) [OF Cons.prems(1) 1(2) i(1) 1(5) sh(1)])
    moreover have "w_lost w' = 0" using 1(2) reg_okD(11) by (auto simp: reg_inv_def)
    ultimately show ?thesis using 1 i(2) Cons.prems(2) by (simp add: close_all_def)
  next
    case (2 w' sh')
    then have ne: "hs \<noteq> []" using sh(3,4) by auto
    have d: "dropped_open w' a c (length hs)" using 2 i(2) sh by (simp add: dropped_open_def)
    have h: "set hs = handles w' a" using Cons.prems(3,4) 2(4) by (auto simp: handles_def)
    have l: "w_live w' = w_live w - 1" by (rule close_live(1) [OF Cons.prems(1) 2(2) i(1) 2(4)]) (use 2(5) si in auto)
    note IH = Cons.IH [OF 2(2) d h _ ne]
    have run: "close_all (i # xs) w = close_all xs w'" for xs using 2(1) by (simp add: close_all_def)
    have "\<exists>v. close_all (take n (i # hs)) w = Some v \<and> dropped_open v a c (length (i # hs) - n)" if "n < length (i # hs)" for n
    proof (cases n)
      case 0
      then show ?thesis using Cons.prems(2) by (simp add: close_all_def)
    next
      case (Suc m)
      then show ?thesis using IH Cons.prems(4) that by (simp add: run)
    qed
    moreover have "\<exists>z. close_all (i # hs) w = Some z \<and> w_shares z a = None \<and> w_live z = w_live w - 2 - int (length (i # hs)) \<and> w_lost z = 0"
      using IH Cons.prems(4) l by (simp add: run algebra_simps)
    ultimately show ?thesis by blast
  qed
qed simp

text \<open>C35. Dropping a table that is open in any number of handles, with no create of it under way. The drop
  succeeds at once, and the handles and the rows stay as they are. The handles can then be closed in any
  order: as long as one is open, the share is there with its rows; the close of the last handle frees
  it. In the end the blocks of the handles, of the share and of its name and every block of the core are
  given back.\<close>

theorem drop_open_table:
  assumes "reg_step\<^sup>*\<^sup>* (empty_world alloc core_alloc dbug, \<lambda>_. 0) (w, p)"
    and "w_shares w a = Some sh" "p a = 0" "fm_find_named_share w name = Some (Some a)"
    and "set hs = handles w a" "distinct hs" "hs \<noteq> []"
  shows "\<exists>w1. fm_delete_table w name = Some (w1, HA_OK) \<and> w_infos w1 = w_infos w \<and>
    (\<forall>n < length hs. \<exists>v sh'. close_all (take n hs) w1 = Some v \<and> w_shares v a = Some sh' \<and>
       fs_core sh' = fs_core sh \<and> fs_delete_on_close sh' \<and> fs_open_count sh' = length hs - n) \<and>
    (\<exists>z. close_all hs w1 = Some z \<and> w_shares z a = None \<and> w_live z = w_live w - 2 - int (length hs) \<and> w_lost z = 0)"
proof -
  have inv: "reg_inv p 0 w" by (rule reg_run_inv [OF assms(1)])
  then have ok: "reg_ok p 0 w" and nm: "\<not> w_mutex w" by (simp_all add: reg_inv_def)
  let ?s = "sh\<lparr> fs_delete_on_close := True \<rparr>" and ?w = "upd_share w a (sh\<lparr> fs_delete_on_close := True \<rparr>)"
  have "reg_ok p 0 ?w"
    by (rule upd_share_ok [OF ok assms(2)]) (use freeD [OF ok assms(2)] in \<open>simp_all add: share_ok_def\<close>)
  then have inv1: "reg_inv p 0 ?w" using nm by (simp add: reg_inv_def upd_share_def)
  have c: "fs_open_count sh = length hs"
    using freeD(3) [OF ok assms(2)] assms(3,5) distinct_card [OF assms(6)] by simp
  have run: "fm_delete_table w name = Some (?w, HA_OK)"
    using assms(2,4,7) nm c
    by (simp add: fm_delete_table_def registry_lock_def fm_try_free_def registry_unlock_def upd_share_def)
  have d: "dropped_open ?w a (fs_core sh) (length hs)" using c by (simp add: dropped_open_def upd_share_def)
  have h: "set hs = handles ?w a" using assms(5) by (simp add: handles_def upd_share_def)
  have "w_live ?w = w_live w" "w_infos ?w = w_infos w" by (simp_all add: upd_share_def)
  then show ?thesis
    using run close_all_dropped [OF inv1 d h assms(6,7)] unfolding dropped_open_def by (intro exI [of _ ?w]) auto
qed

text \<open>The same table opened a second time.\<close>

definition ex_twice :: fm_world where
  "ex_twice = ex_opened\<lparr> w_nalloc := 4, w_live := 4, w_next := 3,
     w_shares := [0 \<mapsto> ex_share\<lparr> fs_open_count := 2, fs_open_list := [2, 1] \<rparr>],
     w_infos := (w_infos ex_opened)(2 \<mapsto> (new_info False 0 ex_share 0)\<lparr> in_open_listed := True \<rparr>) \<rparr>"

lemma ex_twice_run: "fm_open ex_opened ''t'' 0 = Some (ex_twice, Inr 2)"
  using ex_share_fields
  by (simp add: fm_open_def registry_lock_def registry_unlock_def fm_find_named_share_def ex_created_def empty_world_def
      fm_open_from_share_locked_def my_malloc_def upd_share_def upd_info_def list_info_def ex_opened_def ex_twice_def new_info_def Let_def
      numeral_2_eq_2 [symmetric])

lemma ex_twice_reach: "reg_step\<^sup>*\<^sup>* (ex_world, \<lambda>_. 0) (ex_twice, \<lambda>_. 0)"
  by (rule rtranclp.rtrancl_into_rtrancl [OF ex_opened_reach reg_step.open_name [OF ex_twice_run]])

theorem drop_open_table_witness:
  "\<exists>w1 v z. fm_delete_table ex_twice ''t'' = Some (w1, HA_OK) \<and> close_all [2] w1 = Some v \<and> w_shares v 0 \<noteq> None \<and>
     close_all [2, 1] w1 = Some z \<and> w_shares z 0 = None \<and> w_live z = 0"
proof -
  have sh: "w_shares ex_twice 0 = Some (ex_share\<lparr> fs_open_count := 2, fs_open_list := [2, 1] \<rparr>)"
    "fm_find_named_share ex_twice ''t'' = Some (Some 0)" "w_live ex_twice = 4"
    by (simp_all add: fm_find_named_share_def ex_twice_def ex_opened_def ex_created_def ex_share_fields)
  have h: "set [2, 1] = handles ex_twice 0"
    by (auto simp: handles_def ex_twice_def ex_opened_def new_info_def split: if_splits)
  obtain w1 where w1: "fm_delete_table ex_twice ''t'' = Some (w1, HA_OK)"
    "\<forall>n < length [2, 1 :: addr]. \<exists>v sh'. close_all (take n [2, 1]) w1 = Some v \<and> w_shares v 0 = Some sh' \<and>
       fs_core sh' = fs_core (ex_share\<lparr> fs_open_count := 2, fs_open_list := [2, 1] \<rparr>) \<and> fs_delete_on_close sh' \<and>
       fs_open_count sh' = length [2, 1 :: addr] - n"
    "\<exists>z. close_all [2, 1] w1 = Some z \<and> w_shares z 0 = None \<and>
       w_live z = w_live ex_twice - 2 - int (length [2, 1 :: addr]) \<and> w_lost z = 0"
    using drop_open_table [OF ex_twice_reach sh(1) _ sh(2) h] by auto
  from w1(2) [rule_format, of 1] obtain v where "close_all [2] w1 = Some v" "w_shares v 0 \<noteq> None" by auto
  with w1(1,3) sh(3) show ?thesis by auto
qed

text \<open>C40. A dropped table that is still open keeps its name. Creating a table of that name then yields the dropped
  share with its old rows and its old schema, whatever was asked for, and it still goes away with the last
  close.\<close>

theorem create_reuses_dropped:
  assumes "reg_step\<^sup>*\<^sup>* (empty_world alloc core_alloc dbug, \<lambda>_. 0) (w, p)"
    and "w_shares w a = Some sh" "fs_open_count sh \<noteq> 0" "fm_find_named_share w name = Some (Some a)"
    and "\<not> ci_internal_table ci"
  shows "\<exists>w1 w2 sh2. fm_delete_table w name = Some (w1, HA_OK) \<and> fm_create now w1 name ci False = Some (w2, Some (a, False)) \<and>
    w_shares w2 a = Some sh2 \<and> fs_core sh2 = fs_core sh \<and> fs_keydef sh2 = fs_keydef sh \<and> fs_delete_on_close sh2"
proof -
  have nm: "\<not> w_mutex w" using reg_run_inv [OF assms(1)] by (simp add: reg_inv_def)
  let ?s = "sh\<lparr> fs_delete_on_close := True \<rparr>" and ?w = "upd_share w a (sh\<lparr> fs_delete_on_close := True \<rparr>)"
  have "fm_delete_table w name = Some (?w, HA_OK)"
    using assms(2-4) nm
    by (simp add: fm_delete_table_def registry_lock_def fm_try_free_def registry_unlock_def upd_share_def)
  moreover have "fm_find_named_share ?w name = Some (Some a)" using assms(2,4) by (simp add: find_named_upd)
  then have "fm_create now ?w name ci False = Some (?w, Some (a, False))"
    using assms(3,5) nm
    by (simp add: fm_create_def create_lookup_def create_pin_def registry_lock_def registry_unlock_def upd_share_def)
  ultimately show ?thesis by (intro exI [of _ ?w] exI [of _ ?s]) (simp add: upd_share_def)
qed

theorem create_reuses_dropped_witness:
  "\<exists>w1 w2. fm_delete_table ex_opened ''t'' = Some (w1, HA_OK) \<and>
     fm_create 0 w1 ''t'' (ex_ci\<lparr> ci_keydef := [] \<rparr>) False = Some (w2, Some (0, False))"
  using create_reuses_dropped [OF ex_opened_reach ex_opened_named(3) _ ex_opened_named(1), of "ex_ci\<lparr> ci_keydef := [] \<rparr>" 0]
  by (auto simp: ex_ci_def)

text \<open>When the core of a new share does not even get its chunk table, the error path of \<^verbatim>\<open>fm_create\<close> frees the
  core and reads the key array that was never allocated.\<close>

theorem create_failure_crashes:
  "fm_create 0 (empty_world (\<lambda>_. True) (\<lambda>_ _ _. False) False) ''t'' ex_ci False = None"
  by (simp add: fm_create_def create_lookup_def fm_find_named_share_def empty_world_def registry_lock_def create_share_def
      bucket_ex my_malloc_def new_share_def fm_core_init_share_def ops_alloc_def zero_share_def fm_core_free_share_def
      free_key_def get_key_def ex_ci_def Let_def)

text \<open>C39. The number of buckets: the loop ends, with a power of two between \<open>2 ^ 10\<close> and \<open>2 ^ 20\<close> that is at least
  a quarter of the rows unless the cap is reached, and less than half of the rows unless it is the minimum.\<close>

theorem bucket_count:
  "\<exists>e. bucket_loop (rows_max div 4) 1024 = Some (2 ^ e) \<and> 10 \<le> e \<and> e \<le> 20 \<and>
     (rows_max div 4 \<le> 2 ^ e \<or> e = 20) \<and> (e = 10 \<or> 2 * 2 ^ e \<le> rows_max)"
proof -
  obtain e where "bucket_loop (rows_max div 4) (2 ^ 10) = Some (2 ^ e)" "10 \<le> e" "e \<le> 20"
    "rows_max div 4 \<le> 2 ^ e \<or> e = 20" "e = 10 \<or> 2 ^ e < 2 * (rows_max div 4)"
    using bucket_loop_power [of 10 "rows_max div 4"] by auto
  then show ?thesis by (intro exI [of _ e]) auto
qed


text \<open>C37. Buffers of packed keys. Of a table that the engine accepts, every key packs into its length, and the length
  fits the buffer of a handle, which has the longest key as its size. A BIT column has at least one byte.\<close>

theorem key_fits_lastkey:
  assumes "fm_prepare_create_info bin kn heap_size w t internal = Some (w', Inr ci)"
    and "\<forall>pos \<in> set (tb_key_info t). \<forall>part \<in> set (ky_parts pos).
      fld_key_type (kp_field part) = HA_KEYTYPE_BIT \<longrightarrow> kp_length part \<noteq> 0"
  shows "length (ci_keydef ci) = length (tb_key_info t) \<and>
    (\<forall>kd \<in> set (ci_keydef ci). kd_length kd \<le> ci_max_key_length ci \<and>
       (\<forall>E rec. length (fm_make_key E kd rec) \<le> kd_length kd))"
proof -
  define kds where "kds = (let keydef = map (prepare_key bin) (tb_key_info t); n = tb_next_number_index t
     in if tb_found_next_number_field t
        then keydef[n := (keydef ! n)\<lparr> kd_flag := insert HA_AUTO_KEY (kd_flag (keydef ! n)) \<rparr>] else keydef)"
  have ci: "ci_keydef ci = map pack_key kds" "length kds = length (tb_key_info t)"
    "ci_max_key_length ci = fold (\<lambda>kd m. if kd_length kd > m then kd_length kd else m) (ci_keydef ci) 0"
    "tb_found_next_number_field t \<longrightarrow> tb_next_number_index t < length (tb_key_info t)"
    using assms(1) by (auto simp: fm_prepare_create_info_def kds_def Let_def split: prod.splits if_splits)
  have segs: "\<exists>pos \<in> set (tb_key_info t). kd_seg kd = map (prepare_seg bin) (ky_parts pos)" if "kd \<in> set kds" for kd
  proof -
    from that obtain j where j: "j < length kds" "kd = kds ! j" by (auto simp: in_set_conv_nth)
    then have "kd_seg kd = map (prepare_seg bin) (ky_parts (tb_key_info t ! j))"
      using ci(2,4) by (auto simp: kds_def Let_def prepare_key_def nth_list_update split: if_splits)
    then show ?thesis using j ci(2) by auto
  qed
  have bit: "seg_length (prepare_seg bin part) \<noteq> 0"
    if "is_bit (prepare_seg bin part)" "fld_key_type (kp_field part) = HA_KEYTYPE_BIT \<longrightarrow> kp_length part \<noteq> 0" for part
    using that by (auto simp: prepare_seg_def is_bit_def Let_def split: if_splits prod.splits)
  have "length (fm_make_key E (pack_key kd) rec) \<le> kd_length (pack_key kd)" if "kd \<in> set kds" for kd E rec
    by (rule pack_key_fits) (use segs [OF that] assms(2) bit in fastforce)
  then show ?thesis
    using ci max_loop_bound(1) [of "ci_keydef ci" 0] by auto
qed

definition ex_table :: TABLE where
  "ex_table = \<lparr> tb_key_info = [\<lparr> ky_parts = [\<lparr> kp_field = \<lparr> fld_key_type = HA_KEYTYPE_VARTEXT1, fld_enum_set = False,
       fld_charset = ex_charset, fld_null = Some (1, 0), fld_auto_increment = False, fld_bit = (0, 0, 0) \<rparr>,
       kp_offset = 1, kp_length = 10 \<rparr>], ky_algorithm = HA_KEY_ALG_UNDEF, ky_flags = {HA_NOSAME} \<rparr>],
     tb_total_keys = 1, tb_reclength = 12, tb_max_rows = 0, tb_found_next_number_field = False,
     tb_next_number_index = 0, tb_next_number_key_offset = 0 \<rparr>"

theorem key_fits_lastkey_witness:
  "\<exists>w ci. fm_prepare_create_info ex_charset (\<lambda>_. 0) 1000 ex_world ex_table False = Some (w, Inr ci) \<and>
     ci_max_key_length ci = 13 \<and> (\<forall>kd \<in> set (ci_keydef ci). \<forall>E rec. length (fm_make_key E kd rec) \<le> 13)"
proof -
  obtain w ci where p: "fm_prepare_create_info ex_charset (\<lambda>_. 0) 1000 ex_world ex_table False = Some (w, Inr ci)"
    and m: "ci_max_key_length ci = 13"
    by (simp add: fm_prepare_create_info_def ex_table_def my_malloc_def empty_world_def algorithm_ok_def prepare_key_def
        prepare_seg_def prepare_auto_key_def pack_key_def pack_seg_def Let_def)
  have "\<forall>pos \<in> set (tb_key_info ex_table). \<forall>part \<in> set (ky_parts pos).
      fld_key_type (kp_field part) = HA_KEYTYPE_BIT \<longrightarrow> kp_length part \<noteq> 0" by (simp add: ex_table_def)
  from key_fits_lastkey [OF p this] m show ?thesis using p by (metis order_trans)
qed

end
