(* ===== verification/FM_Tables.thy ===== *)
theory FM_Tables
  imports FM_Handler FM_Registry_Runs
begin

text \<open>
  The handler and the registry together: any number of handlers that create, open, clone, close, drop and rename
  tables, with row operations in between. \<^verbatim>\<open>open\<close> combines the preparation of the description, \<^verbatim>\<open>fm_create\<close> with a
  pinned share, and the open that turns the pin into a handle; between two calls of handlers no pin and no
  description is left.
\<close>

section \<open>Opening a table\<close>

text \<open>A table the engine accepts: no BTREE key, and the auto-increment column has its index.\<close>

definition table_ok :: "bool \<Rightarrow> TABLE \<Rightarrow> bool" where
  "table_ok dbug t = ((\<forall>pos \<in> set (tb_key_info t). algorithm_ok dbug pos) \<and>
     (tb_found_next_number_field t \<longrightarrow> tb_next_number_index t < length (tb_key_info t)))"

text \<open>The allocator of the next core serves its set-up.\<close>

definition core_served :: "fm_world \<Rightarrow> TABLE \<Rightarrow> bool" where
  "core_served w t = serves (w_core_alloc w (w_next w)) (2 + 2 * length (tb_key_info t))"

lemma prepare_cases:
  assumes inv: "reg_inv p k w" and t: "table_ok (w_dbug w) t"
  obtains (refused) w' e where "fm_prepare_create_info bin kn hs w t internal = Some (w', Inl e)" "reg_inv p k w'"
      "w_shares w' = w_shares w" "w_infos w' = w_infos w"
  | (prepared) w' ci where "fm_prepare_create_info bin kn hs w t internal = Some (w', Inr ci)" "reg_inv p (k + 1) w'"
      "w_shares w' = w_shares w" "w_infos w' = w_infos w" "length (ci_keydef ci) = length (tb_key_info t)"
      "ci_internal_table ci = internal" "w_core_alloc w' = w_core_alloc w" "w_next w' = w_next w"
proof (cases "tb_total_keys t > length (tb_key_info t)")
  case True
  then show thesis using inv by (intro refused [of w HA_ERR_UNSUPPORTED]) (simp_all add: fm_prepare_create_info_def)
next
  case False
  have ok: "reg_ok p k w" "\<not> w_mutex w" using inv by (simp_all add: reg_inv_def)
  obtain w' got where m: "my_malloc w = (w', got)" by force
  note M = my_malloc_ok [OF ok(1) m]
  obtain ak at where a: "prepare_auto_key kn t = (ak, at)" by force
  show thesis
  proof (cases got)
    case False
    then show thesis
      using M ok \<open>\<not> tb_total_keys t > _\<close> m by (intro refused [of w' ENOMEM]) (simp_all add: fm_prepare_create_info_def reg_inv_def)
  next
    case True
    obtain ci where ci: "fm_prepare_create_info bin kn hs w t internal = Some (w', Inr ci)"
      "length (ci_keydef ci) = length (tb_key_info t)" "ci_internal_table ci = internal"
      using True t M(8) m a \<open>\<not> tb_total_keys t > _\<close>
      by (fastforce simp: fm_prepare_create_info_def table_ok_def Let_def)
    show thesis by (rule prepared [OF ci(1)]) (use M ok True ci in \<open>simp_all add: reg_inv_def\<close>)
  qed
qed

lemma my_free_inv: "reg_inv p (k + 1) w \<Longrightarrow> reg_inv p k (my_free w)"
  using my_free_ok [of p "k + 1" w] by (simp add: reg_inv_def) (simp add: my_free_def)

lemma my_free_frame [simp]: "w_shares (my_free w) = w_shares w" "w_infos (my_free w) = w_infos w"
  by (simp_all add: my_free_def)

text \<open>\<^verbatim>\<open>fm_open_from_share\<close>, or the variant that takes the pin, as \<^verbatim>\<open>open\<close> calls them.\<close>

lemma open_made_cases:
  assumes inv: "reg_inv q 0 w" and sh: "w_shares w a = Some sh" "fs_internal sh = internal"
    and q: "q = (if internal then p else p(a := p a + 1))" "internal \<longrightarrow> fs_open_count sh = 0"
  obtains (failed) w' w'' where
      "(if internal then fm_open_from_share w a mode else fm_open_from_share_and_register w a mode) = Some (w', None)"
      "fm_release_share w' a internal = Some w''" "reg_inv p 0 w''" "w_infos w'' = w_infos w"
  | (opened) w' i info sh' where
      "(if internal then fm_open_from_share w a mode else fm_open_from_share_and_register w a mode) = Some (w', Some i)"
      "reg_inv p 0 w'" "w_infos w i = None" "w_infos w' = (w_infos w)(i \<mapsto> info)" "in_s info = a"
      "w_shares w' a = Some sh'" "fs_name sh' = fs_name sh"
proof -
  have pa: "p a = 0" if internal using freeD(3) [of q 0 w a sh] inv sh q that by (simp add: reg_inv_def)
  have undo: thesis if f: "(if internal then fm_open_from_share w a mode else fm_open_from_share_and_register w a mode) = Some (w', None)"
    and w': "reg_inv q 0 w'" "w_shares w' = w_shares w" "w_infos w' = w_infos w" for w'
  proof -
    have ref: "if internal then fs_open_count sh = 0 else 0 < q a" using q by simp
    obtain w'' where r: "fm_release_share w' a internal = Some w''" "reg_inv (q(a := if internal then 0 else q a - 1)) 0 w''" "w_infos w'' = w_infos w'"
      by (rule release_ok [OF w'(1) _ ref]) (use w'(2) sh in auto)
    moreover have "q(a := if internal then 0 else q a - 1) = p" using q(1) pa by auto
    ultimately show thesis using failed [OF f r(1)] w'(3) by simp
  qed
  show thesis
  proof (cases internal)
    case True
    have ok: "reg_ok q 0 w" "\<not> w_mutex w" using inv by (simp_all add: reg_inv_def)
    show thesis
    proof (cases rule: open_locked_cases [OF ok(1) sh(1), where mode = mode])
      case (1 w')
      then show thesis using undo True ok by (simp add: fm_open_from_share_def reg_inv_def)
    next
      case (2 w' i)
      then show thesis using opened [of w' i "new_info (w_dbug w) a sh mode"] True ok q(1)
        by (simp add: fm_open_from_share_def reg_inv_def new_info_def)
    qed
  next
    case False
    then have pin: "0 < q a" using q(1) by simp
    show thesis
    proof (cases rule: register_cases [OF inv sh(1) pin, where mode = mode])
      case (1 w')
      then show thesis using undo False by simp
    next
      case (2 w' i)
      moreover have "q(a := q a - 1) = p" using q(1) False by auto
      ultimately show thesis
        using opened [of w' i "(new_info (w_dbug w) a sh mode)\<lparr> in_open_listed := True \<rparr>"] False by (simp add: new_info_def)
    qed
  qed
qed

text \<open>\<^verbatim>\<open>open\<close> of a table that has no share, or of an internal one.\<close>

lemma open_new_cases:
  assumes inv: "reg_inv p 0 w" and t: "table_ok (w_dbug w) t" "core_served w t"
  obtains (failed) w' h' where "open_new S w h t name mode = Some (w', h')" "reg_inv p 0 w'" "w_infos w' = w_infos w" "h_file h' = None"
  | (opened) w' h' i info sh where "open_new S w h t name mode = Some (w', h')" "reg_inv p 0 w'" "h_file h' = Some i"
      "w_infos w i = None" "w_infos w' = (w_infos w)(i \<mapsto> info)" "w_shares w' (in_s info) = Some sh" "fs_name sh = name"
proof (cases rule: prepare_cases [OF inv t(1), where bin = "sv_bin S" and kn = "sv_kn S" and hs = "sv_heap_size S"
      and internal = "h_internal_table h"])
  case (1 w1 e)
  then show thesis by (intro failed [of w1 "h\<lparr> h_file := None \<rparr>"]) (simp_all add: open_new_def Let_def)
next
  case (2 w1 ci)
  let ?ci = "ci\<lparr> ci_pin_share := True \<rparr>"
  have sv: "serves (w_core_alloc w1 (w_next w1)) (2 + 2 * length (ci_keydef ?ci))" using 2 t(2) by (simp add: core_served_def)
  have inv1: "reg_inv p 1 w1" using 2(2) by simp
  show thesis
  proof (cases rule: fm_create_cases [OF inv1 sv, where now = "sv_now S" and name = name and pin = True])
    case c: (1 w2)
    have "reg_inv p 0 (my_free w2)" by (rule my_free_inv) (use c in simp)
    then show thesis using 2 c by (intro failed [of "my_free w2" "h\<lparr> h_file := None \<rparr>"]) (simp_all add: open_new_def Let_def)
  next
    case c: (2 w2 a sh new)
    let ?h = "h\<lparr> h_file := None, h_internal_share := Some a, h_implicit_emptied := new \<rparr>"
    let ?q = "if ci_internal_table ci then p else p(a := p a + 1)"
    have q: "(if True \<and> \<not> ci_internal_table ?ci then p(a := p a + 1) else p) = ?q" by simp
    have free: "reg_inv ?q 0 (my_free w2)" by (rule my_free_inv) (use c(2) q in simp)
    have sh: "w_shares (my_free w2) a = Some sh" "fs_internal sh = h_internal_table h"
      "?q = (if h_internal_table h then p else p(a := p a + 1))" "h_internal_table h \<longrightarrow> fs_open_count sh = 0"
      using c 2 by simp_all
    show thesis
    proof (cases rule: open_made_cases [OF free sh, where mode = mode])
      case o: (1 w3 w4)
      then show thesis using 2 c by (intro failed [of w4 ?h]) (simp_all add: open_new_def Let_def)
    next
      case o: (2 w3 i info sh')
      then show thesis
        using 2 c by (intro opened [of w3 "?h\<lparr> h_file := Some i \<rparr>" i info sh']) (simp_all add: open_new_def Let_def)
    qed
  qed
qed

text \<open>The end of \<^verbatim>\<open>open\<close>: the keys of the share are connected.\<close>

lemma wire_ok:
  assumes inv: "reg_inv p 0 w" and i: "w_infos w i = Some info"
  obtains share core where "w_shares w (in_s info) = Some share" "fm_key_ops_init E (fs_keydef share) (fs_core share) = Some core"
    "reg_inv p 0 (upd_share w (in_s info) (share\<lparr> fs_core := core \<rparr>))"
proof -
  have ok: "reg_ok p 0 w" using inv by (simp add: reg_inv_def)
  obtain share where share: "w_shares w (in_s info) = Some share" using reg_okD(7) [OF ok i] by blast
  note F = freeD [OF ok share]
  obtain core where core: "fm_key_ops_init E (fs_keydef share) (fs_core share) = Some core"
    using F(7) by (auto simp: fm_key_ops_init_def wirable_def)
  show thesis
    by (rule that [OF share core upd_core_inv [OF inv share wire_share [OF core F(2,7)]]])
qed

lemma ha_open_cases:
  assumes inv: "reg_inv p 0 w" and t: "table_ok (w_dbug w) t" "core_served w t"
  obtains (failed) w' h' where "ha_open S w h t name mode internal = Some (w', h', 1)" "reg_inv p 0 w'" "w_infos w' = w_infos w"
      "h_file h' = None"
  | (opened) w' h' i info sh where "ha_open S w h t name mode internal = Some (w', h', 0)" "reg_inv p 0 w'" "h_file h' = Some i"
      "w_infos w i = None" "w_infos w' = (w_infos w)(i \<mapsto> info)" "w_shares w' (in_s info) = Some sh" "fs_name sh = name"
proof -
  let ?h = "h\<lparr> h_internal_table := internal \<rparr>"
  define m where "m = (if internal then open_new S w ?h t name mode
       else do {
         (w, r) \<leftarrow> fm_open w name mode;
         case r of
           Inr i \<Rightarrow> Some (w, ?h\<lparr> h_file := Some i \<rparr>)
         | Inl e \<Rightarrow> if e = ENOENT then open_new S w ?h t name mode else Some (w, ?h\<lparr> h_file := None \<rparr>) })"
  have unf: "ha_open S w h t name mode internal = do { (w, h) \<leftarrow> m;
     case h_file h of
       None \<Rightarrow> Some (w, h, 1)
     | Some i \<Rightarrow> do {
         info \<leftarrow> w_infos w i;
         share \<leftarrow> w_shares w (in_s info);
         core \<leftarrow> fm_key_ops_init (sv_env S) (fs_keydef share) (fs_core share);
         Some (upd_share w (in_s info) (share\<lparr> fs_core := core \<rparr>), h, 0) } }"
    by (simp add: ha_open_def m_def Let_def)
  have no: thesis if "m = Some (w', h')" "reg_inv p 0 w'" "w_infos w' = w_infos w" "h_file h' = None" for w' h'
    using failed [of w' h'] that by (simp add: unf)
  have yes: thesis if m: "m = Some (w', h')" "reg_inv p 0 w'" "h_file h' = Some i" and i: "w_infos w i = None"
      "w_infos w' = (w_infos w)(i \<mapsto> info)" "w_shares w' (in_s info) = Some sh" "fs_name sh = name" for w' h' i info sh
  proof (rule wire_ok [OF m(2), of i info "sv_env S"])
    fix share core assume c: "w_shares w' (in_s info) = Some share" "fm_key_ops_init (sv_env S) (fs_keydef share) (fs_core share) = Some core"
      "reg_inv p 0 (upd_share w' (in_s info) (share\<lparr> fs_core := core \<rparr>))"
    show thesis
      by (rule opened [where w' = "upd_share w' (in_s info) (share\<lparr> fs_core := core \<rparr>)" and h' = h' and i = i and info = info
            and sh = "share\<lparr> fs_core := core \<rparr>"])
        (use m i c in \<open>simp_all add: unf\<close>, simp_all add: upd_share_def)
  qed (use i in simp)
  have new: thesis if "m = open_new S w ?h t name mode"
    by (cases rule: open_new_cases [OF inv t, where S = S and h = ?h and name = name and mode = mode])
      (use no yes that in auto)
  show thesis
  proof (cases internal)
    case True
    then show thesis using new by (simp add: m_def)
  next
    case False
    show thesis
    proof (cases rule: fm_open_cases [OF inv, where name = name and mode = mode])
      case (1 w')
      then show thesis using new False by (simp add: m_def)
    next
      case (2 w')
      then show thesis using no False by (simp add: m_def)
    next
      case (3 w' i a sh)
      then show thesis
        by (intro yes [of w' "?h\<lparr> h_file := Some i \<rparr>" i "(new_info (w_dbug w) a sh mode)\<lparr> in_open_listed := True \<rparr>"
              "sh\<lparr> fs_open_count := fs_open_count sh + 1, fs_open_list := i # fs_open_list sh \<rparr>"])
          (use False in \<open>simp_all add: m_def new_info_def\<close>)
    qed
  qed
qed

section \<open>Any number of handlers\<close>

type_synonym tab_state = "fm_world \<times> (nat \<Rightarrow> ha_fastmem)"

text \<open>The calls of the server. A handler is opened while it is closed, and the server discards it when it is closed again;
  \<^verbatim>\<open>create\<close> is called on a handler of its own.\<close>

inductive tab_step :: "tab_state \<Rightarrow> tab_state \<Rightarrow> bool" where
  open_call: "h_file (hs t) = None \<Longrightarrow> table_ok (w_dbug w) tb \<Longrightarrow> core_served w tb \<Longrightarrow>
    ha_open S w (hs t) tb name mode internal = Some (w', h', rc) \<Longrightarrow> tab_step (w, hs) (w', hs(t := h'))"
| clone_call: "h_file (hs u) = None \<Longrightarrow> table_ok (w_dbug w) tb \<Longrightarrow> core_served w tb \<Longrightarrow>
    ha_clone S w (hs t) tb mode got = Some (w', r) \<Longrightarrow>
    tab_step (w, hs) (w', case r of None \<Rightarrow> hs | Some h' \<Rightarrow> hs(u := h'))"
| close_call: "ha_close w (hs t) = Some w' \<Longrightarrow> tab_step (w, hs) (w', hs(t := new_ha_fastmem))"
| create_call: "table_ok (w_dbug w) tb \<Longrightarrow> core_served w tb \<Longrightarrow>
    ha_create S w new_ha_fastmem name tb next_value = Some (w', h', r) \<Longrightarrow> tab_step (w, hs) (w', hs)"
| delete_call: "ha_delete_table w name = Some (w', rc) \<Longrightarrow> tab_step (w, hs) (w', hs)"
| drop_call: "ha_drop_table w (hs t) = Some w' \<Longrightarrow> tab_step (w, hs) (w', hs(t := new_ha_fastmem))"
| rename_call: "rename_table w from_name to_name = Some (w', e) \<Longrightarrow> tab_step (w, hs) (w', hs)"
| row_call: "w_shares w a = Some sh \<Longrightarrow> balanced (fs_core sh) \<Longrightarrow> table_step (fs_core sh) c \<Longrightarrow>
    tab_step (w, hs) (upd_share w a (sh\<lparr> fs_core := c \<rparr>), hs)"

text \<open>The handles are those of the handlers, each of one.\<close>

definition owned :: "fm_world \<Rightarrow> (nat \<Rightarrow> ha_fastmem) \<Rightarrow> bool" where
  "owned w hs = (dom (w_infos w) = {i. \<exists>t. h_file (hs t) = Some i} \<and>
     (\<forall>t u i. h_file (hs t) = Some i \<longrightarrow> h_file (hs u) = Some i \<longrightarrow> t = u))"

fun tab_inv :: "tab_state \<Rightarrow> bool" where
  "tab_inv (w, hs) = (reg_inv (\<lambda>_. 0) 0 w \<and> owned w hs)"

lemma owned_open:
  assumes "owned w hs" "h_file (hs t) = None" "w_infos w i = None" "w_infos w' = (w_infos w)(i \<mapsto> info)" "h_file h' = Some i"
  shows "owned w' (hs(t := h'))"
proof -
  have i: "h_file (hs u) \<noteq> Some i" for u using assms(1,3) unfolding owned_def by blast
  then show ?thesis using assms unfolding owned_def by (auto split: if_splits) (metis option.distinct(1))
qed

lemma owned_shut:
  assumes "owned w hs" "h_file (hs t) = Some i" "w_infos w' = (w_infos w)(i := None)" "h_file h' = None"
  shows "owned w' (hs(t := h'))"
proof -
  have "h_file (hs u) = Some i \<longleftrightarrow> u = t" for u using assms(1,2) unfolding owned_def by blast
  then show ?thesis using assms unfolding owned_def by (auto split: if_splits) (metis option.inject)
qed

lemma owned_same:
  assumes "owned w hs" "w_infos w' = w_infos w" "h_file h' = h_file (hs t)"
  shows "owned w' hs" "owned w' (hs(t := h'))"
  using assms unfolding owned_def by (auto split: if_splits)

lemma ha_close_ok:
  assumes inv: "reg_inv p 0 w" and own: "owned w hs" and i: "h_file (hs t) = Some i"
  obtains w' where "ha_close w (hs t) = Some w'" "reg_inv p 0 w'" "owned w' (hs(t := new_ha_fastmem))"
proof -
  obtain info where info: "w_infos w i = Some info" using own i unfolding owned_def by blast
  obtain sh where sh: "w_shares w (in_s info) = Some sh" using reg_okD(7) [of p 0 w i info] inv info by (auto simp: reg_inv_def)
  obtain w' where w': "fm_close w i = Some w'" "reg_inv p 0 w'" "w_infos w' = (w_infos w)(i := None)"
    by (cases rule: close_cases [OF inv info sh]) blast+
  show thesis
    by (rule that [of w']) (use i w' owned_shut [OF own i w'(3)] in \<open>simp_all add: ha_close_def new_ha_fastmem_def\<close>)
qed

lemma ha_drop_ok:
  assumes inv: "reg_inv p 0 w" and own: "owned w hs" and i: "h_file (hs t) = Some i"
  obtains w' where "ha_drop_table w (hs t) = Some w'" "reg_inv p 0 w'" "owned w' (hs(t := new_ha_fastmem))"
proof -
  have ok: "reg_ok p 0 w" "\<not> w_mutex w" using inv by (simp_all add: reg_inv_def)
  obtain info where info: "w_infos w i = Some info" using own i unfolding owned_def by blast
  obtain sh where sh: "w_shares w (in_s info) = Some sh" using reg_okD(7) [OF ok(1) info] by blast
  let ?w = "upd_share w (in_s info) (sh\<lparr> fs_delete_on_close := True \<rparr>)"
  have "reg_ok p 0 ?w"
    by (rule upd_share_ok [OF ok(1) sh]) (use freeD [OF ok(1) sh] in \<open>simp_all add: share_ok_def\<close>)
  then have "reg_inv p 0 ?w" using ok by (simp add: reg_inv_def upd_share_def)
  moreover have "owned ?w hs" using owned_same(1) [OF own, of ?w] by (simp add: upd_share_def)
  ultimately obtain w' where "ha_close ?w (hs t) = Some w'" "reg_inv p 0 w'" "owned w' (hs(t := new_ha_fastmem))"
    using ha_close_ok [of p ?w hs t i] i by blast
  then show thesis using that [of w'] i info sh by (simp add: ha_drop_table_def)
qed

lemma ha_create_ok:
  assumes inv: "reg_inv p 0 w" and t: "table_ok (w_dbug w) tb" "core_served w tb"
  obtains w' h' r where "ha_create S w h name tb v = Some (w', h', r)" "reg_inv p 0 w'" "w_infos w' = w_infos w"
proof (cases rule: prepare_cases [OF inv t(1), where bin = "sv_bin S" and kn = "sv_kn S" and hs = "sv_heap_size S"
      and internal = "h_internal_table h"])
  case (1 w1 e)
  then show thesis using that by (simp add: ha_create_def)
next
  case (2 w1 ci)
  let ?ci = "ci\<lparr> ci_auto_increment := (if v \<noteq> 0 then v - 1 else 0) \<rparr>"
  have sv: "serves (w_core_alloc w1 (w_next w1)) (2 + 2 * length (ci_keydef ?ci))" using 2 t(2) by (simp add: core_served_def)
  have inv1: "reg_inv p 1 w1" using 2(2) by simp
  obtain w2 r where c: "fm_create (sv_now S) w1 name ?ci False = Some (w2, r)" "reg_inv p 1 w2" "w_infos w2 = w_infos w1"
    by (cases rule: fm_create_cases [OF inv1 sv, where now = "sv_now S" and name = name and pin = False]) auto
  have "reg_inv p 0 (my_free w2)" by (rule my_free_inv) (use c in simp)
  then show thesis using that 2 c by (simp add: ha_create_def Let_def)
qed

lemma ha_clone_open:
  assumes "ha_clone S w h tb mode got = Some (w', r)"
  shows "(w' = w \<and> r = None) \<or> (\<exists>name h' rc. ha_open S w new_ha_fastmem tb name mode False = Some (w', h', rc) \<and>
    r = (if rc = 0 then Some h' else None))"
proof (cases got)
  case True
  with assms obtain name x where x: "ha_open S w new_ha_fastmem tb name mode False = Some x"
    "(case x of (w, h', rc) \<Rightarrow> Some (w, if rc = 0 then Some h' else None)) = Some (w', r)"
    unfolding ha_clone_def bind_eq_Some_conv by (simp add: bind_eq_Some_conv del: split_paired_Ex) blast
  moreover obtain h' rc where "x = (w', h', rc)" "r = (if rc = 0 then Some h' else None)" using x(2) by (cases x) simp
  ultimately show ?thesis by blast
qed (use assms in \<open>simp add: ha_clone_def\<close>)

lemma tab_step_inv:
  assumes "tab_step (w, hs) (w', hs')" "tab_inv (w, hs)"
  shows "tab_inv (w', hs')"
proof -
  have inv: "reg_inv (\<lambda>_. 0) 0 w" and own: "owned w hs" using assms(2) by simp_all
  show ?thesis
    using assms(1)
  proof (cases rule: tab_step.cases)
    case (open_call t tb S name mode internal h' rc)
    then show ?thesis
      by (cases rule: ha_open_cases [OF inv open_call(3,4), where S = S and h = "hs t" and name = name and mode = mode and internal = internal])
        (auto intro: owned_open [OF own] owned_same [OF own])
  next
    case (clone_call u tb S t mode got r)
    from ha_clone_open [OF clone_call(5)] show ?thesis
    proof
      assume "w' = w \<and> r = None"
      then show ?thesis using clone_call(1) inv own by simp
    next
      assume "\<exists>name h' rc. ha_open S w new_ha_fastmem tb name mode False = Some (w', h', rc) \<and> r = (if rc = 0 then Some h' else None)"
      then obtain name h' rc where o: "ha_open S w new_ha_fastmem tb name mode False = Some (w', h', rc)"
        "r = (if rc = 0 then Some h' else None)" by blast
      show ?thesis
        by (cases rule: ha_open_cases [OF inv clone_call(3,4), where S = S and h = new_ha_fastmem and name = name and mode = mode
              and internal = False])
          (use clone_call o in \<open>auto intro: owned_open [OF own] owned_same [OF own]\<close>)
    qed
  next
    case (close_call t)
    then obtain i where "h_file (hs t) = Some i" by (auto simp: ha_close_def bind_eq_Some_conv)
    from ha_close_ok [OF inv own this] show ?thesis using close_call by (metis option.inject tab_inv.simps)
  next
    case (create_call tb S name v h' r)
    from ha_create_ok [OF inv create_call(2,3), of S new_ha_fastmem name v] show ?thesis
      using create_call owned_same(1) [OF own] by (metis fst_conv option.inject tab_inv.simps)
  next
    case (delete_call name rc)
    then show ?thesis
      by (cases rule: delete_table_cases [OF inv, of name])
        (auto simp: ha_delete_table_def fastmem_drop_table_def intro: owned_same [OF own])
  next
    case (drop_call t)
    then obtain i where "h_file (hs t) = Some i" by (auto simp: ha_drop_table_def bind_eq_Some_conv)
    from ha_drop_ok [OF inv own this] show ?thesis using drop_call by (metis option.inject tab_inv.simps)
  next
    case (rename_call from_name to_name e)
    then show ?thesis
      by (cases rule: rename_ok [OF inv, of from_name to_name]) (auto simp: rename_table_def intro: owned_same [OF own])
  next
    case (row_call a sh c)
    have "reg_step (w, \<lambda>_. 0) (w', \<lambda>_. 0)" using reg_step.row_call [OF row_call(3,4,5)] row_call(1) by simp
    then show ?thesis using reg_step_inv [OF _ inv] owned_same(1) [OF own, of w'] row_call by (simp add: upd_share_def)
  qed
qed

interpretation tables: machine tab_step tab_inv
  by unfold_locales (metis tab_step_inv surj_pair)

text \<open>A server that starts with no table and closed handlers.\<close>

abbreviation no_handlers :: "nat \<Rightarrow> ha_fastmem" where
  "no_handlers \<equiv> \<lambda>_. new_ha_fastmem"

lemma tab_run_inv: "tab_step\<^sup>*\<^sup>* (empty_world alloc core_alloc dbug, no_handlers) (w, hs) \<Longrightarrow> tab_inv (w, hs)"
  by (erule tables.reach_good) (simp add: empty_world_inv, simp add: owned_def empty_world_def new_ha_fastmem_def)

definition users :: "fm_world \<Rightarrow> (nat \<Rightarrow> ha_fastmem) \<Rightarrow> addr \<Rightarrow> nat set" where
  "users w hs a = {t. \<exists>i info. h_file (hs t) = Some i \<and> w_infos w i = Some info \<and> in_s info = a}"

lemma owned_card:
  assumes "owned w hs"
  shows "card (dom (w_infos w)) = card {t. h_file (hs t) \<noteq> None}" "card (handles w a) = card (users w hs a)"
proof -
  have inj: "inj_on (\<lambda>t. the (h_file (hs t))) {t. h_file (hs t) \<noteq> None}"
    using assms unfolding owned_def by (auto intro!: inj_onI)
  have "dom (w_infos w) = (\<lambda>t. the (h_file (hs t))) ` {t. h_file (hs t) \<noteq> None}"
    using assms unfolding owned_def by (auto simp: image_iff) (metis option.sel)
  then show "card (dom (w_infos w)) = card {t. h_file (hs t) \<noteq> None}" using card_image [OF inj] by simp
  have sub: "users w hs a \<subseteq> {t. h_file (hs t) \<noteq> None}" by (auto simp: users_def)
  have "handles w a = (\<lambda>t. the (h_file (hs t))) ` users w hs a"
  proof
    show "handles w a \<subseteq> (\<lambda>t. the (h_file (hs t))) ` users w hs a"
    proof
      fix i assume "i \<in> handles w a"
      then obtain info where i: "w_infos w i = Some info" "in_s info = a" by (auto simp: handles_def)
      then obtain t where "h_file (hs t) = Some i" using assms unfolding owned_def by blast
      then show "i \<in> (\<lambda>t. the (h_file (hs t))) ` users w hs a" using i by (force simp: users_def image_iff)
    qed
  qed (auto simp: users_def handles_def)
  then show "card (handles w a) = card (users w hs a)" using card_image [OF inj_on_subset [OF inj sub]] by simp
qed

section \<open>Properties\<close>

text \<open>C33. The handlers keep the books of the engine. Whatever tables any number of handlers created, opened, cloned, closed, dropped
  and renamed, and whichever allocations failed in between: the only blocks alive outside of the cores are two for every share
  and one for every open handler, no block of a freed core was lost, and every share counts exactly the handlers that are open on it.\<close>

theorem handlers_books:
  assumes "tab_step\<^sup>*\<^sup>* (empty_world alloc core_alloc dbug, no_handlers) (w, hs)"
  shows "w_lost w = 0 \<and> w_live w = 2 * int (card (dom (w_shares w))) + int (card {t. h_file (hs t) \<noteq> None}) \<and>
    (\<forall>a sh. w_shares w a = Some sh \<longrightarrow> fs_open_count sh = card (users w hs a))"
proof -
  have inv: "reg_ok (\<lambda>_. 0) 0 w" and own: "owned w hs" using tab_run_inv [OF assms] by (simp_all add: reg_inv_def)
  show ?thesis using reg_okD(10,11) [OF inv] freeD(3) [OF inv] owned_card [OF own] by simp
qed

text \<open>C34. \<^verbatim>\<open>open\<close>, \<^verbatim>\<open>close\<close> and \<^verbatim>\<open>drop_table\<close> of a handler return, whichever allocations outside of the core fail. For \<^verbatim>\<open>open\<close> there are
  three conditions: no key of the table is a BTREE key (\<^verbatim>\<open>fm_prepare_create_info\<close> frees an interior pointer on one; in a debug build
  any algorithm other than HASH or none is an assertion too), an auto-increment column has its index among the keys, and the allocator serves the set-up of a new core (a failure there crashes). Then a
  successful \<^verbatim>\<open>open\<close> gives the handler a new handle on a share of the name asked for and leaves the other handles alone, and a refused one
  leaves the handler closed. \<^verbatim>\<open>close\<close> and \<^verbatim>\<open>drop_table\<close> return for every open handler without a condition.\<close>

theorem table_methods_return:
  assumes run: "tab_step\<^sup>*\<^sup>* (empty_world alloc core_alloc dbug, no_handlers) (w, hs)"
  shows "(table_ok (w_dbug w) tb \<longrightarrow> core_served w tb \<longrightarrow> (\<exists>w' h' rc. ha_open S w h tb name mode internal = Some (w', h', rc) \<and>
      (if rc = 0 then \<exists>i info sh. h_file h' = Some i \<and> w_infos w i = None \<and> w_infos w' = (w_infos w)(i \<mapsto> info) \<and>
           w_shares w' (in_s info) = Some sh \<and> fs_name sh = name
       else h_file h' = None \<and> w_infos w' = w_infos w))) \<and>
    (\<forall>u. h_file (hs u) \<noteq> None \<longrightarrow> (\<exists>w'. ha_close w (hs u) = Some w') \<and> (\<exists>w'. ha_drop_table w (hs u) = Some w'))"
proof (intro conjI allI impI)
  have inv: "reg_inv (\<lambda>_. 0) 0 w" and own: "owned w hs" using tab_run_inv [OF run] by simp_all
  show "\<exists>w' h' rc. ha_open S w h tb name mode internal = Some (w', h', rc) \<and>
      (if rc = 0 then \<exists>i info sh. h_file h' = Some i \<and> w_infos w i = None \<and> w_infos w' = (w_infos w)(i \<mapsto> info) \<and>
           w_shares w' (in_s info) = Some sh \<and> fs_name sh = name
       else h_file h' = None \<and> w_infos w' = w_infos w)" if t: "table_ok (w_dbug w) tb" "core_served w tb"
    by (cases rule: ha_open_cases [OF inv t, where S = S and h = h and name = name and mode = mode and internal = internal]) auto
  fix u assume "h_file (hs u) \<noteq> None"
  then obtain i where i: "h_file (hs u) = Some i" by blast
  show "\<exists>w'. ha_close w (hs u) = Some w'" by (rule ha_close_ok [OF inv own i]) blast
  show "\<exists>w'. ha_drop_table w (hs u) = Some w'" by (rule ha_drop_ok [OF inv own i]) blast
qed

section \<open>Witnesses\<close>

text \<open>A table with a hash key over one column, and a server on which nothing exists yet.\<close>

definition ex_form :: TABLE where
  "ex_form = \<lparr> tb_key_info = [\<lparr> ky_parts = [\<lparr> kp_field = \<lparr> fld_key_type = HA_KEYTYPE_BINARY, fld_enum_set = False,
       fld_charset = ex_charset, fld_null = None, fld_auto_increment = False, fld_bit = (0, 0, 0) \<rparr>, kp_offset = 0, kp_length = 1 \<rparr>],
       ky_algorithm = HA_KEY_ALG_HASH, ky_flags = {HA_NOSAME} \<rparr>],
     tb_total_keys = 1, tb_reclength = 1, tb_max_rows = 3, tb_found_next_number_field = False, tb_next_number_index = 0,
     tb_next_number_key_offset = 0 \<rparr>"

definition ex_server :: server where
  "ex_server = \<lparr> sv_bin = ex_charset, sv_kn = (\<lambda>_. 0), sv_heap_size = 0, sv_now = 0, sv_env = ex_env \<rparr>"

lemma ex_form_ok: "table_ok (w_dbug ex_world) ex_form" "core_served ex_world ex_form"
  by (simp_all add: table_ok_def ex_form_def algorithm_ok_def core_served_def serves_def empty_world_def)

text \<open>The first \<^verbatim>\<open>open\<close> creates the table.\<close>

definition ex_desc :: "fm_world \<times> FM_CREATE_INFO" where
  "ex_desc = (case fm_prepare_create_info ex_charset (\<lambda>_. 0) 0 ex_world ex_form False of Some (w, Inr ci) \<Rightarrow> (w, ci))"

lemma ex_prepare:
  "fm_prepare_create_info ex_charset (\<lambda>_. 0) 0 ex_world ex_form False = Some (fst ex_desc, Inr (snd ex_desc))"
  "fst ex_desc = ex_world\<lparr> w_nalloc := 1, w_live := 1 \<rparr>" "ci_max_records (snd ex_desc) = 1" "\<not> ci_internal_table (snd ex_desc)"
  "length (ci_keydef (snd ex_desc)) = 1"
  by (simp_all add: ex_desc_def fm_prepare_create_info_def ex_form_def my_malloc_def empty_world_def algorithm_ok_def prepare_auto_key_def
      estimate_records_def Let_def fm_align8_def)

definition ex_first :: FM_SHARE where
  "ex_first = new_share 0 ((snd ex_desc)\<lparr> ci_pin_share := True \<rparr>) (\<lambda>_ _. True) 1024 ''t''"

lemma ex_first_fields:
  "fs_name ex_first = ''t''" "fs_open_count ex_first = 0" "\<not> fs_internal ex_first" "sc_chunks (fs_core ex_first) \<noteq> None"
  using new_share_freeable(2) [of "\<lambda>_ _. True" "(snd ex_desc)\<lparr> ci_pin_share := True \<rparr>" 0 1024 "''t''"] ex_prepare(4)
  by (simp_all add: ex_first_def new_share_def Let_def serves_def)

lemma ex_first_create:
  "fm_create 0 (fst ex_desc) ''t'' ((snd ex_desc)\<lparr> ci_pin_share := True \<rparr>) True =
     Some (ex_world\<lparr> w_nalloc := 3, w_live := 3, w_next := 1, w_list := [0], w_shares := [0 \<mapsto> ex_first\<lparr> fs_open_count := 1 \<rparr>] \<rparr>, Some (0, True))"
proof -
  let ?l = "(fst ex_desc)\<lparr> w_mutex := True \<rparr>"
  have "create_share 0 ?l ''t'' ((snd ex_desc)\<lparr> ci_pin_share := True \<rparr>) =
      Some (?l\<lparr> w_nalloc := 3, w_live := 3, w_next := 1, w_list := [0], w_shares := [0 \<mapsto> ex_first] \<rparr>, Some 0)"
    using ex_first_fields(4) ex_prepare(3,4)
    by (auto simp: create_share_def bucket_ex my_malloc_def ex_prepare(2) empty_world_def ex_first_def [symmetric] upd_share_def
        fm_share_list_add_def Let_def)
  then show ?thesis
    using ex_first_fields(2) ex_prepare(4)
    by (simp add: fm_create_def registry_lock_def create_lookup_def fm_find_named_share_def create_pin_def registry_unlock_def
        ex_prepare(2) empty_world_def upd_share_def)
qed

lemma ex_open_first:
  obtains w' h' where "ha_open ex_server ex_world new_ha_fastmem ex_form ''t'' 0 False = Some (w', h', 0)" "h_file h' \<noteq> None"
proof -
  have none: "fm_open ex_world ''t'' 0 = Some (ex_world, Inl ENOENT)"
    by (simp add: fm_open_def registry_lock_def registry_unlock_def fm_find_named_share_def empty_world_def)
  let ?w = "ex_world\<lparr> w_nalloc := 3, w_live := 3, w_next := 1, w_list := [0], w_shares := [0 \<mapsto> ex_first\<lparr> fs_open_count := 1 \<rparr>] \<rparr>"
  obtain w3 where reg: "fm_open_from_share_and_register (my_free ?w) 0 0 = Some (w3, Some 1)"
    by (simp add: my_free_def fm_open_from_share_and_register_def registry_lock_def empty_world_def fm_open_from_share_locked_def
        my_malloc_def upd_share_def upd_info_def list_info_def new_info_def Let_def)
  obtain h3 i where new: "open_new ex_server ex_world (new_ha_fastmem\<lparr> h_internal_table := False \<rparr>) ex_form ''t'' 0 = Some (w3, h3)"
    "h_file h3 = Some i"
    by (simp add: open_new_def ex_server_def ex_prepare(1) ex_first_create new_ha_fastmem_def reg Let_def del: One_nat_def)
  show thesis
    by (cases rule: ha_open_cases [OF empty_world_inv ex_form_ok, where S = ex_server and h = new_ha_fastmem and name = "''t''" and mode = 0
          and internal = False])
      (use new none that in \<open>auto simp: ha_open_def bind_eq_Some_conv\<close>)
qed

definition ex_opened_first :: tab_state where
  "ex_opened_first = (case ha_open ex_server ex_world new_ha_fastmem ex_form ''t'' 0 False of
     Some (w', h', rc) \<Rightarrow> (w', no_handlers(0 := h')))"

lemma ex_opened_first_run:
  "tab_step\<^sup>*\<^sup>* (ex_world, no_handlers) (fst ex_opened_first, snd ex_opened_first)" "{t. h_file (snd ex_opened_first t) \<noteq> None} = {0}"
proof -
  obtain w' h' where o: "ha_open ex_server ex_world new_ha_fastmem ex_form ''t'' 0 False = Some (w', h', 0)" "h_file h' \<noteq> None"
    by (rule ex_open_first)
  have "tab_step (ex_world, no_handlers) (w', no_handlers(0 := h'))"
    by (rule tab_step.open_call [OF _ ex_form_ok o(1)]) (simp add: new_ha_fastmem_def)
  then show "tab_step\<^sup>*\<^sup>* (ex_world, no_handlers) (fst ex_opened_first, snd ex_opened_first)"
    "{t. h_file (snd ex_opened_first t) \<noteq> None} = {0}"
    using o by (auto simp: ex_opened_first_def new_ha_fastmem_def split: if_splits)
qed

theorem handlers_books_witness:
  "w_lost (fst ex_opened_first) = 0 \<and> w_live (fst ex_opened_first) = 2 * int (card (dom (w_shares (fst ex_opened_first)))) + 1"
  using handlers_books [OF ex_opened_first_run(1)] ex_opened_first_run(2) by simp

theorem table_methods_return_witness:
  "(\<exists>w' h' rc. ha_open ex_server ex_world new_ha_fastmem ex_form ''t'' 0 False = Some (w', h', rc)) \<and>
   (\<exists>w'. ha_close (fst ex_opened_first) (snd ex_opened_first 0) = Some w')"
proof
  show "\<exists>w' h' rc. ha_open ex_server ex_world new_ha_fastmem ex_form ''t'' 0 False = Some (w', h', rc)"
    using table_methods_return [OF rtranclp.rtrancl_refl, of "\<lambda>_. True" "\<lambda>_ _ _. True" False ex_form ex_server new_ha_fastmem "''t''" 0 False]
      ex_form_ok by blast
  have "h_file (snd ex_opened_first 0) \<noteq> None" using ex_opened_first_run(2) by auto
  then show "\<exists>w'. ha_close (fst ex_opened_first) (snd ex_opened_first 0) = Some w'"
    using table_methods_return [OF ex_opened_first_run(1)] by blast
qed

end
