(* ===== verification/FM_Data_Laws.thy ===== *)
theory FM_Data_Laws
  imports FM_Data FM_Runs
begin

text \<open>
  What the row operations on a handle guarantee: a write stores the row and positions the handle on it, a
  position reference finds its row again and never another one, and the counter of the auto-increment
  column does not touch the table.
\<close>

section \<open>The auto-increment counter\<close>

lemma auto_inc_frame [simp]:
  "fm_slot (s\<lparr> sc_auto_inc := v \<rparr>) i = fm_slot s i"
  "fm_key_next (s\<lparr> sc_auto_inc := v \<rparr>) k = fm_key_next s k"
  "get_key (s\<lparr> sc_auto_inc := v \<rparr>) k = get_key s k"
  by (simp_all add: fm_slot_def fm_key_next_def chunk_at_def get_key_def fun_eq_iff)

lemma auto_inc_table [simp]:
  "core_inv (s\<lparr> sc_auto_inc := v \<rparr>) = core_inv s" "quiet (s\<lparr> sc_auto_inc := v \<rparr>) = quiet s"
  "rows (s\<lparr> sc_auto_inc := v \<rparr>) = rows s" "gens (s\<lparr> sc_auto_inc := v \<rparr>) = gens s"
  "wlocked (s\<lparr> sc_auto_inc := v \<rparr>) = wlocked s" "same_shape s (s\<lparr> sc_auto_inc := v \<rparr>)"
  "limited (s\<lparr> sc_auto_inc := v \<rparr>) = limited s"
proof -
  let ?t = "s\<lparr> sc_auto_inc := v \<rparr>"
  show r: "rows ?t = rows s" by (rule rows_cong) simp
  have k: "kstat ?t = kstat s" "key_lock ?t = key_lock s" "key_head ?t = key_head s"
    by (auto simp: kstat_def key_lock_def key_head_def fun_eq_iff)
  have f: "free_next ?t = free_next s" by (auto simp: free_next_def)
  show "core_inv ?t = core_inv s"
    by (simp add: core_inv_def sizes_ok_def keys_ok_def slots_ok_def slot_ok_def key_chains_def
        free_list_def covers_def r k f)
  show "gens ?t = gens s" by (rule gens_cong) (simp add: fun_eq_iff)
  show w: "wlocked ?t = wlocked s" by (simp add: wlocked_def)
  show "quiet ?t = quiet s" by (simp add: quiet_def held_def k)
  show "same_shape s ?t" by (simp add: same_shape_def w k lasting_def chunk_blocks_def)
  show "limited ?t = limited s" by (simp add: limited_def free_list_def r f)
qed

lemma observe_frame: "fm_core_auto_inc_observe 0 s v = s\<lparr> sc_auto_inc := max (sc_auto_inc s) v \<rparr>"
proof (cases "sc_auto_inc s < v")
  case True
  then show ?thesis by (simp add: fm_core_auto_inc_observe_def observe_loop.simps max_def)
next
  case False
  then have "max (sc_auto_inc s) v = sc_auto_inc s" by (simp add: max_def)
  then show ?thesis using False by (simp add: fm_core_auto_inc_observe_def observe_loop.simps)
qed

text \<open>The column that counts exists.\<close>

definition auto_key_ok :: "FM_SHARE \<Rightarrow> bool" where
  "auto_key_ok share = (let ak = sc_auto_key (fs_core share) in
     ak = 0 \<or> ak \<le> length (fs_keydef share) \<and> kd_seg (fs_keydef share ! (ak - 1)) \<noteq> [])"

lemma auto_inc_update:
  assumes "auto_key_ok share"
  obtains x where "fm_update_auto_increment K share r = Some (share\<lparr> fs_core := (fs_core share)\<lparr> sc_auto_inc := x \<rparr> \<rparr>)"
proof (cases "sc_auto_key (fs_core share) = 0")
  case True
  then show thesis by (intro that [of "sc_auto_inc (fs_core share)"]) (simp add: fm_update_auto_increment_def)
next
  case False
  obtain sv uv where "auto_inc_column K (num_type K (sc_auto_key_type (fs_core share)))
      (drop (seg_start (hd (kd_seg (fs_keydef share ! (sc_auto_key (fs_core share) - 1))))) r) = (sv, uv)" by force
  then show thesis
    using False assms
    by (intro that [of "max (sc_auto_inc (fs_core share)) (if sv > 0 then of_int sv else uv)"])
      (simp add: fm_update_auto_increment_def auto_key_ok_def observe_frame Let_def)
qed

section \<open>Position references\<close>

text \<open>An interface of positioned reads: slots have a generation, and a read names the generation it expects. What a
  client of references relies on is that a read finds the row of that generation or nothing.\<close>

locale row_refs =
  fixes inv :: "'s \<Rightarrow> bool"
    and row :: "'s \<Rightarrow> 'i \<rightharpoonup> 'r"
    and gen :: "'s \<Rightarrow> 'i \<rightharpoonup> 'g"
    and fits :: "'s \<Rightarrow> 'r \<Rightarrow> bool"
    and read :: "'s \<Rightarrow> 'i \<Rightarrow> 'g \<Rightarrow> 'r \<Rightarrow> ('e \<times> 'r) option"
    and found gone :: 'e
  assumes hit: "inv s \<Longrightarrow> row s i = Some r \<Longrightarrow> gen s i = Some g \<Longrightarrow> fits s buf \<Longrightarrow> read s i g buf = Some (found, r)"
    and miss: "inv s \<Longrightarrow> gen s i = Some g' \<Longrightarrow> row s i = None \<or> g' \<noteq> g \<Longrightarrow> read s i g buf = Some (gone, buf)"
    and kept: "inv s \<Longrightarrow> row s i = Some r \<Longrightarrow> fits s r \<and> gen s i \<noteq> None"
    and distinct_codes: "found \<noteq> gone"
begin

text \<open>A reference made in one state and used in another.\<close>

lemma same_row:
  assumes "inv s'" "row s i = Some r" "gen s i = Some g" "row s' i = row s i" "gen s' i = gen s i" "fits s' buf"
  shows "read s' i g buf = Some (found, r)"
  using assms by (simp add: hit)

lemma stale_row:
  assumes "inv s'" "gen s' i = Some g'" "g' \<noteq> g"
  shows "read s' i g buf = Some (gone, buf)"
  using assms miss by blast

lemma read_decides:
  assumes "inv s" "gen s i = Some g'" "fits s buf"
  shows "(\<exists>r. read s i g buf = Some (found, r) \<and> row s i = Some r \<and> g' = g) \<or>
    read s i g buf = Some (gone, buf) \<and> (row s i = None \<or> g' \<noteq> g)"
proof (cases "row s i = None \<or> g' \<noteq> g")
  case True
  then show ?thesis using miss [OF assms(1,2)] by blast
next
  case False
  then obtain r where "row s i = Some r" "gen s i = Some g" using assms(2) by auto
  then show ?thesis using hit [OF assms(1) _ _ assms(3)] False by blast
qed

end

interpretation core_refs: row_refs core_inv rows gens "\<lambda>s r. length r = sc_reclength s"
  "\<lambda>s i g buf. fm_core_read_row s i True g buf" FM_ERR_OK FM_ERR_DELETED
proof
  fix s i r g and buf :: image
  assume "core_inv s" "rows s i = Some r" "gens s i = Some g" "length buf = sc_reclength s"
  then show "fm_core_read_row s i True g buf = Some (FM_ERR_OK, r)" by (intro read_row_gen core_invD(3))
next
  fix s i g g' and buf :: image
  assume "core_inv s" "gens s i = Some g'" "rows s i = None \<or> g' \<noteq> g"
  then show "fm_core_read_row s i True g buf = Some (FM_ERR_DELETED, buf)"
    by (auto simp: fm_core_read_row_def gens_def rows_def split: if_splits)
next
  fix s i r
  assume "core_inv s" "rows s i = Some r"
  then show "length r = sc_reclength s \<and> gens s i \<noteq> None"
    using row_length [OF core_invD(3)] by (auto simp: gens_def dest!: rows_slot)
qed simp


section \<open>Writing\<close>

lemma same_shape_trans_auto:
  "same_shape s t \<Longrightarrow> same_shape s (t\<lparr> sc_auto_inc := x \<rparr>)"
  using same_shape_trans auto_inc_table(6) by blast

lemma auto_key_shape:
  "auto_key_ok share \<Longrightarrow> same_shape (fs_core share) core \<Longrightarrow> auto_key_ok (share\<lparr> fs_core := core \<rparr>)"
  by (simp add: auto_key_ok_def same_shape_def lasting_def)

lemma error_to_ha: "fm_core_error_to_ha e \<noteq> HA_OK"
  by (simp add: fm_core_error_to_ha_def split: fm_err.splits)

text \<open>The outcomes of \<^verbatim>\<open>fm_write\<close>.\<close>

lemma fm_write_cases:
  assumes inv: "core_inv (fs_core share)" "quiet (fs_core share)"
    and len: "length r = sc_reclength (fs_core share)" "length (in_scratch info) = sc_reclength (fs_core share)"
    and ak: "auto_key_ok share"
  obtains (ok) core i g sc where
      "fm_write K share info r = Some (share\<lparr> fs_core := core \<rparr>, info\<lparr> in_scratch := sc, in_lastinx := -1,
         in_current_hash_slot := -1, in_current_slot := i, in_current_gen := g, in_update := {HA_STATE_AKTIV} \<rparr>, HA_OK)"
      "core_inv core" "quiet core" "rows (fs_core share) i = None" "rows core = (rows (fs_core share))(i \<mapsto> r)"
      "same_shape (fs_core share) core" "gens (fs_core share) \<subseteq>\<^sub>m gens core" "gens core i = Some g"
      "length sc = sc_reclength (fs_core share)"
      "\<forall>k < sc_keys (fs_core share). \<not> conflict (kstat (fs_core share) k) (rows (fs_core share)) r"
  | (refused) core e sc ek where
      "fm_write K share info r = Some (share\<lparr> fs_core := core \<rparr>, info\<lparr> in_scratch := sc, in_errkey := ek \<rparr>, e)" "e \<noteq> HA_OK"
      "core_inv core" "quiet core" "rows core = rows (fs_core share)" "same_shape (fs_core share) core"
      "gens (fs_core share) \<subseteq>\<^sub>m gens core" "length sc = sc_reclength (fs_core share)"
proof (cases rule: insert_row_cases [OF inv len, where out = "-1" and ek = "Some 0"])
  case (1 core i sc)
  let ?sh = "share\<lparr> fs_core := core \<rparr>"
  have "auto_key_ok ?sh" by (rule auto_key_shape [OF ak 1(6)])
  then obtain x where x: "fm_update_auto_increment K ?sh r = Some (share\<lparr> fs_core := core\<lparr> sc_auto_inc := x \<rparr> \<rparr>)"
    by (rule auto_inc_update) simp
  define x' where "x' = (if sc_auto_key core \<noteq> 0 then x else sc_auto_inc core)"
  have c: "(if sc_auto_key core \<noteq> 0 then fm_update_auto_increment K ?sh r else Some ?sh) =
      Some (share\<lparr> fs_core := core\<lparr> sc_auto_inc := x' \<rparr> \<rparr>)" using x by (simp add: x'_def)
  obtain g where g: "gens core i = Some g" using core_refs.kept [OF 1(2), of i r] 1(5) by auto
  show thesis
    by (rule ok [where core = "core\<lparr> sc_auto_inc := x' \<rparr>" and i = i and g = g and sc = sc])
      (use 1 c g in \<open>simp_all add: fm_write_def fm_slot_gen_def same_shape_trans_auto\<close>)
next
  case (2 core sc)
  show thesis
    by (rule refused [where core = core and e = "fm_core_error_to_ha FM_ERR_DUP_KEY" and sc = sc and ek = 0])
      (use 2 in \<open>simp_all add: fm_write_def error_to_ha\<close>)
next
  case (3 m)
  let ?c = "(fs_core share)\<lparr> sc_nalloc := m \<rparr>"
  have "same_table (fs_core share) ?c" "core_inv ?c" using inv by simp_all
  then show thesis
    by (intro refused [where core = ?c and e = "fm_core_error_to_ha
        (if sc_chunk_cap (fs_core share) \<le> sc_chunk_cnt (fs_core share) then FM_ERR_FULL else FM_ERR_NOMEM)"
        and sc = "in_scratch info" and ek = "in_errkey info"])
      (use 3 inv len in \<open>auto simp: fm_write_def error_to_ha same_table_def quiet_def same_table_shape\<close>)
qed


section \<open>The life of a reference\<close>

lemma rrnd_hit:
  assumes "core_inv (fs_core share)" "rows (fs_core share) (ref_slot p) = Some r" "gens (fs_core share) (ref_slot p) = Some (ref_gen p)"
    and "length buf = sc_reclength (fs_core share)"
  shows "fm_rrnd share info buf p = Some (info\<lparr> in_lastinx := -1, in_current_slot := ref_slot p, in_current_gen := ref_gen p,
     in_current_hash_slot := -1, in_update := {HA_STATE_PREV_FOUND, HA_STATE_NEXT_FOUND, HA_STATE_AKTIV} \<rparr>, HA_OK, r)"
proof -
  have "ref_slot p \<noteq> -1" using assms(2) by (auto dest!: rows_slot simp: fm_slot_def chunk_at_def split: Option.bind_splits)
  then show ?thesis using core_refs.hit [OF assms(1-3)] assms(4) by (simp add: fm_rrnd_def Let_def)
qed

lemma rrnd_stale:
  assumes "core_inv (fs_core share)" "gens (fs_core share) (ref_slot p) = Some g'" "g' \<noteq> ref_gen p"
  shows "fm_rrnd share info buf p = Some (info\<lparr> in_lastinx := -1,
     in_update := {HA_STATE_PREV_FOUND, HA_STATE_NEXT_FOUND} \<rparr>, HA_ERR_RECORD_DELETED, buf)"
proof -
  have "ref_slot p \<noteq> -1" using assms(2) by (auto simp: gens_def fm_slot_def chunk_at_def split: Option.bind_splits)
  then show ?thesis using core_refs.stale_row [OF assms] by (simp add: fm_rrnd_def Let_def)
qed

text \<open>The check of the record image passes on the row the handle stands on.\<close>

lemma read_check_ok:
  assumes "core_inv (fs_core share)" "rows (fs_core share) (in_current_slot info) = Some r"
    "gens (fs_core share) (in_current_slot info) = Some (in_current_gen info)" "length (in_scratch info) = sc_reclength (fs_core share)"
  obtains sc where "fm_read_check share info r = Some (info\<lparr> in_scratch := sc \<rparr>, None)" "length sc = sc_reclength (fs_core share)"
proof -
  define sc where "sc = (if in_readcheck info then r else in_scratch info)"
  have "length sc = sc_reclength (fs_core share)" using assms(4) core_refs.kept [OF assms(1,2)] by (simp add: sc_def)
  moreover have "fm_read_check share info r = Some (info\<lparr> in_scratch := sc \<rparr>, None)"
    using core_refs.hit [OF assms] by (simp add: fm_read_check_def sc_def)
  ultimately show thesis by (rule that [rotated])
qed

text \<open>Deleting through a handle that stands on a row, with or without the check of the record image.\<close>

lemma fm_delete_ok:
  assumes inv: "core_inv (fs_core share)" "quiet (fs_core share)" and wl: "wlocked (fs_core share) = {}"
    and r: "rows (fs_core share) (in_current_slot info) = Some r" "gens (fs_core share) (in_current_slot info) = Some (in_current_gen info)"
    and len: "length (in_scratch info) = sc_reclength (fs_core share)"
  obtains core where "fm_delete share info r = Some (share\<lparr> fs_core := core \<rparr>, info\<lparr> in_scratch := r,
       in_update := {HA_STATE_DELETED}, in_current_slot := -1, in_current_hash_slot := -1 \<rparr>, HA_OK)"
    "core_inv core" "quiet core" "rows core = (rows (fs_core share))(in_current_slot info := None)"
    "gens core = (gens (fs_core share))(in_current_slot info \<mapsto> in_current_gen info + 1)" "same_shape (fs_core share) core"
proof -
  let ?i = "in_current_slot info" and ?g = "in_current_gen info"
  obtain sl where sl: "fm_slot (fs_core share) ?i = Some sl" "sl_state sl = FM_SLOT_ACTIVE" "sl_data sl = r" "sl_gen sl = ?g"
    using r by (auto dest!: rows_slot simp: gens_def)
  then have free: "\<not> sl_wlock sl" "\<not> slot_stale sl ?g" using wl by (auto simp: wlocked_def slot_stale_def)
  obtain sc where chk: "fm_read_check share info r = Some (info\<lparr> in_scratch := sc \<rparr>, None)" and lsc: "length sc = sc_reclength (fs_core share)"
    by (rule read_check_ok [OF inv(1) r len])
  show thesis
  proof (cases rule: delete_row_cases [OF inv sl(1) free(1) lsc, of ?g])
    case (1 core)
    then show thesis
      using sl chk by (intro that [of core]) (simp_all add: fm_delete_def fm_delete_tail_def removed_def)
  next
    case 2
    then show thesis using free by simp
  qed
qed

text \<open>Update and delete by a caller that holds the row lock and passes the image that the row has.\<close>

lemma fm_update_locked_cases:
  assumes inv: "core_inv (fs_core share)" "quiet (fs_core share)" and ak: "auto_key_ok share"
    and r: "rows (fs_core share) (in_current_slot info) = Some r" "gens (fs_core share) (in_current_slot info) = Some (in_current_gen info)"
    and len: "length (in_scratch info) = sc_reclength (fs_core share)" "length new = sc_reclength (fs_core share)"
  obtains (ok) c info' where "fm_update_locked K share info r new = Some (share\<lparr> fs_core := c \<rparr>, info', HA_OK)"
      "good_step (fs_core share) ((rows (fs_core share))(in_current_slot info \<mapsto> new)) c"
      "\<nexists>k. refused (fs_core share) r new k" "length (in_scratch info') = sc_reclength (fs_core share)"
  | (dup) c info' where "fm_update_locked K share info r new = Some (share\<lparr> fs_core := c \<rparr>, info', HA_ERR_FOUND_DUPP_KEY)"
      "good_step (fs_core share) (rows (fs_core share)) c" "\<exists>k. refused (fs_core share) r new k"
      "in_errkey info' = int (LEAST k. refused (fs_core share) r new k) + 1"
      "length (in_scratch info') = sc_reclength (fs_core share)"
proof -
  let ?i = "in_current_slot info" and ?g = "in_current_gen info"
  obtain sl where sl: "fm_slot (fs_core share) ?i = Some sl" "sl_data sl = r" "\<not> slot_stale sl ?g"
    using r by (auto dest!: rows_slot simp: gens_def slot_stale_def)
  obtain sc where chk: "fm_read_check share info r = Some (info\<lparr> in_scratch := sc \<rparr>, None)" and lsc: "length sc = sc_reclength (fs_core share)"
    by (rule read_check_ok [OF inv(1) r len(1)])
  show thesis
  proof (cases rule: update_locked_cases [OF inv sl(1) len(2) lsc, where old_rec = r and g = ?g and ek = "Some 0"])
    case 1
    then show ?case using sl(2) by simp
  next
    case (2 c sc')
    have sh: "same_shape (fs_core share) c" using 2(4) by (simp add: good_step_def)
    obtain x where x: "fm_update_auto_increment K (share\<lparr> fs_core := c \<rparr>) new = Some (share\<lparr> fs_core := c\<lparr> sc_auto_inc := x \<rparr> \<rparr>)"
      by (rule auto_inc_update [OF auto_key_shape [OF ak sh]]) simp
    define x' where "x' = (if sc_auto_key c \<noteq> 0 then x else sc_auto_inc c)"
    have t: "(if sc_auto_key c \<noteq> 0 then fm_update_auto_increment K (share\<lparr> fs_core := c \<rparr>) new else Some (share\<lparr> fs_core := c \<rparr>)) =
        Some (share\<lparr> fs_core := c\<lparr> sc_auto_inc := x' \<rparr> \<rparr>)" using x by (simp add: x'_def)
    have "good_step (fs_core share) ((rows (fs_core share))(?i \<mapsto> new)) (c\<lparr> sc_auto_inc := x' \<rparr>)"
      using 2(4) by (simp add: good_step_def same_shape_trans_auto)
    then show thesis
      using 2 chk t by (intro ok [where c = "c\<lparr> sc_auto_inc := x' \<rparr>" and
        info' = "info\<lparr> in_scratch := sc', in_update := {HA_STATE_AKTIV}, in_current_hash_slot := -1 \<rparr>"]) (simp_all add: fm_update_locked_def fm_update_tail_def)
  next
    case (3 c sc')
    then show thesis
      using chk by (intro dup [where c = c and
        info' = "info\<lparr> in_scratch := sc', in_errkey := int (LEAST k. refused (fs_core share) r new k) + 1 \<rparr>"]) (simp_all add: fm_update_locked_def fm_update_tail_def fm_core_error_to_ha_def)
  next
    case 4
    then show thesis using sl(3) by simp
  qed
qed

lemma fm_delete_locked_ok:
  assumes inv: "core_inv (fs_core share)" "quiet (fs_core share)"
    and r: "rows (fs_core share) (in_current_slot info) = Some r" "gens (fs_core share) (in_current_slot info) = Some (in_current_gen info)"
    and len: "length (in_scratch info) = sc_reclength (fs_core share)"
  obtains c sl where "fm_delete_locked share info r = Some (share\<lparr> fs_core := c \<rparr>, info\<lparr> in_scratch := r,
       in_update := {HA_STATE_DELETED}, in_current_slot := -1, in_current_hash_slot := -1 \<rparr>, HA_OK)"
    "removed (fs_core share) (in_current_slot info) sl c"
proof -
  let ?i = "in_current_slot info" and ?g = "in_current_gen info"
  obtain sl where sl: "fm_slot (fs_core share) ?i = Some sl" "sl_data sl = r" "\<not> slot_stale sl ?g"
    using r by (auto dest!: rows_slot simp: gens_def slot_stale_def)
  obtain sc where chk: "fm_read_check share info r = Some (info\<lparr> in_scratch := sc \<rparr>, None)" and lsc: "length sc = sc_reclength (fs_core share)"
    by (rule read_check_ok [OF inv(1) r len])
  show thesis
  proof (cases rule: delete_locked_cases [OF inv sl(1) lsc, of ?g])
    case (1 c)
    then show thesis using sl chk by (intro that [of c sl]) (simp_all add: fm_delete_locked_def fm_delete_tail_def)
  next
    case 2
    then show thesis using sl(3) by simp
  qed
qed

text \<open>C36. Position references. A row that was written is found again by the position taken then, with its image. Once the
  row has been deleted the position yields \<^verbatim>\<open>HA_ERR_RECORD_DELETED\<close> and leaves the buffer alone, also when another
  write has reused the slot.\<close>

theorem position_roundtrip:
  assumes "core_inv (fs_core share)" "quiet (fs_core share)" "wlocked (fs_core share) = {}" "auto_key_ok share"
    and "length r = sc_reclength (fs_core share)" "length r' = length r" "length buf = length r"
    and "length (in_scratch info) = length r" "length (in_scratch other) = length r"
    and "fm_write K share info r = Some (share1, info1, HA_OK)"
  shows "fm_rrnd share1 other buf (fm_set_position info1) = Some (other\<lparr> in_lastinx := -1,
      in_current_slot := in_current_slot info1, in_current_gen := in_current_gen info1, in_current_hash_slot := -1,
      in_update := {HA_STATE_PREV_FOUND, HA_STATE_NEXT_FOUND, HA_STATE_AKTIV} \<rparr>, HA_OK, r) \<and>
    (\<exists>share2 info2. fm_delete share1 info1 r = Some (share2, info2, HA_OK) \<and>
       (\<exists>x. fm_rrnd share2 other buf (fm_set_position info1) = Some (x, HA_ERR_RECORD_DELETED, buf)) \<and>
       (\<exists>share3 info3 e. fm_write K share2 other r' = Some (share3, info3, e) \<and>
          (\<exists>x. fm_rrnd share3 info3 buf (fm_set_position info1) = Some (x, HA_ERR_RECORD_DELETED, buf))))"
proof (cases rule: fm_write_cases [OF assms(1,2,5) assms(8) [unfolded assms(5)] assms(4), of K])
  case (1 core i g sc)
  note 2 = this
  let ?p = "fm_set_position info1"
  have w: "share1 = share\<lparr> fs_core := core \<rparr>" "in_current_slot info1 = i" "in_current_gen info1 = g" "in_scratch info1 = sc"
    using 2(1) assms(10) by auto
  have p: "ref_slot ?p = i" "ref_gen ?p = g" using w by (simp_all add: fm_set_position_def)
  have sh: "sc_reclength core = length r" "wlocked core = {}" using 2(6) assms(3,5) by (simp_all add: same_shape_def)
  have a: "fm_rrnd share1 other buf ?p = Some (other\<lparr> in_lastinx := -1, in_current_slot := in_current_slot info1,
      in_current_gen := in_current_gen info1, in_current_hash_slot := -1,
      in_update := {HA_STATE_PREV_FOUND, HA_STATE_NEXT_FOUND, HA_STATE_AKTIV} \<rparr>, HA_OK, r)"
    using rrnd_hit [of share1 ?p r buf other] 2 w p sh assms(7) by simp
  have cur: "rows (fs_core share1) (in_current_slot info1) = Some r"
    "gens (fs_core share1) (in_current_slot info1) = Some (in_current_gen info1)"
    and inv1: "core_inv (fs_core share1)" "quiet (fs_core share1)" "wlocked (fs_core share1) = {}"
    and lsc: "length (in_scratch info1) = sc_reclength (fs_core share1)"
    using 2 w sh assms(5) by simp_all
  obtain core2 where d: "fm_delete share1 info1 r = Some (share1\<lparr> fs_core := core2 \<rparr>, info1\<lparr> in_scratch := r,
       in_update := {HA_STATE_DELETED}, in_current_slot := -1, in_current_hash_slot := -1 \<rparr>, HA_OK)"
    "core_inv core2" "quiet core2" "gens core2 = (gens (fs_core share1))(in_current_slot info1 \<mapsto> in_current_gen info1 + 1)"
    "same_shape (fs_core share1) core2"
    by (rule fm_delete_ok [OF inv1 cur lsc])
  let ?s2 = "share1\<lparr> fs_core := core2 \<rparr>"
  have g2: "gens core2 i = Some (g + 1)" using d(4) w by simp
  have b: "\<exists>x. fm_rrnd ?s2 other buf ?p = Some (x, HA_ERR_RECORD_DELETED, buf)"
    using rrnd_stale [of ?s2 ?p "g + 1" other buf] d(2) g2 p by simp
  have ak2: "auto_key_ok ?s2"
    using auto_key_shape [OF auto_key_shape [OF assms(4) 2(6)], of core2] d(5) w(1) by simp
  have l2: "sc_reclength core2 = length r" using d(5) sh w(1) by (simp add: same_shape_def)
  have "\<exists>share3 info3 e. fm_write K ?s2 other r' = Some (share3, info3, e) \<and> core_inv (fs_core share3) \<and>
      gens core2 \<subseteq>\<^sub>m gens (fs_core share3)"
    using d(2,3) l2 assms(6,9)
    by (cases rule: fm_write_cases [of ?s2 r' other K, OF _ _ _ _ ak2]) auto
  then obtain share3 info3 e where c: "fm_write K ?s2 other r' = Some (share3, info3, e)" "core_inv (fs_core share3)"
    "gens core2 \<subseteq>\<^sub>m gens (fs_core share3)" by blast
  have "gens (fs_core share3) i = Some (g + 1)" using c(3) g2 by (metis domI map_le_def)
  then have "\<exists>x. fm_rrnd share3 info3 buf ?p = Some (x, HA_ERR_RECORD_DELETED, buf)"
    using rrnd_stale [of share3 ?p "g + 1" info3 buf] c(2) p by simp
  with a b c d(1) show ?thesis by blast
next
  case (2 core e sc ek)
  then show ?thesis using assms(10) by simp
qed


text \<open>The example table with a handle on it.\<close>

definition ex_korr :: my_korr where
  "ex_korr = \<lparr> num_type = (\<lambda>_. NT_OTHER), sint2korr = (\<lambda>_. 0), u2korr = (\<lambda>_. 0), sint4korr = (\<lambda>_. 0), uint4korr = (\<lambda>_. 0),
     sint3korr = (\<lambda>_. 0), uint3korr = (\<lambda>_. 0), sint8korr = (\<lambda>_. 0), uint8korr = (\<lambda>_. 0), float4_value = (\<lambda>_. 0), float8_value = (\<lambda>_. 0) \<rparr>"

definition ex_fm_share :: "FM_SHARE_CORE \<Rightarrow> FM_SHARE" where
  "ex_fm_share core = \<lparr> fs_name = ''t'', fs_core = core, fs_keydef = [ex_keydef], fs_max_key_length = 1, fs_open_count = 1,
     fs_delete_on_close = False, fs_internal = False, fs_create_time = 0, fs_open_list = [1] \<rparr>"

definition ex_info :: FM_INFO where
  "ex_info = \<lparr> in_s = 0, in_current_slot = -1, in_current_gen = 0, in_current_hash_slot = -1, in_lastinx = -1, in_errkey = -1,
     in_update = {}, in_readcheck = False, in_mode = 0, in_scan_pos = 0, in_lastkey_len = 0, in_lastkey = [0], in_scratch = [0],
     in_open_listed = True \<rparr>"

lemma ex_fm_share_core [simp]: "fs_core (ex_fm_share core) = core" "in_scratch ex_info = [0]" "fs_keydef (ex_fm_share core) = [ex_keydef]"
  by (simp_all add: ex_fm_share_def ex_info_def)

lemma ex_auto_key: "sc_auto_key ex_empty = 0"
  by (simp add: ex_empty_wired(2) wire_keys_def fm_core_init_share_def ops_alloc_def zero_share_def init_key_def Let_def)

lemma ex_write:
  obtains share1 info1 where "fm_write ex_korr (ex_fm_share ex_empty) ex_info [7] = Some (share1, info1, HA_OK)"
proof -
  have nc: "\<forall>k < sc_keys ex_empty. \<not> conflict (kstat ex_empty k) (rows ex_empty) [7]"
    by (simp add: conflict_def ex_empty_table)
  obtain s' i sc where s: "fm_core_insert_row ex_empty [7] (-1) (Some 0) [0] = Some (s', FM_ERR_OK, i, Some 0, sc)"
    "core_inv s'" "quiet s'" "rows ex_empty i = None" "rows s' = (rows ex_empty)(i \<mapsto> [7])" "same_shape ex_empty s'"
    by (rule insert_row_succeeds [OF ex_empty_table(1,2) _ _ _ ex_empty_alloc(1) nc, where scratch = "[0]"])
      (simp_all add: ex_empty_table ex_empty_alloc)
  obtain g where "gens s' i = Some g" using core_refs.kept [OF s(2), of i "[7]"] s(5) by auto
  moreover have "sc_auto_key s' = 0" using s(6) ex_auto_key by (simp add: same_shape_def lasting_def)
  ultimately show thesis using s(1) that by (simp add: fm_write_def fm_slot_gen_def)
qed

theorem position_roundtrip_witness:
  "\<exists>share1 info1. fm_write ex_korr (ex_fm_share ex_empty) ex_info [7] = Some (share1, info1, HA_OK) \<and>
     (\<exists>x. fm_rrnd share1 ex_info [0] (fm_set_position info1) = Some (x, HA_OK, [7])) \<and>
     (\<exists>share2 info2 x. fm_delete share1 info1 [7] = Some (share2, info2, HA_OK) \<and>
        fm_rrnd share2 ex_info [0] (fm_set_position info1) = Some (x, HA_ERR_RECORD_DELETED, [0]))"
proof -
  obtain share1 info1 where w: "fm_write ex_korr (ex_fm_share ex_empty) ex_info [7] = Some (share1, info1, HA_OK)"
    by (rule ex_write)
  have "auto_key_ok (ex_fm_share ex_empty)" by (simp add: auto_key_ok_def ex_auto_key)
  from position_roundtrip [OF _ _ _ this _ _ _ _ _ w, where r' = "[9]" and buf = "[0]" and other = ex_info] w
  show ?thesis by (auto simp: ex_empty_table)
qed

end
