(* ===== verification/FM_Sessions.thy ===== *)
theory FM_Sessions
  imports FM_Handler FM_Data_Laws
begin

text \<open>
  Any number of handlers on one table. A step is one call of a handler, and a read of a write statement is
  two steps: the lookup, and the row lock with the second read, with the calls of other handlers in between.
  A call that waits for a row lock is no step until the lock is free. The invariant is the purpose of the row
  locks: between its read and its update a write statement finds the row as it has read it.
\<close>

section \<open>State\<close>

text \<open>\<open>ss_pending\<close>: the lookup of a read has found a row, the lock is still to be taken; the code to return if the
  row is gone by then, and the record buffer. \<open>ss_image\<close>: the image that the last read put into the record buffer under
  the row lock.\<close>

record session =
  ss_info :: FM_INFO
  ss_h :: ha_fastmem
  ss_pending :: "(ha_err \<times> image) option"
  ss_image :: "image option"

record engine =
  en_share :: FM_SHARE
  en_ses :: "nat \<Rightarrow> session"

abbreviation en_core :: "engine \<Rightarrow> FM_SHARE_CORE" where
  "en_core E \<equiv> fs_core (en_share E)"

definition set_ses :: "engine \<Rightarrow> nat \<Rightarrow> FM_SHARE \<Rightarrow> session \<Rightarrow> engine" where
  "set_ses E t share x = E\<lparr> en_share := share, en_ses := (en_ses E)(t := x) \<rparr>"

section \<open>Steps\<close>

text \<open>The lookups of the read methods, and the early return of \<^verbatim>\<open>index_next\<close> when there was none before.\<close>

inductive lookup :: "FM_SHARE \<Rightarrow> FM_INFO \<Rightarrow> image \<Rightarrow> FM_SHARE \<Rightarrow> FM_INFO \<Rightarrow> ha_err \<Rightarrow> image \<Rightarrow> ha_err \<Rightarrow> bool" where
  index_read: "inx < sc_keys (fs_core share) \<Longrightarrow> fm_find_key share info inx key buf = Some (share', info', rc, buf') \<Longrightarrow>
    lookup share info buf share' info' rc buf' HA_ERR_KEY_NOT_FOUND"
| index_next: "0 \<le> in_lastinx info \<Longrightarrow> nat (in_lastinx info) < sc_keys (fs_core share) \<Longrightarrow>
    fm_find_next_key share info (nat (in_lastinx info)) (in_lastkey info) (in_current_slot info) buf =
      Some (share', info', rc, buf') \<Longrightarrow>
    lookup share info buf share' info' rc buf' HA_ERR_KEY_NOT_FOUND"
| no_index: "in_lastinx info < 0 \<Longrightarrow> lookup share info buf share info HA_ERR_WRONG_INDEX buf HA_ERR_KEY_NOT_FOUND"
| unique: "inx < sc_keys (fs_core share) \<Longrightarrow> unique_lookup Env share info buf inx = Some (share', info', rc, buf') \<Longrightarrow>
    lookup share info buf share' info' rc buf' HA_ERR_KEY_NOT_FOUND"
| scan: "fm_scan share info buf = Some (info', rc, buf') \<Longrightarrow> lookup share info buf share info' rc buf' HA_ERR_RECORD_DELETED"
| rrnd: "fm_rrnd share info buf pos = Some (info', rc, buf') \<Longrightarrow> lookup share info buf share info' rc buf' HA_ERR_RECORD_DELETED"

text \<open>The server's part of the auto-increment column does not touch the table.\<close>

definition auto_frame :: "(FM_SHARE \<Rightarrow> image \<Rightarrow> FM_SHARE \<times> image \<times> ha_err) option \<Rightarrow> bool" where
  "auto_frame auto = (case auto of None \<Rightarrow> True
     | Some f \<Rightarrow> \<forall>share buf. length (fst (snd (f share buf))) = length buf \<and>
         (\<exists>x. fst (f share buf) = share\<lparr> fs_core := (fs_core share)\<lparr> sc_auto_inc := x \<rparr> \<rparr>))"

text \<open>\<open>relock\<close> is the defensive path of \<^verbatim>\<open>update_row\<close> and \<^verbatim>\<open>delete_row\<close>: a write statement that has no row lock
  takes the one of its current row. The rule is for a row that is still the one that the handle refers to, and the
  caller's image of it is then the current one, as after a read; what such a call returns otherwise is in the
  theorem on the row lock in \<^verbatim>\<open>FM_Session_Runs\<close>. There is no step for \<^verbatim>\<open>extra\<close>: with
  \<^verbatim>\<open>HA_EXTRA_CHANGE_KEY_TO_UNIQUE\<close> it declares the keys unique without a check of the rows, which keeps the invariant
  only for rows that are unique already.\<close>

inductive ses_step :: "engine \<Rightarrow> engine \<Rightarrow> bool" where
  statement: "x = en_ses E t \<Longrightarrow> external_lock (en_share E) (ss_h x) ty = Some (share, h) \<Longrightarrow>
    ses_step E (set_ses E t share (x\<lparr> ss_h := h, ss_pending := None, ss_image := (if ty = F_UNLCK then None else ss_image x) \<rparr>))"
| read_plain: "x = en_ses E t \<Longrightarrow> length buf = sc_reclength (en_core E) \<Longrightarrow>
    lookup (en_share E) (ss_info x) buf share info rc buf' gone \<Longrightarrow> rc \<noteq> HA_OK \<or> \<not> h_write_stmt (ss_h x) \<Longrightarrow>
    ses_step E (set_ses E t share (x\<lparr> ss_info := info, ss_pending := None, ss_image := None \<rparr>))"
| read_lookup: "x = en_ses E t \<Longrightarrow> length buf = sc_reclength (en_core E) \<Longrightarrow>
    lookup (en_share E) (ss_info x) buf share info HA_OK buf' gone \<Longrightarrow> h_write_stmt (ss_h x) \<Longrightarrow>
    ses_step E (set_ses E t share (x\<lparr> ss_info := info, ss_pending := Some (gone, buf'), ss_image := None \<rparr>))"
| read_lock: "x = en_ses E t \<Longrightarrow> ss_pending x = Some (gone, buf) \<Longrightarrow>
    lock_and_reread gone (en_share E) (ss_info x) (ss_h x) buf = Some (share, info, h, rc, buf') \<Longrightarrow>
    ses_step E (set_ses E t share (x\<lparr> ss_info := info, ss_h := h, ss_pending := None,
      ss_image := (if rc = HA_OK then Some buf' else None) \<rparr>))"
| relock: "x = en_ses E t \<Longrightarrow> h_write_stmt (ss_h x) \<Longrightarrow> 0 \<le> in_current_slot (ss_info x) \<Longrightarrow> \<not> h_row_locked (ss_h x) \<Longrightarrow>
    lock_current_row (en_share E) (ss_info x) (ss_h x) = Some (share, h) \<Longrightarrow>
    rows (fs_core share) (in_current_slot (ss_info x)) = Some r \<Longrightarrow>
    gens (fs_core share) (in_current_slot (ss_info x)) = Some (in_current_gen (ss_info x)) \<Longrightarrow>
    ses_step E (set_ses E t share (x\<lparr> ss_h := h, ss_pending := None, ss_image := Some r \<rparr>))"
| write_call: "x = en_ses E t \<Longrightarrow> length buf = sc_reclength (en_core E) \<Longrightarrow> auto_frame auto \<Longrightarrow>
    write_row K auto (en_share E) (ss_info x) buf = Some (share, info, rc, buf') \<Longrightarrow>
    ses_step E (set_ses E t share (x\<lparr> ss_info := info, ss_pending := None, ss_image := None \<rparr>))"
| update: "x = en_ses E t \<Longrightarrow> ss_image x = Some old_data \<Longrightarrow> length new_data = sc_reclength (en_core E) \<Longrightarrow>
    update_row K (en_share E) (ss_info x) (ss_h x) old_data new_data = Some (share, info, h, rc) \<Longrightarrow>
    ses_step E (set_ses E t share (x\<lparr> ss_info := info, ss_h := h, ss_pending := None, ss_image := None \<rparr>))"
| delete: "x = en_ses E t \<Longrightarrow> ss_image x = Some buf \<Longrightarrow>
    delete_row (en_share E) (ss_info x) (ss_h x) buf = Some (share, info, h, rc) \<Longrightarrow>
    ses_step E (set_ses E t share (x\<lparr> ss_info := info, ss_h := h, ss_pending := None, ss_image := None \<rparr>))"
| rnd_init: "x = en_ses E t \<Longrightarrow> rnd_init (en_share E) (ss_info x) (ss_h x) scan = Some (share, info, h) \<Longrightarrow>
    ses_step E (set_ses E t share (x\<lparr> ss_info := info, ss_h := h, ss_pending := None, ss_image := None \<rparr>))"
| reset: "x = en_ses E t \<Longrightarrow> ha_reset (en_share E) (ss_info x) (ss_h x) = Some (share, info, h) \<Longrightarrow>
    ses_step E (set_ses E t share (x\<lparr> ss_info := info, ss_h := h, ss_pending := None, ss_image := None \<rparr>))"
| clear: "x = en_ses E t \<Longrightarrow>
    delete_all_rows (en_share E) (ss_info x) (ss_h x) = Some (share, info, h) \<Longrightarrow>
    ses_step E (set_ses E t share (x\<lparr> ss_info := info, ss_h := h, ss_pending := None, ss_image := None \<rparr>))"
| auto_inc: "ses_step E (E\<lparr> en_share := (en_share E)\<lparr> fs_core := (en_core E)\<lparr> sc_auto_inc := v \<rparr> \<rparr> \<rparr>)"

section \<open>The invariant\<close>

text \<open>What a session holds.\<close>

definition locks_of :: "session \<Rightarrow> fm_i32 set" where
  "locks_of x = (if h_row_locked (ss_h x) then {h_locked_slot (ss_h x)} else {})"

definition session_ok :: "FM_SHARE_CORE \<Rightarrow> session \<Rightarrow> bool" where
  "session_ok s x = (length (in_scratch (ss_info x)) = sc_reclength s \<and>
     (\<forall>gone buf. ss_pending x = Some (gone, buf) \<longrightarrow> h_write_stmt (ss_h x) \<and> gone \<noteq> HA_OK \<and> length buf = sc_reclength s) \<and>
     (\<forall>r. ss_image x = Some r \<longrightarrow> h_write_stmt (ss_h x) \<and> holds_row (ss_info x) (ss_h x) \<and>
        rows s (in_current_slot (ss_info x)) = Some r \<and>
        gens s (in_current_slot (ss_info x)) = Some (in_current_gen (ss_info x))))"

text \<open>The row locks are those of the sessions, each held by one.\<close>

definition ses_inv :: "engine \<Rightarrow> bool" where
  "ses_inv E = (core_inv (en_core E) \<and> quiet (en_core E) \<and> auto_key_ok (en_share E) \<and>
     wlocked (en_core E) = (\<Union>t. locks_of (en_ses E t)) \<and>
     (\<forall>t u. t \<noteq> u \<longrightarrow> locks_of (en_ses E t) \<inter> locks_of (en_ses E u) = {}) \<and>
     (\<forall>t. session_ok (en_core E) (en_ses E t)))"


text \<open>One session moves: its locks are exchanged, and rows under the locks of others stay.\<close>

lemma ses_inv_move:
  assumes inv: "ses_inv E" and x: "x = en_ses E t"
    and c: "core_inv c" "quiet c" "sc_auto_key c = sc_auto_key (en_core E)" "sc_reclength c = sc_reclength (en_core E)"
    and wl: "wlocked c = (wlocked (en_core E) - locks_of x) \<union> locks_of x'" "locks_of x' \<inter> (wlocked (en_core E) - locks_of x) = {}"
    and keep: "\<And>i r. i \<in> wlocked (en_core E) - locks_of x \<Longrightarrow> rows (en_core E) i = Some r \<Longrightarrow>
      rows c i = Some r \<and> gens c i = gens (en_core E) i"
    and ok: "session_ok c x'"
  shows "ses_inv (set_ses E t ((en_share E)\<lparr> fs_core := c \<rparr>) x')" (is "ses_inv ?E")
proof -
  have I: "wlocked (en_core E) = (\<Union>u. locks_of (en_ses E u))" "auto_key_ok (en_share E)"
    "\<And>u v. u \<noteq> v \<Longrightarrow> locks_of (en_ses E u) \<inter> locks_of (en_ses E v) = {}" "\<And>u. session_ok (en_core E) (en_ses E u)"
    using inv unfolding ses_inv_def by auto
  have others: "wlocked (en_core E) - locks_of x = (\<Union>u \<in> - {t}. locks_of (en_ses E u))"
    unfolding I(1) x using I(3) by blast
  have ses: "en_ses ?E u = (if u = t then x' else en_ses E u)" for u by (simp add: set_ses_def)
  have "session_ok c (en_ses E u)" if u: "u \<noteq> t" for u
  proof -
    have s: "session_ok (en_core E) (en_ses E u)" by (rule I(4))
    have "in_current_slot (ss_info (en_ses E u)) \<in> wlocked (en_core E) - locks_of x" if "ss_image (en_ses E u) = Some r" for r
    proof -
      have "in_current_slot (ss_info (en_ses E u)) \<in> locks_of (en_ses E u)"
        using s that by (simp add: session_ok_def locks_of_def holds_row_def)
      then show ?thesis using u unfolding others by blast
    qed
    then show ?thesis using s keep c(4) unfolding session_ok_def by (metis option.sel)
  qed
  then have "\<forall>u. session_ok c (en_ses ?E u)" using ok ses by simp
  moreover have "wlocked c = (\<Union>u. locks_of (en_ses ?E u))"
    unfolding wl(1) others ses by (auto split: if_splits)
  moreover have "locks_of (en_ses ?E u) \<inter> locks_of (en_ses ?E v) = {}" if "u \<noteq> v" for u v
    using that wl(2) I(3) [OF that] unfolding others ses by (cases "u = t"; cases "v = t") auto
  moreover have "auto_key_ok (en_share ?E)" using I(2) c(3) by (simp add: set_ses_def auto_key_ok_def)
  ultimately show ?thesis using c(1,2) unfolding ses_inv_def by (simp add: set_ses_def)
qed

section \<open>The row lock\<close>

text \<open>A core that differs in row locks only.\<close>

definition calm :: "FM_SHARE_CORE \<Rightarrow> FM_SHARE_CORE \<Rightarrow> bool" where
  "calm s s' = (core_inv s' \<and> quiet s' \<and> rows s' = rows s \<and> gens s' = gens s \<and> sc_reclength s' = sc_reclength s \<and>
     sc_keys s' = sc_keys s \<and> sc_auto_key s' = sc_auto_key s)"

lemma calm_refl: "core_inv s \<Longrightarrow> quiet s \<Longrightarrow> calm s s"
  by (simp add: calm_def)

lemma calm_trans: "calm s t \<Longrightarrow> calm t u \<Longrightarrow> calm s u"
  by (simp add: calm_def)

lemma calm_wlock:
  assumes "core_inv s" "quiet s" and sl: "fm_slot s i = Some sl"
  shows "calm s (upd_slot s i (sl\<lparr> sl_wlock := b \<rparr>))"
    "wlocked (upd_slot s i (sl\<lparr> sl_wlock := b \<rparr>)) = (if b then insert i (wlocked s) else wlocked s - {i})"
proof -
  have rw: "rewrite_ok s sl (sl\<lparr> sl_wlock := b \<rparr>)" by (simp add: rewrite_ok_def)
  show "calm s (upd_slot s i (sl\<lparr> sl_wlock := b \<rparr>))"
    using rewrite_inv [OF assms(1) sl rw] assms(2) by (simp add: calm_def quiet_def held_def)
  show "wlocked (upd_slot s i (sl\<lparr> sl_wlock := b \<rparr>)) = (if b then insert i (wlocked s) else wlocked s - {i})"
    using sl by (auto simp: wlocked_def)
qed

definition lock_set :: "ha_fastmem \<Rightarrow> fm_i32 set" where
  "lock_set h = (if h_row_locked h then {h_locked_slot h} else {})"

lemma locks_of_set: "locks_of x = lock_set (ss_h x)"
  by (simp add: locks_of_def lock_set_def)

lemma unlock_row_ok:
  assumes inv: "core_inv (fs_core share)" "quiet (fs_core share)" and run: "unlock_current_row share h = Some (share', h')"
  obtains c where "share' = share\<lparr> fs_core := c \<rparr>" "calm (fs_core share) c" "wlocked c = wlocked (fs_core share) - lock_set h"
    "\<not> h_row_locked h'" "h_write_stmt h' = h_write_stmt h"
proof (cases "h_row_locked h")
  case False
  then show thesis
    using run inv by (intro that [of "fs_core share"]) (auto simp: unlock_current_row_def calm_refl lock_set_def)
next
  case True
  then obtain sl where sl: "fm_slot (fs_core share) (h_locked_slot h) = Some sl"
    using run by (auto simp: unlock_current_row_def unlock_slot_def bind_eq_Some_conv)
  have r: "share' = share\<lparr> fs_core := upd_slot (fs_core share) (h_locked_slot h) (sl\<lparr> sl_wlock := False \<rparr>) \<rparr>"
    "h' = h\<lparr> h_row_locked := False, h_locked_slot := -1 \<rparr>"
    using run True unlock_slot_run [OF sl] by (simp_all add: unlock_current_row_def)
  show thesis
    by (rule that [OF r(1) calm_wlock(1) [OF inv sl]]) (use True calm_wlock(2) [OF inv sl, of False] r(2) in \<open>simp_all add: lock_set_def\<close>)
qed

lemma lock_row_ok:
  assumes inv: "core_inv (fs_core share)" "quiet (fs_core share)" and slot: "0 \<le> in_current_slot info"
    and held: "lock_set h \<subseteq> wlocked (fs_core share)" and run: "lock_current_row share info h = Some (share', h')"
  obtains c where "share' = share\<lparr> fs_core := c \<rparr>" "calm (fs_core share) c"
    "wlocked c = (wlocked (fs_core share) - lock_set h) \<union> lock_set h'"
    "lock_set h' \<inter> (wlocked (fs_core share) - lock_set h) = {}" "holds_row info h'" "h_write_stmt h' = h_write_stmt h"
proof (cases "h_row_locked h \<and> h_locked_slot h = in_current_slot info")
  case True
  then show thesis
    using run inv slot held
    by (intro that [of "fs_core share"]) (auto simp: lock_current_row_def calm_refl holds_row_def)
next
  case False
  obtain share1 h1 core where u: "unlock_current_row share h = Some (share1, h1)"
    and l: "lock_slot (fs_core share1) (in_current_slot info) = Some core"
    and r: "share' = share1\<lparr> fs_core := core \<rparr>" "h' = h1\<lparr> h_row_locked := True, h_locked_slot := in_current_slot info \<rparr>"
    using run slot False by (auto simp: lock_current_row_def bind_eq_Some_conv split: if_splits)
  obtain c where c: "share1 = share\<lparr> fs_core := c \<rparr>" "calm (fs_core share) c" "wlocked c = wlocked (fs_core share) - lock_set h"
    "\<not> h_row_locked h1" "h_write_stmt h1 = h_write_stmt h"
    by (rule unlock_row_ok [OF inv u])
  have ci: "core_inv c" "quiet c" using c(2) by (simp_all add: calm_def)
  obtain sl where sl: "fm_slot c (in_current_slot info) = Some sl" "\<not> sl_wlock sl"
    "core = upd_slot c (in_current_slot info) (sl\<lparr> sl_wlock := True \<rparr>)"
    using l c(1) by (auto simp: lock_slot_def spin_lock_def bind_eq_Some_conv split: if_splits)
  have "in_current_slot info \<notin> wlocked c" using sl by (simp add: wlocked_def)
  then show thesis
    using calm_trans [OF c(2) calm_wlock(1) [OF ci sl(1), of True]] calm_wlock(2) [OF ci sl(1), of True] c r sl(3)
    by (intro that [of core]) (auto simp: lock_set_def holds_row_def)
qed


section \<open>Lookups\<close>

text \<open>Reads keep the length of the record buffer.\<close>

lemma read_row_length:
  "fm_core_read_row s i c g buf = Some (rc, b) \<Longrightarrow> slots_ok s \<Longrightarrow> length buf = sc_reclength s \<Longrightarrow> length b = sc_reclength s"
  by (auto simp: fm_core_read_row_def slots_ok_def slot_ok_def bind_eq_Some_conv memcpy_def split: if_splits)

lemma scan_loop_length:
  "scan_loop s n pos buf = Some (rc, p, b) \<Longrightarrow> slots_ok s \<Longrightarrow> length buf = sc_reclength s \<Longrightarrow> length b = sc_reclength s"
proof (induction s n pos buf rule: scan_loop.induct)
  case (1 s n pos buf)
  show ?case
  proof (cases "pos < n")
    case True
    then obtain rc1 b1 where r: "fm_core_read_row s (fm_i32_of pos) False 0 buf = Some (rc1, b1)"
      using 1(2) by (subst (asm) scan_loop.simps) (auto simp: bind_eq_Some_conv)
    have l: "length b1 = sc_reclength s" by (rule read_row_length [OF r 1(3,4)])
    show ?thesis
    proof (cases "rc1 = FM_ERR_OK")
      case True
      then show ?thesis using 1(2) r l \<open>pos < n\<close> by (subst (asm) scan_loop.simps) simp
    next
      case False
      then have "scan_loop s n (pos + 1) b1 = Some (rc, p, b)" using 1(2) r \<open>pos < n\<close> by (subst (asm) scan_loop.simps) simp
      then show ?thesis using 1(1) [OF \<open>pos < n\<close> refl r refl False] 1(3) l by simp
    qed
  next
    case False
    then show ?thesis using 1(2,4) by (subst (asm) scan_loop.simps) simp
  qed
qed

definition keeps_length :: "FM_SHARE_CORE \<Rightarrow> image \<Rightarrow> image \<Rightarrow> bool" where
  "keeps_length s buf b = (slots_ok s \<longrightarrow> length buf = sc_reclength s \<longrightarrow> length b = sc_reclength s)"

lemma find_loop_length: "find_loop s k kc key h buf = Some y \<Longrightarrow> keeps_length s buf (fst (snd y))"
proof (erule find_loop.raw_induct [where P = "\<lambda>s k kc key h buf y. keeps_length s buf (fst (snd y))", rotated])
  fix f :: "FM_SHARE_CORE \<Rightarrow> nat \<Rightarrow> FM_KEY_CORE \<Rightarrow> image \<Rightarrow> fm_i32 \<Rightarrow> image \<Rightarrow> (fm_err \<times> image \<times> fm_i32) option"
    and s k kc key h buf y
  assume IH: "\<And>s k kc key h buf y. f s k kc key h buf = Some y \<Longrightarrow> keeps_length s buf (fst (snd y))"
    and "(if h = FM_NULL_SLOT then Some (FM_ERR_NOT_FOUND, buf, h)
      else do {
        (rc, buf) \<leftarrow> fm_core_read_row s h False 0 buf;
        c \<leftarrow> (if rc = FM_ERR_OK then cmp_key kc buf key else Some 1);
        if rc = FM_ERR_OK \<and> c = 0 then Some (FM_ERR_OK, buf, h)
        else do { n \<leftarrow> fm_key_next s k h; f s k kc key n buf } }) = Some y"
  then show "keeps_length s buf (fst (snd y))"
    by (auto simp: bind_eq_Some_conv split: if_splits dest!: IH) (auto simp: keeps_length_def dest: read_row_length)
qed

lemma find_next_loop_length: "find_next_loop s k kc key cur after h buf = Some y \<Longrightarrow> keeps_length s buf (fst (snd y))"
proof (erule find_next_loop.raw_induct [where P = "\<lambda>s k kc key cur after h buf y. keeps_length s buf (fst (snd y))", rotated])
  fix f :: "FM_SHARE_CORE \<Rightarrow> nat \<Rightarrow> FM_KEY_CORE \<Rightarrow> image \<Rightarrow> fm_i32 \<Rightarrow> bool \<Rightarrow> fm_i32 \<Rightarrow> image \<Rightarrow> (fm_err \<times> image \<times> fm_i32) option"
    and s k kc key cur after h buf y
  assume IH: "\<And>s k kc key cur after h buf y. f s k kc key cur after h buf = Some y \<Longrightarrow> keeps_length s buf (fst (snd y))"
    and "(if h = FM_NULL_SLOT then Some (FM_ERR_NOT_FOUND, buf, h)
      else if h = cur then do {
        n \<leftarrow> fm_key_next s k h; f s k kc key cur True n buf }
      else if after then do {
        (rc, buf) \<leftarrow> fm_core_read_row s h False 0 buf;
        c \<leftarrow> (if rc = FM_ERR_OK then cmp_key kc buf key else Some 1);
        if rc = FM_ERR_OK \<and> c = 0 then Some (FM_ERR_OK, buf, h)
        else do { n \<leftarrow> fm_key_next s k h; f s k kc key cur after n buf } }
      else do { n \<leftarrow> fm_key_next s k h; f s k kc key cur after n buf }) = Some y"
  then show "keeps_length s buf (fst (snd y))"
    by (auto simp: bind_eq_Some_conv split: if_splits dest!: IH) (auto simp: keeps_length_def dest: read_row_length)
qed

lemma find_length:
  assumes inv: "core_inv s" "quiet s" "k < sc_keys s" and len: "length buf = sc_reclength s"
    and run: "fm_core_find s k key buf out = Some (s', e, b, i) \<or> fm_core_find_next s k key cur buf out = Some (s', e, b, i)"
  shows "length b = sc_reclength s"
proof -
  obtain t kc h0 where w: "slots_ok t" "sc_reclength t = sc_reclength s"
    "\<And>buf out. fm_core_find s k key buf out = finish s out (find_loop t k kc key h0 buf)"
    "\<And>cur buf out. fm_core_find_next s k key cur buf out = finish s out (find_next_loop t k kc key cur False h0 buf)"
    by (rule lookup_walk [OF inv, where key = key]) blast
  obtain e i where "find_loop t k kc key h0 buf = Some (e, b, i) \<or> find_next_loop t k kc key cur False h0 buf = Some (e, b, i)"
    using run unfolding w(3,4) finish_def by (auto simp: bind_eq_Some_conv)
  then have "keeps_length t buf b" using find_loop_length find_next_loop_length by fastforce
  then show ?thesis using w(1,2) len by (simp add: keeps_length_def)
qed

lemma unique_lookup_frame:
  assumes inv: "core_inv (fs_core share)" "quiet (fs_core share)" and k: "k < sc_keys (fs_core share)"
    and len: "length (in_scratch info) = sc_reclength (fs_core share)"
    and run: "unique_lookup E share info buf k = Some (share', info', rc, buf')"
  shows "share' = share \<and> length (in_scratch info') = sc_reclength (fs_core share) \<and>
    (length buf = sc_reclength (fs_core share) \<longrightarrow> length buf' = sc_reclength (fs_core share))"
proof (cases "HA_NOSAME \<in> kd_flag (fs_keydef share ! k)")
  case False
  then show ?thesis using run len by (auto simp: unique_lookup_def Let_def split: if_splits)
next
  case True
  define packed where "packed = fm_make_key E (fs_keydef share ! k) buf"
  define key where "key = memcpy (in_lastkey info) packed (length packed)"
  have lt: "k < length (fs_keydef share)" using run by (auto simp: unique_lookup_def split: if_splits)
  have "fm_core_find (fs_core share) k key (in_scratch info) (-1) \<noteq> None"
  proof
    assume "fm_core_find (fs_core share) k key (in_scratch info) (-1) = None"
    then show False using run True lt by (simp add: unique_lookup_def Let_def key_def packed_def)
  qed
  then obtain core e sc i where f: "fm_core_find (fs_core share) k key (in_scratch info) (-1) = Some (core, e, sc, i)"
    by (metis option.exhaust_sel prod_cases4)
  have c: "core = fs_core share" using lookup_unchanged(1) [OF inv k f] .
  have sc: "length sc = sc_reclength (fs_core share)" using find_length [OF inv k len disjI1 [OF f]] .
  show ?thesis
  proof (cases "e = FM_ERR_OK")
    case False
    then show ?thesis using run True lt f c sc by (auto simp: unique_lookup_def Let_def key_def packed_def)
  next
    case ok: True
    then obtain g where "gens (fs_core share) i = Some g"
      using run True lt f c by (cases "gens (fs_core share) i") (simp_all add: unique_lookup_def Let_def key_def packed_def fm_slot_gen_def)
    then show ?thesis
      using run True lt f c sc ok by (auto simp: unique_lookup_def Let_def key_def packed_def fm_slot_gen_def memcpy_def)
  qed
qed

lemma lookup_length:
  assumes inv: "core_inv (fs_core share)" "quiet (fs_core share)" and lk: "lookup share info buf share' info' rc buf' gone"
    and len: "length buf = sc_reclength (fs_core share)" and scr: "length (in_scratch info) = sc_reclength (fs_core share)"
  shows "length buf' = sc_reclength (fs_core share)"
proof -
  have S: "slots_ok (fs_core share)" by (rule core_invD(3) [OF inv(1)])
  from lk show ?thesis
  proof cases
    case (index_read inx key)
    then obtain core e i where "fm_core_find (fs_core share) inx key buf (-1) = Some (core, e, buf', i)"
      by (auto simp: fm_find_key_def bind_eq_Some_conv Let_def split: if_splits)
    then show ?thesis by (rule find_length [OF inv index_read(2) len disjI1])
  next
    case index_next
    then obtain core e i where "fm_core_find_next (fs_core share) (nat (in_lastinx info)) (in_lastkey info) (in_current_slot info) buf (-1) =
        Some (core, e, buf', i)"
      by (auto simp: fm_find_next_key_def bind_eq_Some_conv Let_def split: if_splits)
    then show ?thesis by (rule find_length [OF inv index_next(3) len disjI2])
  next
    case no_index
    then show ?thesis using len by simp
  next
    case (unique inx Env)
    then show ?thesis using unique_lookup_frame [OF inv unique(2) scr] len by blast
  next
    case scan
    then show ?thesis
      using scan_loop_length [OF _ S len]
      by (auto simp: fm_scan_def fm_core_scan_next_def bind_eq_Some_conv Let_def split: if_splits)
  next
    case (rrnd pos)
    then show ?thesis
      using read_row_length [OF _ S len] len by (auto simp: fm_rrnd_def bind_eq_Some_conv Let_def split: if_splits)
  qed
qed

section \<open>The steps keep the invariant\<close>

lemma lookup_frame:
  assumes inv: "core_inv (fs_core share)" "quiet (fs_core share)" and lk: "lookup share info buf share' info' rc buf' gone"
    and scr: "length (in_scratch info) = sc_reclength (fs_core share)"
  shows "share' = share" "length (in_scratch info') = sc_reclength (fs_core share)"
proof -
  have same: "share\<lparr> fs_core := fs_core share \<rparr> = share" by simp
  from lk have "share' = share \<and> length (in_scratch info') = sc_reclength (fs_core share)"
  proof cases
    case (index_read inx key)
    then show ?thesis
      using lookup_unchanged(1) [OF inv index_read(2)] scr
      by (fastforce simp: fm_find_key_def bind_eq_Some_conv Let_def split: if_splits)
  next
    case index_next
    then show ?thesis
      using lookup_unchanged(2) [OF inv index_next(3)] scr
      by (fastforce simp: fm_find_next_key_def bind_eq_Some_conv Let_def split: if_splits)
  next
    case (unique inx Env)
    then show ?thesis using unique_lookup_frame [OF inv unique(2) scr] by blast
  next
    case scan
    then show ?thesis using scr by (auto simp: fm_scan_def bind_eq_Some_conv Let_def split: if_splits)
  next
    case (rrnd pos)
    then show ?thesis using scr by (auto simp: fm_rrnd_def bind_eq_Some_conv Let_def split: if_splits)
  qed (use scr in simp)
  then show "share' = share" "length (in_scratch info') = sc_reclength (fs_core share)" by simp_all
qed

lemma ses_invD:
  assumes "ses_inv E"
  shows "core_inv (en_core E)" "quiet (en_core E)" "auto_key_ok (en_share E)"
    "session_ok (en_core E) (en_ses E t)" "lock_set (ss_h (en_ses E t)) \<subseteq> wlocked (en_core E)"
  using assms unfolding ses_inv_def locks_of_set by auto

text \<open>A session that changes neither its locks nor the core.\<close>

lemma ses_inv_same:
  assumes inv: "ses_inv E" and x: "x = en_ses E t" and l: "locks_of x' = locks_of x" and ok: "session_ok (en_core E) x'"
  shows "ses_inv (set_ses E t (en_share E) x')"
proof -
  have "locks_of x \<subseteq> wlocked (en_core E)" using ses_invD(5) [OF inv, of t] by (simp add: x locks_of_set)
  then have "ses_inv (set_ses E t ((en_share E)\<lparr> fs_core := en_core E \<rparr>) x')"
    using ses_invD [OF inv] l ok by (intro ses_inv_move [OF inv x]) auto
  then show ?thesis by simp
qed

text \<open>A session that gives up its lock.\<close>

lemma ses_inv_unlock:
  assumes inv: "ses_inv E" and x: "x = en_ses E t" and run: "unlock_current_row (en_share E) (ss_h x) = Some (share, h)"
    and l: "lock_set (ss_h x') = {}" and ok: "length (in_scratch (ss_info x')) = sc_reclength (en_core E)" "ss_image x' = None"
      "ss_pending x' = None"
  shows "ses_inv (set_ses E t share x')"
proof -
  obtain c where c: "share = (en_share E)\<lparr> fs_core := c \<rparr>" "calm (en_core E) c" "wlocked c = wlocked (en_core E) - lock_set (ss_h x)"
    "\<not> h_row_locked h" "h_write_stmt h = h_write_stmt (ss_h x)"
    by (rule unlock_row_ok [OF ses_invD(1,2) [OF inv] run])
  show ?thesis
    unfolding c(1) using c(2,3) l ok
    by (intro ses_inv_move [OF inv x]) (auto simp: calm_def locks_of_set session_ok_def)
qed

lemma ses_statement:
  assumes inv: "ses_inv E" and x: "x = en_ses E t" and run: "external_lock (en_share E) (ss_h x) ty = Some (share, h)"
  shows "ses_inv (set_ses E t share (x\<lparr> ss_h := h, ss_pending := None, ss_image := (if ty = F_UNLCK then None else ss_image x) \<rparr>))"
proof -
  have ok: "session_ok (en_core E) x" using ses_invD(4) [OF inv] x by simp
  show ?thesis
  proof (cases ty)
    case F_UNLCK
    let ?h = "(ss_h x)\<lparr> h_write_stmt := False \<rparr>"
    have u: "unlock_current_row (en_share E) ?h = Some (share, h)" using run F_UNLCK by (simp add: external_lock_def)
    have nl: "lock_set h = {}" using unlock_row_ok [OF ses_invD(1,2) [OF inv] u] by (auto simp: lock_set_def)
    obtain h2 where "unlock_current_row (en_share E) (ss_h x) = Some (share, h2)"
      using u by (auto simp: unlock_current_row_def bind_eq_Some_conv split: if_splits)
    then show ?thesis using F_UNLCK nl ok by (intro ses_inv_unlock [OF inv x]) (simp_all add: session_ok_def)
  next
    case F_WRLCK
    then have r: "share = en_share E" "h = (ss_h x)\<lparr> h_write_stmt := True \<rparr>" using run by (simp_all add: external_lock_def)
    show ?thesis
      unfolding r by (rule ses_inv_same [OF inv x]) (use F_WRLCK ok in \<open>simp_all add: locks_of_def session_ok_def holds_row_def\<close>)
  next
    case F_RDLCK
    then have r: "share = en_share E" "h = ss_h x" using run by (simp_all add: external_lock_def)
    show ?thesis
      unfolding r by (rule ses_inv_same [OF inv x]) (use F_RDLCK ok in \<open>simp_all add: locks_of_def session_ok_def holds_row_def\<close>)
  qed
qed

lemma ses_read_lock:
  assumes inv: "ses_inv E" and x: "x = en_ses E t" and pend: "ss_pending x = Some (gone, buf)"
    and run: "lock_and_reread gone (en_share E) (ss_info x) (ss_h x) buf = Some (share, info, h, rc, buf')"
  shows "ses_inv (set_ses E t share (x\<lparr> ss_info := info, ss_h := h, ss_pending := None,
      ss_image := (if rc = HA_OK then Some buf' else None) \<rparr>))"
proof -
  have ok: "session_ok (en_core E) x" and ws: "h_write_stmt (ss_h x)" and gone: "gone \<noteq> HA_OK"
    and len: "length buf = sc_reclength (en_core E)"
    using ses_invD(4) [OF inv, of t] x pend by (auto simp: session_ok_def)
  obtain share1 h1 info1 rc1 buf1 where l: "lock_current_row (en_share E) (ss_info x) (ss_h x) = Some (share1, h1)"
    and rr: "fm_reread_locked share1 (ss_info x) buf = Some (info1, rc1, buf1)"
    using run by (auto simp: lock_and_reread_def bind_eq_Some_conv)
  obtain g where g: "gens (fs_core share1) (in_current_slot (ss_info x)) = Some g"
    using rr by (auto simp: fm_reread_locked_def fm_slot_gen_def bind_eq_Some_conv)
  then have pos: "0 \<le> in_current_slot (ss_info x)" by (auto simp: gens_def dest: fm_slot_nonneg)
  have held: "lock_set (ss_h x) \<subseteq> wlocked (en_core E)" using ses_invD(5) [OF inv, of t] x by simp
  obtain c where c: "share1 = (en_share E)\<lparr> fs_core := c \<rparr>" "calm (en_core E) c"
    "wlocked c = (wlocked (en_core E) - lock_set (ss_h x)) \<union> lock_set h1"
    "lock_set h1 \<inter> (wlocked (en_core E) - lock_set (ss_h x)) = {}" "holds_row (ss_info x) h1" "h_write_stmt h1 = h_write_stmt (ss_h x)"
    by (rule lock_row_ok [OF ses_invD(1,2) [OF inv] pos held l])
  have ci: "core_inv c" "quiet c" "sc_reclength c = sc_reclength (en_core E)" using c(2) by (simp_all add: calm_def)
  have gc: "gens c (in_current_slot (ss_info x)) = Some g" and lb: "length buf = sc_reclength c" using g c(1) len ci(3) by simp_all
  show ?thesis
  proof (cases "rows c (in_current_slot (ss_info x))")
    case (Some r)
    have "fm_core_read_row c (in_current_slot (ss_info x)) True g buf = Some (FM_ERR_OK, r)"
      by (rule core_refs.hit [OF ci(1) Some gc]) (use lb in simp)
    then have r: "share = share1" "h = h1" "info = (ss_info x)\<lparr> in_current_gen := g \<rparr>" "rc = HA_OK" "buf' = r"
      using run l c(1) gc by (auto simp: lock_and_reread_def fm_reread_locked_def fm_slot_gen_def)
    show ?thesis
      unfolding r(1) c(1)
      by (rule ses_inv_move [OF inv x])
        (use c ci Some gc r ws ok in \<open>auto simp: calm_def locks_of_set session_ok_def holds_row_def\<close>)
  next
    case None
    have "fm_core_read_row c (in_current_slot (ss_info x)) True g buf = Some (FM_ERR_DELETED, buf)"
      by (rule core_refs.miss [OF ci(1) gc]) (use None in simp)
    then have r: "unlock_current_row share1 h1 = Some (share, h)" "info = ss_info x" "rc = gone"
      using run l c(1) gc by (auto simp: lock_and_reread_def fm_reread_locked_def fm_slot_gen_def bind_eq_Some_conv)
    obtain d where d: "share = share1\<lparr> fs_core := d \<rparr>" "calm (fs_core share1) d" "wlocked d = wlocked (fs_core share1) - lock_set h1"
      "\<not> h_row_locked h" "h_write_stmt h = h_write_stmt h1"
      by (rule unlock_row_ok [OF _ _ r(1)]) (use c(1) ci in simp_all)
    have sd: "share = (en_share E)\<lparr> fs_core := d \<rparr>" using d(1) c(1) by simp
    have cd: "calm (en_core E) d" using calm_trans [OF c(2)] d(2) c(1) by simp
    have wd: "wlocked d = wlocked (en_core E) - lock_set (ss_h x)" using d(3) c(1,3,4) by auto
    show ?thesis
      unfolding sd
      by (rule ses_inv_move [OF inv x])
        (use cd wd d(4) r gone ok in \<open>auto simp: calm_def locks_of_set lock_set_def session_ok_def\<close>)
  qed
qed

lemma ses_relock:
  assumes inv: "ses_inv E" and x: "x = en_ses E t" and ws: "h_write_stmt (ss_h x)" and pos: "0 \<le> in_current_slot (ss_info x)"
    and l: "lock_current_row (en_share E) (ss_info x) (ss_h x) = Some (share, h)"
    and r: "rows (fs_core share) (in_current_slot (ss_info x)) = Some r"
      "gens (fs_core share) (in_current_slot (ss_info x)) = Some (in_current_gen (ss_info x))"
  shows "ses_inv (set_ses E t share (x\<lparr> ss_h := h, ss_pending := None, ss_image := Some r \<rparr>))"
proof -
  have ok: "session_ok (en_core E) x" using ses_invD(4) [OF inv] x by simp
  have held: "lock_set (ss_h x) \<subseteq> wlocked (en_core E)" using ses_invD(5) [OF inv, of t] x by simp
  obtain c where c: "share = (en_share E)\<lparr> fs_core := c \<rparr>" "calm (en_core E) c"
    "wlocked c = (wlocked (en_core E) - lock_set (ss_h x)) \<union> lock_set h"
    "lock_set h \<inter> (wlocked (en_core E) - lock_set (ss_h x)) = {}" "holds_row (ss_info x) h" "h_write_stmt h = h_write_stmt (ss_h x)"
    by (rule lock_row_ok [OF ses_invD(1,2) [OF inv] pos held l])
  show ?thesis
    unfolding c(1)
    by (rule ses_inv_move [OF inv x])
      (use c r ws ok in \<open>auto simp: calm_def locks_of_set session_ok_def holds_row_def\<close>)
qed

lemma ses_read_plain:
  assumes inv: "ses_inv E" and x: "x = en_ses E t" and lk: "lookup (en_share E) (ss_info x) buf share info rc buf' gone"
  shows "ses_inv (set_ses E t share (x\<lparr> ss_info := info, ss_pending := None, ss_image := None \<rparr>))"
proof -
  have ok: "session_ok (en_core E) x" using ses_invD(4) [OF inv] x by simp
  then have scr: "length (in_scratch (ss_info x)) = sc_reclength (en_core E)" by (simp add: session_ok_def)
  note f = lookup_frame [OF ses_invD(1,2) [OF inv] lk scr]
  show ?thesis
    unfolding f(1) by (intro ses_inv_same [OF inv x]) (use f(2) in \<open>simp_all add: locks_of_def session_ok_def\<close>)
qed

lemma ses_read_lookup:
  assumes inv: "ses_inv E" and x: "x = en_ses E t" and lk: "lookup (en_share E) (ss_info x) buf share info HA_OK buf' gone"
    and ws: "h_write_stmt (ss_h x)" and len: "length buf = sc_reclength (en_core E)"
  shows "ses_inv (set_ses E t share (x\<lparr> ss_info := info, ss_pending := Some (gone, buf'), ss_image := None \<rparr>))"
proof -
  have ok: "session_ok (en_core E) x" using ses_invD(4) [OF inv] x by simp
  then have scr: "length (in_scratch (ss_info x)) = sc_reclength (en_core E)" by (simp add: session_ok_def)
  note f = lookup_frame [OF ses_invD(1,2) [OF inv] lk scr]
  have "gone \<noteq> HA_OK" using lk by cases simp_all
  moreover have "length buf' = sc_reclength (en_core E)" by (rule lookup_length [OF ses_invD(1,2) [OF inv] lk len scr])
  ultimately show ?thesis
    unfolding f(1) by (intro ses_inv_same [OF inv x]) (use f(2) ws in \<open>simp_all add: locks_of_def session_ok_def\<close>)
qed

text \<open>A step of the core that keeps the row locks, for a session whose locks stay.\<close>

lemma ses_inv_core:
  assumes inv: "ses_inv E" and x: "x = en_ses E t" and c: "core_inv c" "quiet c" "same_shape (en_core E) c"
    and l: "locks_of x' = locks_of x" and ok: "session_ok c x'"
    and keep: "\<And>i r. i \<in> wlocked (en_core E) - locks_of x \<Longrightarrow> rows (en_core E) i = Some r \<Longrightarrow>
      rows c i = Some r \<and> gens c i = gens (en_core E) i"
  shows "ses_inv (set_ses E t ((en_share E)\<lparr> fs_core := c \<rparr>) x')"
proof -
  have "locks_of x \<subseteq> wlocked (en_core E)" using ses_invD(5) [OF inv, of t] by (simp add: x locks_of_set)
  then show ?thesis
    using c l ok keep by (intro ses_inv_move [OF inv x]) (auto simp: same_shape_def lasting_def)
qed

lemma ses_auto_inc:
  assumes inv: "ses_inv E"
  shows "ses_inv (E\<lparr> en_share := (en_share E)\<lparr> fs_core := (en_core E)\<lparr> sc_auto_inc := v \<rparr> \<rparr> \<rparr>)"
  using inv by (simp add: ses_inv_def auto_key_ok_def session_ok_def)

text \<open>A step that adds at most one row, after which the handler has read nothing.\<close>

lemma ses_inv_add:
  assumes inv: "ses_inv E" and x: "x = en_ses E t" and c: "core_inv c" "quiet c" "same_shape (en_core E) c" "gens (en_core E) \<subseteq>\<^sub>m gens c"
    and len: "length (in_scratch info) = sc_reclength (en_core E)"
    and R: "rows c = rows (en_core E) \<or> (\<exists>i q. rows (en_core E) i = None \<and> rows c = (rows (en_core E))(i \<mapsto> q))"
  shows "ses_inv (set_ses E t ((en_share E)\<lparr> fs_core := c \<rparr>) (x\<lparr> ss_info := info, ss_pending := None, ss_image := None \<rparr>))"
proof (rule ses_inv_core [OF inv x c(1-3)])
  show "session_ok c (x\<lparr> ss_info := info, ss_pending := None, ss_image := None \<rparr>)"
    using c(3) len by (simp add: session_ok_def same_shape_def)
  fix j r assume r: "rows (en_core E) j = Some r"
  have "j \<in> dom (gens (en_core E))" using rows_slot [OF r] by (auto simp: gens_def)
  then have "gens c j = gens (en_core E) j" using c(4) by (simp add: map_le_def)
  then show "rows c j = Some r \<and> gens c j = gens (en_core E) j" using r R by auto
qed (simp add: locks_of_def)

lemma auto_frameE:
  assumes "auto_frame auto"
  obtains v b e where "(case auto of None \<Rightarrow> (share, buf, HA_OK) | Some f \<Rightarrow> f share buf) =
    (share\<lparr> fs_core := (fs_core share)\<lparr> sc_auto_inc := v \<rparr> \<rparr>, b, e)" "length b = length buf"
proof (cases auto)
  case None
  then show thesis by (intro that [of "sc_auto_inc (fs_core share)"]) auto
next
  case (Some f)
  then show thesis using assms that by (simp add: auto_frame_def) (metis prod.collapse)
qed

lemma ses_write:
  assumes inv: "ses_inv E" and x: "x = en_ses E t" and len: "length buf = sc_reclength (en_core E)" and auto: "auto_frame auto"
    and run: "write_row K auto (en_share E) (ss_info x) buf = Some (share, info, rc, buf')"
  shows "ses_inv (set_ses E t share (x\<lparr> ss_info := info, ss_pending := None, ss_image := None \<rparr>))"
proof -
  obtain v b e where a: "(case auto of None \<Rightarrow> (en_share E, buf, HA_OK) | Some f \<Rightarrow> f (en_share E) buf) =
      ((en_share E)\<lparr> fs_core := (en_core E)\<lparr> sc_auto_inc := v \<rparr> \<rparr>, b, e)" "length b = length buf"
    by (rule auto_frameE [OF auto])
  let ?s = "(en_core E)\<lparr> sc_auto_inc := v \<rparr>"
  let ?sh = "(en_share E)\<lparr> fs_core := ?s \<rparr>"
  have I: "core_inv (fs_core ?sh)" "quiet (fs_core ?sh)" "auto_key_ok ?sh" "session_ok (en_core E) x"
    using ses_invD(1-3) [OF inv] ses_invD(4) [OF inv, of t] x by (simp_all add: auto_key_ok_def)
  have le: "length b = sc_reclength (fs_core ?sh)" "length (in_scratch (ss_info x)) = sc_reclength (fs_core ?sh)"
    using a(2) len I(4) by (simp_all add: session_ok_def)
  have sh: "same_shape (en_core E) c" if "same_shape ?s c" for c
    using same_shape_trans auto_inc_table(6) that by blast
  note add = ses_inv_add [OF inv x]
  show ?thesis
  proof (cases "e = HA_OK")
    case False
    then have r: "share = ?sh" "info = ss_info x" using run a(1) by (simp_all add: write_row_def)
    show ?thesis unfolding r by (rule add) (use I le in simp_all)
  next
    case True
    then have w: "fm_write K ?sh (ss_info x) b = Some (share, info, rc)"
      using run a(1) by (auto simp: write_row_def bind_eq_Some_conv)
    show ?thesis
    proof (cases rule: fm_write_cases [OF I(1,2) le I(3), of K])
      case (1 core i g sc)
      then have r: "share = (en_share E)\<lparr> fs_core := core \<rparr>" "in_scratch info = sc" using w by auto
      have "\<exists>i q. rows (en_core E) i = None \<and> rows core = (rows (en_core E))(i \<mapsto> q)" using 1(4,5) by auto
      then show ?thesis unfolding r(1) using 1 r(2) sh by (intro add) simp_all
    next
      case (2 core e sc ek)
      then have r: "share = (en_share E)\<lparr> fs_core := core \<rparr>" "in_scratch info = sc" using w by auto
      then show ?thesis unfolding r(1) using 2 sh by (intro add) simp_all
    qed
  qed
qed

text \<open>The end of an update or a delete: the core has made its step, then the row lock is released.\<close>

lemma ses_inv_release:
  assumes inv: "ses_inv E" and x: "x = en_ses E t" and c: "core_inv c" "quiet c" "same_shape (en_core E) c"
    and un: "unlock_current_row ((en_share E)\<lparr> fs_core := c \<rparr>) (ss_h x) = Some (share, h)"
    and keep: "\<And>i r. i \<notin> locks_of x \<Longrightarrow> rows (en_core E) i = Some r \<Longrightarrow> rows c i = Some r \<and> gens c i = gens (en_core E) i"
    and len: "length (in_scratch info) = sc_reclength (en_core E)"
  shows "ses_inv (set_ses E t share (x\<lparr> ss_info := info, ss_h := h, ss_pending := None, ss_image := None \<rparr>))"
proof -
  obtain d where d: "share = (en_share E)\<lparr> fs_core := d \<rparr>" "calm c d" "wlocked d = wlocked c - lock_set (ss_h x)"
    "\<not> h_row_locked h" "h_write_stmt h = h_write_stmt (ss_h x)"
    by (rule unlock_row_ok [OF _ _ un]) (use c in simp_all)
  have sh: "wlocked c = wlocked (en_core E)" "sc_reclength c = sc_reclength (en_core E)" "sc_auto_key c = sc_auto_key (en_core E)"
    using c(3) by (simp_all add: same_shape_def lasting_def)
  have l: "locks_of (x\<lparr> ss_info := info, ss_h := h, ss_pending := None, ss_image := None \<rparr>) = {}" using d(4) by (simp add: locks_of_def)
  show ?thesis
    unfolding d(1)
  proof (rule ses_inv_move [OF inv x])
    fix i r assume "i \<in> wlocked (en_core E) - locks_of x" "rows (en_core E) i = Some r"
    then show "rows d i = Some r \<and> gens d i = gens (en_core E) i" using keep d(2) by (simp add: calm_def)
  qed (use d sh l len in \<open>simp_all add: calm_def locks_of_set session_ok_def\<close>)
qed

lemma image_locked:
  assumes inv: "ses_inv E" and x: "x = en_ses E t" and im: "ss_image x = Some r"
  shows "ensure_locked (en_share E) (ss_info x) (ss_h x) = Some (en_share E, ss_h x, True)"
    "locks_of x = {in_current_slot (ss_info x)}" "length (in_scratch (ss_info x)) = sc_reclength (en_core E)"
    "rows (en_core E) (in_current_slot (ss_info x)) = Some r" "gens (en_core E) (in_current_slot (ss_info x)) = Some (in_current_gen (ss_info x))"
  using ses_invD(4) [OF inv, of t] x im by (simp_all add: session_ok_def ensure_locked_def locks_of_def holds_row_def)

text \<open>The release of a lock that is held succeeds.\<close>

lemma unlock_run:
  assumes "lock_set h \<subseteq> wlocked (fs_core share)"
  obtains share' h' where "unlock_current_row share h = Some (share', h')"
proof (cases "h_row_locked h")
  case True
  then obtain sl where "fm_slot (fs_core share) (h_locked_slot h) = Some sl" using assms by (auto simp: lock_set_def wlocked_def)
  then show thesis using True by (intro that) (simp add: unlock_current_row_def unlock_slot_run)
next
  case False
  then show thesis by (intro that) (simp add: unlock_current_row_def)
qed

lemma update_row_image:
  assumes inv: "ses_inv E" and x: "x = en_ses E t" and im: "ss_image x = Some old_data"
    and len: "length new_data = sc_reclength (en_core E)"
  obtains share info h rc c where "update_row K (en_share E) (ss_info x) (ss_h x) old_data new_data = Some (share, info, h, rc)"
    "unlock_current_row ((en_share E)\<lparr> fs_core := c \<rparr>) (ss_h x) = Some (share, h)"
    "length (in_scratch info) = sc_reclength (en_core E)"
    "rc = (if \<exists>k. refused (en_core E) old_data new_data k then HA_ERR_FOUND_DUPP_KEY else HA_OK)"
    "good_step (en_core E) (if rc = HA_OK then (rows (en_core E))(in_current_slot (ss_info x) \<mapsto> new_data) else rows (en_core E)) c"
proof -
  note l = image_locked [OF inv x im]
  have held: "lock_set (ss_h x) \<subseteq> wlocked (en_core E)" using ses_invD(5) [OF inv, of t] x by simp
  show thesis
  proof (cases rule: fm_update_locked_cases [OF ses_invD(1-3) [OF inv] l(4,5,3) len, of K])
    case (1 c info)
    let ?sh = "(en_share E)\<lparr> fs_core := c \<rparr>"
    have "lock_set (ss_h x) \<subseteq> wlocked (fs_core ?sh)" using held 1(2) by (simp add: good_step_def same_shape_def)
    then obtain share h where u: "unlock_current_row ?sh (ss_h x) = Some (share, h)" by (rule unlock_run)
    show thesis
      by (rule that [of share info h HA_OK c]) (use 1 u l(1) in \<open>simp_all add: update_row_def\<close>)
  next
    case (2 c info)
    let ?sh = "(en_share E)\<lparr> fs_core := c \<rparr>"
    have "lock_set (ss_h x) \<subseteq> wlocked (fs_core ?sh)" using held 2(2) by (simp add: good_step_def same_shape_def)
    then obtain share h where u: "unlock_current_row ?sh (ss_h x) = Some (share, h)" by (rule unlock_run)
    show thesis
      by (rule that [of share info h HA_ERR_FOUND_DUPP_KEY c]) (use 2 u l(1) in \<open>simp_all add: update_row_def\<close>)
  qed
qed

lemma ses_update:
  assumes inv: "ses_inv E" and x: "x = en_ses E t" and im: "ss_image x = Some old_data"
    and len: "length new_data = sc_reclength (en_core E)"
    and run: "update_row K (en_share E) (ss_info x) (ss_h x) old_data new_data = Some (share, info, h, rc)"
  shows "ses_inv (set_ses E t share (x\<lparr> ss_info := info, ss_h := h, ss_pending := None, ss_image := None \<rparr>))"
proof -
  obtain c where c: "unlock_current_row ((en_share E)\<lparr> fs_core := c \<rparr>) (ss_h x) = Some (share, h)"
    "length (in_scratch info) = sc_reclength (en_core E)"
    "good_step (en_core E) (if rc = HA_OK then (rows (en_core E))(in_current_slot (ss_info x) \<mapsto> new_data) else rows (en_core E)) c"
    by (rule update_row_image [OF inv x im len, of K]) (use run in auto)
  show ?thesis
    by (rule ses_inv_release [OF inv x _ _ _ c(1)])
      (use c image_locked(2) [OF inv x im] in \<open>auto simp: good_step_def split: if_splits\<close>)
qed

lemma delete_row_image:
  assumes inv: "ses_inv E" and x: "x = en_ses E t" and im: "ss_image x = Some buf"
  obtains share info h c sl where "delete_row (en_share E) (ss_info x) (ss_h x) buf = Some (share, info, h, HA_OK)"
    "unlock_current_row ((en_share E)\<lparr> fs_core := c \<rparr>) (ss_h x) = Some (share, h)"
    "length (in_scratch info) = sc_reclength (en_core E)" "removed (en_core E) (in_current_slot (ss_info x)) sl c"
proof -
  note l = image_locked [OF inv x im]
  have held: "lock_set (ss_h x) \<subseteq> wlocked (en_core E)" using ses_invD(5) [OF inv, of t] x by simp
  obtain c sl where d: "fm_delete_locked (en_share E) (ss_info x) buf = Some ((en_share E)\<lparr> fs_core := c \<rparr>, (ss_info x)\<lparr> in_scratch := buf,
       in_update := {HA_STATE_DELETED}, in_current_slot := -1, in_current_hash_slot := -1 \<rparr>, HA_OK)"
    "removed (en_core E) (in_current_slot (ss_info x)) sl c"
    by (rule fm_delete_locked_ok [OF ses_invD(1,2) [OF inv] l(4,5,3)])
  have "lock_set (ss_h x) \<subseteq> wlocked (fs_core ((en_share E)\<lparr> fs_core := c \<rparr>))" using held d(2) by (simp add: removed_def same_shape_def)
  then obtain share h where u: "unlock_current_row ((en_share E)\<lparr> fs_core := c \<rparr>) (ss_h x) = Some (share, h)" by (rule unlock_run)
  have "length buf = sc_reclength (en_core E)" 
    using rows_slot [OF l(4)] core_invD(3) [OF ses_invD(1) [OF inv]] by (auto simp: slots_ok_def slot_ok_def)
  then show thesis
    by (intro that [where info = "(ss_info x)\<lparr> in_scratch := buf, in_update := {HA_STATE_DELETED}, in_current_slot := -1,
        in_current_hash_slot := -1 \<rparr>", OF _ u _ d(2)]) (use d(1) u l(1) in \<open>simp_all add: delete_row_def\<close>)
qed

lemma ses_delete:
  assumes inv: "ses_inv E" and x: "x = en_ses E t" and im: "ss_image x = Some buf"
    and run: "delete_row (en_share E) (ss_info x) (ss_h x) buf = Some (share, info, h, rc)"
  shows "ses_inv (set_ses E t share (x\<lparr> ss_info := info, ss_h := h, ss_pending := None, ss_image := None \<rparr>))"
proof -
  obtain c sl where c: "unlock_current_row ((en_share E)\<lparr> fs_core := c \<rparr>) (ss_h x) = Some (share, h)"
    "length (in_scratch info) = sc_reclength (en_core E)" "removed (en_core E) (in_current_slot (ss_info x)) sl c"
    by (rule delete_row_image [OF inv x im]) (use run in auto)
  show ?thesis
    by (rule ses_inv_release [OF inv x _ _ _ c(1)])
      (use c image_locked(2) [OF inv x im] in \<open>auto simp: removed_def\<close>)
qed

lemma ses_clear:
  assumes inv: "ses_inv E" and x: "x = en_ses E t" and run: "delete_all_rows (en_share E) (ss_info x) (ss_h x) = Some (share, info, h)"
  shows "ses_inv (set_ses E t share (x\<lparr> ss_info := info, ss_h := h, ss_pending := None, ss_image := None \<rparr>))"
proof -
  obtain c where c: "fm_core_clear (en_core E) = Some c"
    and r: "share = (en_share E)\<lparr> fs_core := c \<rparr>" "in_scratch info = in_scratch (ss_info x)" "h = ss_h x"
    using run by (auto simp: delete_all_rows_def fm_clear_def bind_eq_Some_conv)
  have wl: "wlocked (en_core E) = {}" using clear_blocked [OF ses_invD(1,2) [OF inv]] c by (cases "wlocked (en_core E) = {}") simp_all
  have d: "core_inv c" "quiet c" "same_shape (en_core E) c"
    using clear_correct [OF ses_invD(1,2) [OF inv] wl] c by auto
  have "session_ok (en_core E) x" using ses_invD(4) [OF inv] x by simp
  then show ?thesis
    unfolding r(1) using d r(2,3) wl
    by (intro ses_inv_core [OF inv x]) (simp_all add: locks_of_def session_ok_def same_shape_def)
qed

lemma ses_rnd_init:
  assumes inv: "ses_inv E" and x: "x = en_ses E t" and run: "rnd_init (en_share E) (ss_info x) (ss_h x) scan = Some (share, info, h)"
  shows "ses_inv (set_ses E t share (x\<lparr> ss_info := info, ss_h := h, ss_pending := None, ss_image := None \<rparr>))"
proof -
  have ok: "session_ok (en_core E) x" using ses_invD(4) [OF inv] x by simp
  show ?thesis
  proof (cases scan)
    case True
    then have u: "unlock_current_row (en_share E) (ss_h x) = Some (share, h)" "info = fm_scan_init (ss_info x)"
      using run by (auto simp: rnd_init_def bind_eq_Some_conv)
    have "lock_set h = {}" using unlock_row_ok [OF ses_invD(1,2) [OF inv] u(1)] by (auto simp: lock_set_def)
    then show ?thesis
      using ok u(2) by (intro ses_inv_unlock [OF inv x u(1)]) (simp_all add: session_ok_def fm_scan_init_def)
  next
    case False
    then have r: "share = en_share E" "h = ss_h x" "info = ss_info x" using run by (simp_all add: rnd_init_def)
    show ?thesis unfolding r by (rule ses_inv_same [OF inv x]) (use ok in \<open>simp_all add: locks_of_def session_ok_def\<close>)
  qed
qed

lemma ses_reset:
  assumes inv: "ses_inv E" and x: "x = en_ses E t" and run: "ha_reset (en_share E) (ss_info x) (ss_h x) = Some (share, info, h)"
  shows "ses_inv (set_ses E t share (x\<lparr> ss_info := info, ss_h := h, ss_pending := None, ss_image := None \<rparr>))"
proof -
  have ok: "session_ok (en_core E) x" using ses_invD(4) [OF inv] x by simp
  have u: "unlock_current_row (en_share E) (ss_h x) = Some (share, h)" "info = fm_reset (ss_info x)"
    using run by (auto simp: ha_reset_def bind_eq_Some_conv)
  have "lock_set h = {}" using unlock_row_ok [OF ses_invD(1,2) [OF inv] u(1)] by (auto simp: lock_set_def)
  then show ?thesis
    using ok u(2) by (intro ses_inv_unlock [OF inv x u(1)]) (simp_all add: session_ok_def fm_reset_def)
qed

lemma ses_step_inv:
  assumes "ses_step E E'" "ses_inv E"
  shows "ses_inv E'"
  using assms
proof cases
  case statement
  then show ?thesis using ses_statement assms(2) by simp
next
  case read_plain
  then show ?thesis using ses_read_plain assms(2) by simp
next
  case read_lookup
  then show ?thesis using ses_read_lookup assms(2) by simp
next
  case read_lock
  then show ?thesis using ses_read_lock assms(2) by simp
next
  case relock
  then show ?thesis using ses_relock assms(2) by simp
next
  case write_call
  then show ?thesis using ses_write assms(2) by simp
next
  case update
  then show ?thesis using ses_update assms(2) by simp
next
  case delete
  then show ?thesis using ses_delete assms(2) by simp
next
  case rnd_init
  then show ?thesis using ses_rnd_init assms(2) by simp
next
  case reset
  then show ?thesis using ses_reset assms(2) by simp
next
  case clear
  then show ?thesis using ses_clear assms(2) by simp
next
  case auto_inc
  then show ?thesis using ses_auto_inc assms(2) by simp
qed

interpretation sessions: machine ses_step ses_inv
  by unfold_locales (rule ses_step_inv)

end
