(* ===== verification/FM_Session_Runs.thy ===== *)
theory FM_Session_Runs
  imports FM_Sessions
begin

text \<open>
  Runs of the handlers of one table: the read methods of the handler as sequences of the steps of
  \<^verbatim>\<open>FM_Sessions\<close>, and what holds in every state that a run reaches from newly opened handlers.
\<close>

section \<open>Read methods as steps\<close>

text \<open>The state after a read method of handler \<open>t\<close> has returned \<open>r\<close>.\<close>

definition after_read :: "engine \<Rightarrow> nat \<Rightarrow> row_result \<Rightarrow> engine" where
  "after_read E t r = (case r of (share, info, h, rc, buf) \<Rightarrow> set_ses E t share ((en_ses E t)\<lparr> ss_info := info, ss_h := h,
     ss_pending := None, ss_image := (if rc = HA_OK \<and> h_write_stmt (ss_h (en_ses E t)) then Some buf else None) \<rparr>))"

lemma set_ses_twice [simp]: "set_ses (set_ses E t share x) t share' x' = set_ses E t share' x'"
  by (simp add: set_ses_def)

lemma set_ses_at [simp]: "en_ses (set_ses E t share x) t = x" "en_share (set_ses E t share x) = share"
  by (simp_all add: set_ses_def)

lemma read_steps:
  assumes len: "length buf = sc_reclength (en_core E)"
    and lk: "lookup (en_share E) (ss_info (en_ses E t)) buf share1 info1 rc1 buf1 gone"
    and res: "(if rc1 = HA_OK \<and> h_write_stmt (ss_h (en_ses E t)) then lock_and_reread gone share1 info1 (ss_h (en_ses E t)) buf1
      else Some (share1, info1, ss_h (en_ses E t), rc1, buf1)) = Some r"
  shows "ses_step\<^sup>*\<^sup>* E (after_read E t r)"
proof (cases "rc1 = HA_OK \<and> h_write_stmt (ss_h (en_ses E t))")
  case False
  have "ses_step E (set_ses E t share1 ((en_ses E t)\<lparr> ss_info := info1, ss_pending := None, ss_image := None \<rparr>))"
    by (rule ses_step.read_plain [OF refl len lk]) (use False in simp)
  then show ?thesis using False res by (auto simp: after_read_def)
next
  case True
  let ?x = "(en_ses E t)\<lparr> ss_info := info1, ss_pending := Some (gone, buf1), ss_image := None \<rparr>"
  let ?E = "set_ses E t share1 ?x"
  obtain share info h rc buf2 where r: "r = (share, info, h, rc, buf2)" by (cases r)
  have "ses_step E ?E"
    by (rule ses_step.read_lookup [OF refl len]) (use True lk in auto)
  moreover have "ses_step ?E (set_ses ?E t share (?x\<lparr> ss_info := info, ss_h := h, ss_pending := None,
      ss_image := (if rc = HA_OK then Some buf2 else None) \<rparr>))"
    by (rule ses_step.read_lock [where t = t and gone = gone and buf = buf1]) (use True res r in simp_all)
  ultimately have "ses_step\<^sup>*\<^sup>* E (set_ses ?E t share (?x\<lparr> ss_info := info, ss_h := h, ss_pending := None,
      ss_image := (if rc = HA_OK then Some buf2 else None) \<rparr>))" by simp
  then show ?thesis using True r by (simp add: after_read_def)
qed

lemma index_read_steps:
  assumes "length buf = sc_reclength (en_core E)" "inx < sc_keys (en_core E)"
    and run: "index_read_idx_map (en_share E) (ss_info (en_ses E t)) (ss_h (en_ses E t)) buf inx key = Some r"
  shows "ses_step\<^sup>*\<^sup>* E (after_read E t r)"
proof -
  obtain share info rc b where f: "fm_find_key (en_share E) (ss_info (en_ses E t)) inx key buf = Some (share, info, rc, b)"
    using run by (auto simp: index_read_idx_map_def bind_eq_Some_conv)
  show ?thesis
    by (rule read_steps [OF assms(1) lookup.index_read [OF assms(2) f]]) (use run f in \<open>simp add: index_read_idx_map_def\<close>)
qed

lemma scan_steps:
  assumes "length buf = sc_reclength (en_core E)"
  shows "rnd_next (en_share E) (ss_info (en_ses E t)) (ss_h (en_ses E t)) buf = Some r \<Longrightarrow> ses_step\<^sup>*\<^sup>* E (after_read E t r)"
    "rnd_pos (en_share E) (ss_info (en_ses E t)) (ss_h (en_ses E t)) buf pos = Some r \<Longrightarrow> ses_step\<^sup>*\<^sup>* E (after_read E t r)"
proof -
  assume run: "rnd_next (en_share E) (ss_info (en_ses E t)) (ss_h (en_ses E t)) buf = Some r"
  then obtain info rc b where f: "fm_scan (en_share E) (ss_info (en_ses E t)) buf = Some (info, rc, b)"
    by (auto simp: rnd_next_def bind_eq_Some_conv)
  show "ses_step\<^sup>*\<^sup>* E (after_read E t r)"
    by (rule read_steps [OF assms lookup.scan [OF f]]) (use run f in \<open>auto simp: rnd_next_def split: if_splits\<close>)
next
  assume run: "rnd_pos (en_share E) (ss_info (en_ses E t)) (ss_h (en_ses E t)) buf pos = Some r"
  then obtain info rc b where f: "fm_rrnd (en_share E) (ss_info (en_ses E t)) buf pos = Some (info, rc, b)"
    by (auto simp: rnd_pos_def bind_eq_Some_conv)
  show "ses_step\<^sup>*\<^sup>* E (after_read E t r)"
    by (rule read_steps [OF assms lookup.rrnd [OF f]]) (use run f in \<open>auto simp: rnd_pos_def split: if_splits\<close>)
qed

lemma index_next_steps:
  assumes len: "length buf = sc_reclength (en_core E)"
    and run: "index_next (en_share E) (ss_info (en_ses E t)) (ss_h (en_ses E t)) buf = Some r"
    and inx: "in_lastinx (ss_info (en_ses E t)) < int (sc_keys (en_core E))"
  shows "ses_step\<^sup>*\<^sup>* E (after_read E t r)"
proof (cases "in_lastinx (ss_info (en_ses E t)) < 0")
  case True
  then have r: "r = (en_share E, ss_info (en_ses E t), ss_h (en_ses E t), HA_ERR_WRONG_INDEX, buf)"
    using run by (simp add: index_next_def)
  show ?thesis unfolding r by (rule read_steps [OF len lookup.no_index [OF True]]) simp
next
  case False
  let ?x = "en_ses E t"
  note inx = False [unfolded not_less] inx
  obtain share info rc b where f: "fm_find_next_key (en_share E) (ss_info ?x) (nat (in_lastinx (ss_info ?x)))
      (in_lastkey (ss_info ?x)) (in_current_slot (ss_info ?x)) buf = Some (share, info, rc, b)"
    using run inx(1) by (auto simp: index_next_def bind_eq_Some_conv)
  have lk: "lookup (en_share E) (ss_info ?x) buf share info rc b HA_ERR_KEY_NOT_FOUND"
    by (rule lookup.index_next [OF inx(1) _ f]) (use inx in simp)
  note R = read_steps [where t = t, OF len lk]
  show ?thesis
  proof (cases "rc = HA_ERR_KEY_NOT_FOUND \<and> HA_STATE_NO_KEY \<notin> in_update info")
    case True
    then have r: "r = (share, info, ss_h ?x, HA_ERR_END_OF_FILE, b)" using run f inx(1) by (simp add: index_next_def)
    have "ses_step\<^sup>*\<^sup>* E (after_read E t (share, info, ss_h ?x, rc, b))" by (rule R) (use True in simp)
    then show ?thesis using True by (simp add: r after_read_def)
  next
    case False
    then show ?thesis using run f inx(1) by (intro R) (auto simp: index_next_def)
  qed
qed

text \<open>\<^verbatim>\<open>find_unique_row\<close> returns 0 or 1; the server sets no other code.\<close>

definition found :: "nat \<Rightarrow> ha_err" where
  "found rc = (if rc = 0 then HA_OK else HA_ERR_KEY_NOT_FOUND)"

lemma unique_steps:
  assumes len: "length buf = sc_reclength (en_core E)" and inx: "inx < sc_keys (en_core E)"
    and run: "find_unique_row Env (en_share E) (ss_info (en_ses E t)) (ss_h (en_ses E t)) buf inx = Some (share, info, h, rc, b)"
  shows "ses_step\<^sup>*\<^sup>* E (after_read E t (share, info, h, found rc, b))"
proof -
  let ?x = "en_ses E t"
  obtain share1 info1 rc1 b1 where u: "unique_lookup Env (en_share E) (ss_info ?x) buf inx = Some (share1, info1, rc1, b1)"
    using run by (auto simp: find_unique_row_def bind_eq_Some_conv)
  note lk = lookup.unique [OF inx u]
  show ?thesis
  proof (cases "rc1 = HA_OK")
    case True
    then show ?thesis
      using run u by (intro read_steps [OF len lk])
        (auto simp: find_unique_row_def found_def lock_and_reread_def bind_eq_Some_conv split: if_splits)
  next
    case False
    then have r: "share = share1" "info = info1" "h = ss_h ?x" "rc = 1" "b = b1" using run u by (simp_all add: find_unique_row_def)
    have "ses_step\<^sup>*\<^sup>* E (after_read E t (share1, info1, ss_h ?x, rc1, b1))" by (rule read_steps [OF len lk]) (use False in simp)
    then show ?thesis using False by (simp add: r found_def after_read_def)
  qed
qed

section \<open>Newly opened handlers\<close>

definition fresh_engine :: "FM_SHARE \<Rightarrow> (nat \<Rightarrow> FM_INFO) \<Rightarrow> engine" where
  "fresh_engine share infos = \<lparr> en_share = share, en_ses = (\<lambda>t. \<lparr> ss_info = infos t, ss_h = new_ha_fastmem,
     ss_pending = None, ss_image = None \<rparr>) \<rparr>"

text \<open>What the theorems on runs start from: a table between operations, without row locks, and handles that were made for it.\<close>

definition opened :: "FM_SHARE \<Rightarrow> (nat \<Rightarrow> FM_INFO) \<Rightarrow> bool" where
  "opened share infos = (core_inv (fs_core share) \<and> quiet (fs_core share) \<and> wlocked (fs_core share) = {} \<and> auto_key_ok share \<and>
     (\<forall>t. length (in_scratch (infos t)) = sc_reclength (fs_core share)))"

lemma fresh_inv: "opened share infos \<Longrightarrow> ses_inv (fresh_engine share infos)"
  by (simp add: opened_def ses_inv_def fresh_engine_def locks_of_def session_ok_def new_ha_fastmem_def)

lemma reached_inv: "opened share infos \<Longrightarrow> ses_step\<^sup>*\<^sup>* (fresh_engine share infos) E \<Longrightarrow> ses_inv E"
  using fresh_inv sessions.reach_good by blast

lemma lock_owned:
  assumes "ses_inv E"
  shows "(i \<in> wlocked (en_core E)) = (\<exists>t. h_row_locked (ss_h (en_ses E t)) \<and> h_locked_slot (ss_h (en_ses E t)) = i)"
  using assms by (auto simp: ses_inv_def locks_of_def split: if_splits)

lemma lock_owner:
  assumes "ses_inv E" "i \<in> locks_of (en_ses E t)" "u \<noteq> t"
  shows "i \<notin> locks_of (en_ses E u)"
  using assms by (auto simp: ses_inv_def)

text \<open>A write without the lock of the current row, which is refused or takes the lock.\<close>

lemma write_refused:
  assumes inv: "ses_inv E" and nl: "\<not> holds_row (ss_info (en_ses E t)) (ss_h (en_ses E t))"
    and no: "\<not> (h_write_stmt (ss_h (en_ses E t)) \<and> 0 \<le> in_current_slot (ss_info (en_ses E t)) \<and> \<not> h_row_locked (ss_h (en_ses E t)))"
  shows "\<exists>share' h'. update_row K (en_share E) (ss_info (en_ses E t)) (ss_h (en_ses E t)) old_data new_data =
      Some (share', ss_info (en_ses E t), h', HA_ERR_RECORD_CHANGED) \<and>
    delete_row (en_share E) (ss_info (en_ses E t)) (ss_h (en_ses E t)) old_data =
      Some (share', ss_info (en_ses E t), h', HA_ERR_RECORD_CHANGED) \<and>
    rows (fs_core share') = rows (en_core E) \<and> gens (fs_core share') = gens (en_core E) \<and> \<not> h_row_locked h' \<and>
    wlocked (fs_core share') = wlocked (en_core E) - (if h_row_locked (ss_h (en_ses E t)) then {h_locked_slot (ss_h (en_ses E t))} else {})"
proof -
  let ?x = "en_ses E t"
  have held: "lock_set (ss_h ?x) \<subseteq> wlocked (en_core E)" by (rule ses_invD(5) [OF inv])
  obtain share' h' where u: "unlock_current_row (en_share E) (ss_h ?x) = Some (share', h')" by (rule unlock_run [OF held])
  have e: "ensure_locked (en_share E) (ss_info ?x) (ss_h ?x) = Some (share', h', False)"
    using nl no u by (auto simp: ensure_locked_def)
  obtain c where c: "share' = (en_share E)\<lparr> fs_core := c \<rparr>" "calm (en_core E) c" "wlocked c = wlocked (en_core E) - lock_set (ss_h ?x)"
    "\<not> h_row_locked h'" by (rule unlock_row_ok [OF ses_invD(1,2) [OF inv] u])
  show ?thesis using e c by (simp add: update_row_def delete_row_def calm_def lock_set_def)
qed

lemma write_locks_first:
  assumes inv: "core_inv (fs_core share)" "quiet (fs_core share)"
    and ws: "h_write_stmt h" "0 \<le> in_current_slot info" "\<not> h_row_locked h" and sl: "fm_slot (fs_core share) (in_current_slot info) = Some sl"
  shows "if sl_wlock sl
    then update_row K share info h old_data new_data = None \<and> delete_row share info h old_data = None
    else \<exists>share1 h1. lock_current_row share info h = Some (share1, h1) \<and> h_write_stmt h1 \<and> holds_row info h1 \<and>
      rows (fs_core share1) = rows (fs_core share) \<and> wlocked (fs_core share1) = insert (in_current_slot info) (wlocked (fs_core share)) \<and>
      update_row K share info h old_data new_data = update_row K share1 info h1 old_data new_data \<and>
      delete_row share info h old_data = delete_row share1 info h1 old_data"
proof (cases "sl_wlock sl")
  case True
  then have "lock_current_row share info h = None"
    using ws sl by (simp add: lock_current_row_def unlock_current_row_def lock_slot_def spin_lock_def)
  then show ?thesis using True ws by (simp add: update_row_def delete_row_def ensure_locked_def holds_row_def)
next
  case False
  let ?c = "upd_slot (fs_core share) (in_current_slot info) (sl\<lparr> sl_wlock := True \<rparr>)"
  let ?h = "h\<lparr> h_row_locked := True, h_locked_slot := in_current_slot info \<rparr>"
  have l: "lock_current_row share info h = Some (share\<lparr> fs_core := ?c \<rparr>, ?h)"
    using ws sl False by (simp add: lock_current_row_def unlock_current_row_def lock_slot_free)
  have k: "calm (fs_core share) ?c" "wlocked ?c = insert (in_current_slot info) (wlocked (fs_core share))"
    using calm_wlock [OF inv sl, of True] by simp_all
  have e: "ensure_locked share info h = Some (share\<lparr> fs_core := ?c \<rparr>, ?h, True)"
    "ensure_locked (share\<lparr> fs_core := ?c \<rparr>) info ?h = Some (share\<lparr> fs_core := ?c \<rparr>, ?h, True)"
    using ws l by (simp_all add: ensure_locked_def holds_row_def)
  show ?thesis
    using False l k e ws(1) by (auto simp: update_row_def delete_row_def calm_def holds_row_def)
qed

section \<open>Properties\<close>

text \<open>C10. No lost updates. In every interleaving of the calls of any number of handlers, as long as a write statement has not
  yet updated, deleted or left the row that it has read under its lock, the row is in the table with the image and the generation
  that the statement has, its row lock is held, and no other handler holds it.\<close>

theorem sessions_no_lost_update:
  assumes "opened share infos" "ses_step\<^sup>*\<^sup>* (fresh_engine share infos) E" "ss_image (en_ses E t) = Some r"
  shows "rows (en_core E) (in_current_slot (ss_info (en_ses E t))) = Some r \<and>
    gens (en_core E) (in_current_slot (ss_info (en_ses E t))) = Some (in_current_gen (ss_info (en_ses E t))) \<and>
    in_current_slot (ss_info (en_ses E t)) \<in> wlocked (en_core E) \<and>
    {u. h_row_locked (ss_h (en_ses E u)) \<and> h_locked_slot (ss_h (en_ses E u)) = in_current_slot (ss_info (en_ses E t))} = {t}"
proof -
  let ?i = "in_current_slot (ss_info (en_ses E t))"
  have inv: "ses_inv E" by (rule reached_inv [OF assms(1,2)])
  note l = image_locked [OF inv refl assms(3)]
  have "{u. h_row_locked (ss_h (en_ses E u)) \<and> h_locked_slot (ss_h (en_ses E u)) = ?i} = {u. ?i \<in> locks_of (en_ses E u)}"
    by (auto simp: locks_of_def)
  also have "\<dots> = {t}" using lock_owner [OF inv, of ?i t] l(2) by auto
  finally show ?thesis using l ses_invD(5) [OF inv, of t] by (simp add: locks_of_set)
qed

text \<open>C16. The shape of the engine's state. In every state that the calls of any number of handlers lead to, all images have the length of a
  record: the rows, the scratch buffers of the handles, and the record buffers of reads under way; and the row lock of a handler is on a
  slot that exists.\<close>

theorem sessions_typed:
  assumes "opened share infos" "ses_step\<^sup>*\<^sup>* (fresh_engine share infos) E"
  shows "(\<forall>i r. rows (en_core E) i = Some r \<longrightarrow> length r = sc_reclength (en_core E)) \<and>
    (\<forall>t. length (in_scratch (ss_info (en_ses E t))) = sc_reclength (en_core E)) \<and>
    (\<forall>t gone buf. ss_pending (en_ses E t) = Some (gone, buf) \<longrightarrow> gone \<noteq> HA_OK \<and> length buf = sc_reclength (en_core E)) \<and>
    (\<forall>t. h_row_locked (ss_h (en_ses E t)) \<longrightarrow> fm_slot (en_core E) (h_locked_slot (ss_h (en_ses E t))) \<noteq> None)"
proof -
  have inv: "ses_inv E" by (rule reached_inv [OF assms])
  have "fm_slot (en_core E) i \<noteq> None" if "i \<in> wlocked (en_core E)" for i using that by (auto simp: wlocked_def)
  then have "\<forall>t. h_row_locked (ss_h (en_ses E t)) \<longrightarrow> fm_slot (en_core E) (h_locked_slot (ss_h (en_ses E t))) \<noteq> None"
    using lock_owned [OF inv] by blast
  moreover have "slots_ok (en_core E)" using inv by (simp add: ses_inv_def core_inv_def)
  ultimately show ?thesis using inv row_length unfolding ses_inv_def session_ok_def by blast
qed

text \<open>C11. Writing back. In every reachable state, a statement that has read a row under its lock can update it: the call returns, the
  row becomes the new record unless a unique key that changes has it already, no other row changes, and the lock is released.
  Likewise for deleting it.\<close>

theorem sessions_write_back:
  assumes "opened share infos" "ses_step\<^sup>*\<^sup>* (fresh_engine share infos) E" "ss_image (en_ses E t) = Some r"
    "length new_data = sc_reclength (en_core E)"
  shows "(\<exists>share' info' h'. update_row K (en_share E) (ss_info (en_ses E t)) (ss_h (en_ses E t)) r new_data =
        Some (share', info', h', if \<exists>k. refused (en_core E) r new_data k then HA_ERR_FOUND_DUPP_KEY else HA_OK) \<and>
      rows (fs_core share') = (if \<exists>k. refused (en_core E) r new_data k then rows (en_core E)
        else (rows (en_core E))(in_current_slot (ss_info (en_ses E t)) \<mapsto> new_data)) \<and>
      wlocked (fs_core share') = wlocked (en_core E) - {in_current_slot (ss_info (en_ses E t))} \<and> \<not> h_row_locked h') \<and>
    (\<exists>share' info' h'. delete_row (en_share E) (ss_info (en_ses E t)) (ss_h (en_ses E t)) r = Some (share', info', h', HA_OK) \<and>
      rows (fs_core share') = (rows (en_core E))(in_current_slot (ss_info (en_ses E t)) := None) \<and>
      wlocked (fs_core share') = wlocked (en_core E) - {in_current_slot (ss_info (en_ses E t))} \<and> \<not> h_row_locked h')"
proof -
  let ?x = "en_ses E t"
  have inv: "ses_inv E" by (rule reached_inv [OF assms(1,2)])
  note l = image_locked [OF inv refl assms(3)]
  obtain share1 info1 h1 rc1 c1 where u: "update_row K (en_share E) (ss_info ?x) (ss_h ?x) r new_data = Some (share1, info1, h1, rc1)"
    "unlock_current_row ((en_share E)\<lparr> fs_core := c1 \<rparr>) (ss_h ?x) = Some (share1, h1)"
    "length (in_scratch info1) = sc_reclength (en_core E)"
    "rc1 = (if \<exists>k. refused (en_core E) r new_data k then HA_ERR_FOUND_DUPP_KEY else HA_OK)"
    "good_step (en_core E) (if rc1 = HA_OK then (rows (en_core E))(in_current_slot (ss_info ?x) \<mapsto> new_data) else rows (en_core E)) c1"
    by (rule update_row_image [OF inv refl assms(3,4)])
  obtain share2 info2 h2 c2 sl where d: "delete_row (en_share E) (ss_info ?x) (ss_h ?x) r = Some (share2, info2, h2, HA_OK)"
    "unlock_current_row ((en_share E)\<lparr> fs_core := c2 \<rparr>) (ss_h ?x) = Some (share2, h2)"
    "length (in_scratch info2) = sc_reclength (en_core E)" "removed (en_core E) (in_current_slot (ss_info ?x)) sl c2"
    by (rule delete_row_image [OF inv refl assms(3)])
  have g: "core_inv c1" "quiet c1" "core_inv c2" "quiet c2" "wlocked c1 = wlocked (en_core E)" "wlocked c2 = wlocked (en_core E)"
    using u(5) d(4) by (simp_all add: good_step_def removed_def same_shape_def)
  obtain e1 where e1: "share1 = (en_share E)\<lparr> fs_core := e1 \<rparr>" "calm c1 e1" "wlocked e1 = wlocked c1 - lock_set (ss_h ?x)" "\<not> h_row_locked h1"
    by (rule unlock_row_ok [OF _ _ u(2)]) (use g in simp_all)
  obtain e2 where e2: "share2 = (en_share E)\<lparr> fs_core := e2 \<rparr>" "calm c2 e2" "wlocked e2 = wlocked c2 - lock_set (ss_h ?x)" "\<not> h_row_locked h2"
    by (rule unlock_row_ok [OF _ _ d(2)]) (use g in simp_all)
  have ls: "lock_set (ss_h ?x) = {in_current_slot (ss_info ?x)}" using l(2) by (simp add: locks_of_set)
  have "rows e1 = (if \<exists>k. refused (en_core E) r new_data k then rows (en_core E)
      else (rows (en_core E))(in_current_slot (ss_info ?x) \<mapsto> new_data))"
    using e1(2) u(4,5) by (auto simp: calm_def good_step_def)
  moreover have "rows e2 = (rows (en_core E))(in_current_slot (ss_info ?x) := None)"
    using e2(2) d(4) by (simp add: calm_def removed_def)
  ultimately show ?thesis using u(1,4) d(1) e1 e2 g(5,6) ls by simp
qed

text \<open>C12. Writes and the row lock. When a handler calls \<^verbatim>\<open>update_row\<close> or \<^verbatim>\<open>delete_row\<close> without the lock of its current row, there
  are two cases. Outside of a write statement, without a current row, or with the lock of another row held, the call returns
  \<^verbatim>\<open>HA_ERR_RECORD_CHANGED\<close>: the rows stay as they are, and the handler loses the lock that it had. In a write statement with a current
  row and no lock, the lock of that row is taken first: the call waits while the lock is held elsewhere, and else
  takes it, and does then exactly what it does for a handler that came with the lock.\<close>

theorem write_needs_row_lock:
  assumes "opened share infos" "ses_step\<^sup>*\<^sup>* (fresh_engine share infos) E" "\<not> holds_row (ss_info (en_ses E t)) (ss_h (en_ses E t))"
  shows "if h_write_stmt (ss_h (en_ses E t)) \<and> 0 \<le> in_current_slot (ss_info (en_ses E t)) \<and> \<not> h_row_locked (ss_h (en_ses E t))
    then \<forall>sl. fm_slot (en_core E) (in_current_slot (ss_info (en_ses E t))) = Some sl \<longrightarrow>
      (if sl_wlock sl
       then update_row K (en_share E) (ss_info (en_ses E t)) (ss_h (en_ses E t)) old_data new_data = None \<and>
         delete_row (en_share E) (ss_info (en_ses E t)) (ss_h (en_ses E t)) old_data = None
       else \<exists>share1 h1. lock_current_row (en_share E) (ss_info (en_ses E t)) (ss_h (en_ses E t)) = Some (share1, h1) \<and>
         h_write_stmt h1 \<and> holds_row (ss_info (en_ses E t)) h1 \<and> rows (fs_core share1) = rows (en_core E) \<and>
         wlocked (fs_core share1) = insert (in_current_slot (ss_info (en_ses E t))) (wlocked (en_core E)) \<and>
         update_row K (en_share E) (ss_info (en_ses E t)) (ss_h (en_ses E t)) old_data new_data =
           update_row K share1 (ss_info (en_ses E t)) h1 old_data new_data \<and>
         delete_row (en_share E) (ss_info (en_ses E t)) (ss_h (en_ses E t)) old_data =
           delete_row share1 (ss_info (en_ses E t)) h1 old_data)
    else \<exists>share' h'. update_row K (en_share E) (ss_info (en_ses E t)) (ss_h (en_ses E t)) old_data new_data =
        Some (share', ss_info (en_ses E t), h', HA_ERR_RECORD_CHANGED) \<and>
      delete_row (en_share E) (ss_info (en_ses E t)) (ss_h (en_ses E t)) old_data =
        Some (share', ss_info (en_ses E t), h', HA_ERR_RECORD_CHANGED) \<and>
      rows (fs_core share') = rows (en_core E) \<and> gens (fs_core share') = gens (en_core E) \<and> \<not> h_row_locked h' \<and>
      wlocked (fs_core share') = wlocked (en_core E) - (if h_row_locked (ss_h (en_ses E t)) then {h_locked_slot (ss_h (en_ses E t))} else {})"
proof -
  have inv: "ses_inv E" by (rule reached_inv [OF assms(1,2)])
  show ?thesis
  proof (cases "h_write_stmt (ss_h (en_ses E t)) \<and> 0 \<le> in_current_slot (ss_info (en_ses E t)) \<and> \<not> h_row_locked (ss_h (en_ses E t))")
    case True
    then have w: "h_write_stmt (ss_h (en_ses E t))" "0 \<le> in_current_slot (ss_info (en_ses E t))" "\<not> h_row_locked (ss_h (en_ses E t))" by simp_all
    show ?thesis unfolding if_P [OF True] using write_locks_first [OF ses_invD(1,2) [OF inv] w] by blast
  next
    case False
    show ?thesis unfolding if_not_P [OF False] by (rule write_refused [OF inv assms(3) False])
  qed
qed

text \<open>Emptying a table waits for the row locks. While any handler holds a row lock, \<^verbatim>\<open>delete_all_rows\<close> does not return in any
  handler. For the handler that holds the lock itself this is final, as nobody else releases it: the method does not give the lock up
  first.\<close>

theorem delete_all_rows_waits:
  assumes "opened share infos" "ses_step\<^sup>*\<^sup>* (fresh_engine share infos) E" "h_row_locked (ss_h (en_ses E t))"
  shows "delete_all_rows (en_share E) (ss_info (en_ses E u)) (ss_h (en_ses E u)) = None"
proof -
  have inv: "ses_inv E" by (rule reached_inv [OF assms(1,2)])
  have "wlocked (en_core E) \<noteq> {}" using lock_owned [OF inv] assms(3) by blast
  then have "fm_core_clear (en_core E) = None" by (rule clear_blocked [OF ses_invD(1,2) [OF inv]])
  then show ?thesis by (simp add: delete_all_rows_def fm_clear_def)
qed

text \<open>C38. The read methods are runs of the step relation. Whatever a call of \<^verbatim>\<open>index_read_map\<close>, \<^verbatim>\<open>index_read_idx_map\<close>,
  \<^verbatim>\<open>index_read_last_map\<close>, \<^verbatim>\<open>index_next\<close>, \<^verbatim>\<open>rnd_next\<close>, \<^verbatim>\<open>rnd_pos\<close> or \<^verbatim>\<open>find_unique_row\<close> does in one go is reached by steps of the
  handler, so what holds in all interleavings of the steps holds for these methods. The index of the call, and for \<^verbatim>\<open>index_next\<close> the
  index of the last lookup if there was one, is one of the table's.\<close>

theorem read_methods_run:
  assumes "length buf = sc_reclength (en_core E)" "inx < sc_keys (en_core E)"
    "in_lastinx (ss_info (en_ses E t)) < int (sc_keys (en_core E))"
    "Some r \<in> {index_read_map inx (en_share E) (ss_info (en_ses E t)) (ss_h (en_ses E t)) buf key,
       index_read_idx_map (en_share E) (ss_info (en_ses E t)) (ss_h (en_ses E t)) buf inx key,
       index_read_last_map inx (en_share E) (ss_info (en_ses E t)) (ss_h (en_ses E t)) buf key,
       index_next (en_share E) (ss_info (en_ses E t)) (ss_h (en_ses E t)) buf,
       rnd_next (en_share E) (ss_info (en_ses E t)) (ss_h (en_ses E t)) buf,
       rnd_pos (en_share E) (ss_info (en_ses E t)) (ss_h (en_ses E t)) buf pos,
       map_option (\<lambda>(share, info, h, rc, b). (share, info, h, found rc, b))
         (find_unique_row Env (en_share E) (ss_info (en_ses E t)) (ss_h (en_ses E t)) buf inx)}"
  shows "ses_step\<^sup>*\<^sup>* E (after_read E t r)"
proof -
  have same: "index_read_map inx (en_share E) (ss_info (en_ses E t)) (ss_h (en_ses E t)) buf key =
      index_read_idx_map (en_share E) (ss_info (en_ses E t)) (ss_h (en_ses E t)) buf inx key"
    "index_read_last_map inx (en_share E) (ss_info (en_ses E t)) (ss_h (en_ses E t)) buf key =
      index_read_idx_map (en_share E) (ss_info (en_ses E t)) (ss_h (en_ses E t)) buf inx key"
    by (simp_all only: index_read_map_def index_read_idx_map_def index_read_last_map_def)
  have unique: "ses_step\<^sup>*\<^sup>* E (after_read E t r)"
    if "Some r = map_option (\<lambda>(share, info, h, rc, b). (share, info, h, found rc, b))
         (find_unique_row Env (en_share E) (ss_info (en_ses E t)) (ss_h (en_ses E t)) buf inx)"
    using that unique_steps [OF assms(1,2), of Env t] by (auto simp: eq_commute [of "Some r"])
  show ?thesis
    using assms(4) unfolding same insert_iff empty_iff
    by (elim disjE FalseE)
      (rule index_read_steps [OF assms(1,2) sym], assumption | rule index_next_steps [OF assms(1) sym assms(3)], assumption
       | rule scan_steps [OF assms(1) sym], assumption | rule unique, assumption)+
qed

section \<open>A run\<close>

text \<open>On the example table with one row, handler 0 opens a write statement and reads the row by its position.\<close>

definition ex_engine :: engine where
  "ex_engine = fresh_engine (ex_fm_share ex_one) (\<lambda>_. ex_info)"

definition ex_writing :: engine where
  "ex_writing = set_ses ex_engine 0 (ex_fm_share ex_one) ((en_ses ex_engine 0)\<lparr> ss_h := new_ha_fastmem\<lparr> h_write_stmt := True \<rparr> \<rparr>)"

definition ex_locked_core :: FM_SHARE_CORE where
  "ex_locked_core = upd_slot ex_one ex_slot_one ((the (fm_slot ex_one ex_slot_one))\<lparr> sl_wlock := True \<rparr>)"

definition ex_ref :: FM_SLOT_REF where
  "ex_ref = \<lparr> ref_slot = ex_slot_one, ref_gen = the (gens ex_one ex_slot_one) \<rparr>"

definition ex_info_read :: FM_INFO where
  "ex_info_read = ex_info\<lparr> in_lastinx := -1, in_current_slot := ex_slot_one, in_current_gen := the (gens ex_one ex_slot_one),
     in_current_hash_slot := -1, in_update := {HA_STATE_PREV_FOUND, HA_STATE_NEXT_FOUND, HA_STATE_AKTIV} \<rparr>"

definition ex_h_locked :: ha_fastmem where
  "ex_h_locked = new_ha_fastmem\<lparr> h_write_stmt := True, h_row_locked := True, h_locked_slot := ex_slot_one \<rparr>"

definition ex_locked :: engine where
  "ex_locked = after_read ex_writing 0 (ex_fm_share ex_locked_core, ex_info_read, ex_h_locked, HA_OK, [7])"

lemma ex_opened: "opened (ex_fm_share ex_one) (\<lambda>_. ex_info)"
proof -
  have "sc_auto_key ex_one = 0" using ex_one_table(5) ex_auto_key by (simp add: same_shape_def lasting_def)
  then show ?thesis by (simp add: opened_def ex_one auto_key_ok_def)
qed

lemma ex_writing_run: "ses_step ex_engine ex_writing"
proof -
  have "ses_step ex_engine (set_ses ex_engine 0 (ex_fm_share ex_one) ((en_ses ex_engine 0)\<lparr> ss_h := new_ha_fastmem\<lparr> h_write_stmt := True \<rparr>,
      ss_pending := None, ss_image := (if F_WRLCK = F_UNLCK then None else ss_image (en_ses ex_engine 0)) \<rparr>))"
    by (rule ses_step.statement [OF refl, where ty = F_WRLCK]) (simp add: ex_engine_def fresh_engine_def external_lock_def)
  then show ?thesis by (simp add: ex_writing_def ex_engine_def fresh_engine_def set_ses_def)
qed

lemma ex_locked_table:
  "calm ex_one ex_locked_core" "wlocked ex_locked_core = {ex_slot_one}" "kstat ex_locked_core = kstat ex_one"
  "lock_slot ex_one ex_slot_one = Some ex_locked_core" "gens ex_one ex_slot_one = Some (ref_gen ex_ref)"
proof -
  obtain sl where sl: "fm_slot ex_one ex_slot_one = Some sl" "\<not> sl_wlock sl" by (rule ex_one_slotE)
  have e: "ex_locked_core = upd_slot ex_one ex_slot_one (sl\<lparr> sl_wlock := True \<rparr>)" using sl(1) by (simp add: ex_locked_core_def)
  show "calm ex_one ex_locked_core" unfolding e by (rule calm_wlock(1) [OF ex_one_table(1,2) sl(1)])
  show "wlocked ex_locked_core = {ex_slot_one}" unfolding e using calm_wlock(2) [OF ex_one_table(1,2) sl(1), of True] by (simp add: ex_one)
  show "kstat ex_locked_core = kstat ex_one" unfolding e by (simp add: fun_eq_iff)
  show "lock_slot ex_one ex_slot_one = Some ex_locked_core" unfolding e using sl by (rule lock_slot_free)
  show "gens ex_one ex_slot_one = Some (ref_gen ex_ref)" using sl(1) by (simp add: ex_ref_def gens_def)
qed

lemma ex_slot_nonneg: "0 \<le> ex_slot_one"
  by (rule ex_one_slotE) (auto dest: fm_slot_nonneg)

lemma ex_rnd_pos: "rnd_pos (ex_fm_share ex_one) ex_info (new_ha_fastmem\<lparr> h_write_stmt := True \<rparr>) [0] ex_ref =
  Some (ex_fm_share ex_locked_core, ex_info_read, ex_h_locked, HA_OK, [7])"
proof -
  let ?g = "ref_gen ex_ref" and ?c = ex_locked_core
  note t = ex_locked_table
  have c: "core_inv ?c" "rows ?c ex_slot_one = Some [7]" "gens ?c ex_slot_one = Some ?g" "sc_reclength ?c = 1"
    using t(1,5) by (simp_all add: calm_def ex_one_table ex_one_shape)
  have "fm_core_read_row ex_one ex_slot_one True ?g [0] = Some (FM_ERR_OK, [7])"
    by (rule core_refs.hit) (simp_all add: ex_one_table ex_one_shape t(5))
  then have a: "fm_rrnd (ex_fm_share ex_one) ex_info [0] ex_ref = Some (ex_info_read, HA_OK, [7])"
    using ex_slot_nonneg by (simp add: fm_rrnd_def ex_info_read_def t(5)) (simp add: ex_ref_def)
  have b: "fm_core_read_row ?c ex_slot_one True ?g [7] = Some (FM_ERR_OK, [7])"
    by (rule core_refs.hit) (use c in simp_all)
  show ?thesis
    using a b c(3) t(4,5) ex_slot_nonneg
    by (simp add: rnd_pos_def lock_and_reread_def lock_current_row_def unlock_current_row_def fm_reread_locked_def fm_slot_gen_def
        new_ha_fastmem_def ex_h_locked_def ex_info_read_def) (simp add: ex_fm_share_def)
qed

lemma ex_writing_at: "en_ses ex_writing 0 = \<lparr> ss_info = ex_info, ss_h = new_ha_fastmem\<lparr> h_write_stmt := True \<rparr>,
    ss_pending = None, ss_image = None \<rparr>" "en_share ex_writing = ex_fm_share ex_one"
  by (simp_all add: ex_writing_def ex_engine_def fresh_engine_def)

lemma ex_locked_at: "en_ses ex_locked 0 = \<lparr> ss_info = ex_info_read, ss_h = ex_h_locked, ss_pending = None, ss_image = Some [7] \<rparr>"
  "en_share ex_locked = ex_fm_share ex_locked_core"
  by (simp_all add: ex_locked_def after_read_def ex_writing_at)

lemma ex_locked_run: "ses_step\<^sup>*\<^sup>* (fresh_engine (ex_fm_share ex_one) (\<lambda>_. ex_info)) ex_locked"
proof -
  obtain i e b where f: "fm_rrnd (ex_fm_share ex_one) ex_info [0] ex_ref = Some (i, e, b)"
    using ex_rnd_pos by (auto simp: rnd_pos_def bind_eq_Some_conv)
  have "ses_step\<^sup>*\<^sup>* ex_writing ex_locked"
    unfolding ex_locked_def
    by (rule read_steps [where buf = "[0]", OF _ lookup.rrnd [where pos = ex_ref]])
      (use ex_rnd_pos f in \<open>auto simp: ex_writing_at ex_one_shape rnd_pos_def split: if_splits\<close>)
  then show ?thesis using ex_writing_run unfolding ex_engine_def by (rule converse_rtranclp_into_rtranclp [rotated])
qed

lemma ex_locked_not_refused: "\<nexists>k. refused ex_locked_core [7] [9] k"
  using ex_locked_table(1,3)
  by (auto simp: refused_def calm_def ex_one_shape ex_one_table ex_conflict byte_at_def split: if_splits)

theorem sessions_no_lost_update_witness: "rows ex_locked_core ex_slot_one = Some [7] \<and> ex_slot_one \<in> wlocked ex_locked_core"
  using sessions_no_lost_update [OF ex_opened ex_locked_run, of 0 "[7]"] by (simp add: ex_locked_at ex_info_read_def)

theorem sessions_typed_witness: "length (in_scratch ex_info_read) = sc_reclength ex_locked_core \<and> fm_slot ex_locked_core ex_slot_one \<noteq> None"
proof -
  have "length (in_scratch (ss_info (en_ses ex_locked 0))) = sc_reclength (en_core ex_locked) \<and>
    (h_row_locked (ss_h (en_ses ex_locked 0)) \<longrightarrow> fm_slot (en_core ex_locked) (h_locked_slot (ss_h (en_ses ex_locked 0))) \<noteq> None)"
    using sessions_typed [OF ex_opened ex_locked_run] by blast
  then show ?thesis by (simp add: ex_locked_at ex_h_locked_def)
qed

theorem sessions_write_back_witness:
  "\<exists>share' info' h'. update_row ex_korr (ex_fm_share ex_locked_core) ex_info_read ex_h_locked [7] [9] = Some (share', info', h', HA_OK) \<and>
     rows (fs_core share') = [ex_slot_one \<mapsto> [9]] \<and> wlocked (fs_core share') = {}"
proof -
  have r: "rows ex_locked_core = [ex_slot_one \<mapsto> [7]]" "sc_reclength ex_locked_core = 1"
    using ex_locked_table(1) by (simp_all add: calm_def ex_one_table ex_one_shape)
  from sessions_write_back [OF ex_opened ex_locked_run, of 0 "[7]" "[9]" ex_korr]
  show ?thesis using ex_locked_not_refused ex_locked_table(2) by (auto simp: ex_locked_at r ex_info_read_def)
qed

theorem write_needs_row_lock_witness:
  "\<exists>share' h'. update_row ex_korr (ex_fm_share ex_one) ex_info (new_ha_fastmem\<lparr> h_write_stmt := True \<rparr>) [7] [9] =
     Some (share', ex_info, h', HA_ERR_RECORD_CHANGED) \<and> rows (fs_core share') = [ex_slot_one \<mapsto> [7]]"
proof -
  have "ses_step\<^sup>*\<^sup>* (fresh_engine (ex_fm_share ex_one) (\<lambda>_. ex_info)) ex_writing" using ex_writing_run by (simp add: ex_engine_def)
  from write_needs_row_lock [OF ex_opened this, of 0 ex_korr "[7]" "[9]"]
  show ?thesis by (auto simp: ex_writing_at holds_row_def new_ha_fastmem_def ex_info_def ex_one_table)
qed

theorem delete_all_rows_waits_witness: "delete_all_rows (ex_fm_share ex_locked_core) ex_info_read ex_h_locked = None"
  using delete_all_rows_waits [OF ex_opened ex_locked_run, of 0 0] by (simp add: ex_locked_at ex_h_locked_def)

theorem read_methods_run_witness: "ses_step\<^sup>*\<^sup>* ex_writing (after_read ex_writing 0 (ex_fm_share ex_locked_core, ex_info_read, ex_h_locked, HA_OK, [7]))"
proof -
  have "in_lastinx ex_info < 1" by (simp add: ex_info_def)
  then show ?thesis
    by (intro read_methods_run [where buf = "[0]" and inx = 0 and pos = ex_ref]) (simp_all add: ex_writing_at ex_one_shape ex_rnd_pos)
qed

end
