(* ===== verification/FM_Locks.thy ===== *)
theory FM_Locks
  imports FM_Handler
begin

text \<open>
  The spinlocks of a table and the order in which threads take them. Every operation of \<^verbatim>\<open>fm_core.h\<close> and every
  method of the handler is given by the sequence of its \<^verbatim>\<open>lock()\<close> and \<^verbatim>\<open>unlock()\<close> calls; what it does in between,
  and the outcome of its checks, is left open, so that every outcome is covered. A machine interleaves the calls of
  any number of threads, lock by lock. The locale \<open>lock_order\<close> derives from a rank of the locks, which every call
  climbs, that no threads wait for each other in a cycle. There are two ranks: the operations of the core that take
  the row lock themselves, \<^verbatim>\<open>fm_core_clear\<close> among them, and the methods of the handler, which hold a row lock between
  calls, except \<^verbatim>\<open>delete_all_rows\<close>.
\<close>

section \<open>Locks and lock sequences\<close>

datatype lock = Struct_Mutex | Bucket nat nat | Wlock fm_i32

datatype lock_act = Acquire lock | Release lock

definition with_lock :: "lock \<Rightarrow> lock_act list" where
  "with_lock l = [Acquire l, Release l]"

subsection \<open>The core\<close>

text \<open>The bucket of key \<open>k\<close> is the entry \<open>k\<close> of the list \<open>bs\<close>. Lookups hold the lock of one bucket.\<close>

definition find_acts :: "nat \<Rightarrow> nat \<Rightarrow> lock_act list" where
  "find_acts k b = with_lock (Bucket k b)"

definition key_acts :: "(nat \<times> nat) list \<Rightarrow> lock_act list" where
  "key_acts ps = concat (map (\<lambda>(k, b). with_lock (Bucket k b)) ps)"

text \<open>How an insert ends: there is no slot, key \<open>d\<close> has a duplicate, or the row is in.\<close>

datatype insert_end = Insert_full | Insert_dup nat | Insert_done

definition insert_acts :: "nat list \<Rightarrow> insert_end \<Rightarrow> lock_act list" where
  "insert_acts bs e = Acquire Struct_Mutex #
     (case e of
        Insert_full \<Rightarrow> []
      | Insert_dup d \<Rightarrow> key_acts (take (Suc d) (enumerate 0 bs)) @ key_acts (rev (take d (enumerate 0 bs)))
      | Insert_done \<Rightarrow> key_acts (enumerate 0 bs)) @
     [Release Struct_Mutex]"

text \<open>The loops over a sorted lock set skip repeated entries; the second one runs backwards.\<close>

definition entries :: "FMB list \<Rightarrow> FMB list" where
  "entries ls = map ((!) ls) (filter (first_entry ls) [0..<length ls])"

definition lock_acts :: "FMB list \<Rightarrow> lock_act list" where
  "lock_acts ls = map (\<lambda>(k, b). Acquire (Bucket k b)) (entries ls)"

definition unlock_acts :: "FMB list \<Rightarrow> lock_act list" where
  "unlock_acts ls = map (\<lambda>(k, b). Release (Bucket k b)) (rev (entries ls))"

text \<open>\<^verbatim>\<open>fm_core_update_row\<close> with the collected lock set \<open>ls\<close>, which is empty when no key has changed. A duplicate ends it
  before the row lock.\<close>

definition update_row_acts :: "fm_i32 \<Rightarrow> FMB list \<Rightarrow> bool \<Rightarrow> lock_act list" where
  "update_row_acts idx ls dup =
     (if ls = [] then with_lock (Wlock idx)
      else lock_acts (sort_locks ls) @ (if dup then [] else with_lock (Wlock idx)) @ unlock_acts (sort_locks ls))"

definition update_row_locked_acts :: "FMB list \<Rightarrow> lock_act list" where
  "update_row_locked_acts ls = lock_acts (sort_locks ls) @ unlock_acts (sort_locks ls)"

text \<open>\<open>gone\<close>: the row is not there any more, or has another generation.\<close>

definition delete_row_acts :: "fm_i32 \<Rightarrow> nat list \<Rightarrow> bool \<Rightarrow> lock_act list" where
  "delete_row_acts idx bs gone =
     with_lock (Wlock idx) @ (if gone then [] else key_acts (enumerate 0 bs) @ with_lock Struct_Mutex)"

definition delete_row_locked_acts :: "nat list \<Rightarrow> bool \<Rightarrow> lock_act list" where
  "delete_row_locked_acts bs gone = (if gone then [] else key_acts (enumerate 0 bs) @ with_lock Struct_Mutex)"

text \<open>\<open>ns\<close> has the number of buckets of every key, \<open>nchunks\<close> is the number of chunks: every slot of them is
  locked and released.\<close>

definition row_acts :: "nat \<Rightarrow> nat \<Rightarrow> lock_act list" where
  "row_acts i n = concat (map (\<lambda>i. with_lock (Wlock (int i))) [i..<n])"

definition clear_acts :: "nat list \<Rightarrow> nat \<Rightarrow> lock_act list" where
  "clear_acts ns nchunks = Acquire Struct_Mutex #
     key_acts (concat (map (\<lambda>(k, n). map (Pair k) [0..<n]) (enumerate 0 ns))) @
     row_acts 0 (nchunks * FM_CHUNK_SIZE) @ [Release Struct_Mutex]"

lemma row_acts_Cons: "i < n \<Longrightarrow> row_acts i n = with_lock (Wlock (int i)) @ row_acts (Suc i) n"
  by (simp add: row_acts_def upt_conv_Cons)

subsection \<open>The handler\<close>

text \<open>The row whose lock the handler has.\<close>

fun held_row :: "lock list \<Rightarrow> fm_i32 option" where
  "held_row [Wlock i] = Some i"
| "held_row _ = None"

definition release_acts :: "fm_i32 option \<Rightarrow> lock_act list" where
  "release_acts hr = (case hr of None \<Rightarrow> [] | Some i \<Rightarrow> [Release (Wlock i)])"

text \<open>\<^verbatim>\<open>lock_current_row\<close> on slot \<open>i\<close>.\<close>

definition lock_row_acts :: "fm_i32 option \<Rightarrow> fm_i32 \<Rightarrow> lock_act list" where
  "lock_row_acts hr i = (if hr = Some i then [] else release_acts hr @ [Acquire (Wlock i)])"

text \<open>What a read of a write statement ends with, when a row was found: its slot, and whether it is gone in the second read.\<close>

definition reread_acts :: "fm_i32 option \<Rightarrow> (fm_i32 \<times> bool) option \<Rightarrow> lock_act list" where
  "reread_acts hr found = (case found of None \<Rightarrow> []
     | Some (i, gone) \<Rightarrow> lock_row_acts hr i @ (if gone then [Release (Wlock i)] else []))"

text \<open>\<^verbatim>\<open>update_row\<close> and \<^verbatim>\<open>delete_row\<close> on slot \<open>i\<close>: with the lock of another row the call is refused, and the lock dropped.\<close>

definition write_acts :: "fm_i32 option \<Rightarrow> fm_i32 \<Rightarrow> lock_act list \<Rightarrow> lock_act list" where
  "write_acts hr i p =
     (if hr = None \<or> hr = Some i then lock_row_acts hr i @ p @ [Release (Wlock i)] else release_acts hr)"

section \<open>The machine\<close>

text \<open>The flags of the spinlocks, and for each thread the locks it has taken and the rest of its call.\<close>

record lk_state =
  lk_flag :: "lock \<Rightarrow> FM_SPIN"
  lk_threads :: "(lock list \<times> lock_act list) list"

definition lk_init :: "nat \<Rightarrow> lk_state" where
  "lk_init n = \<lparr> lk_flag = (\<lambda>l. False), lk_threads = replicate n ([], []) \<rparr>"

abbreviation lk_held :: "lk_state \<Rightarrow> nat \<Rightarrow> lock list" where
  "lk_held st t \<equiv> fst (lk_threads st ! t)"

abbreviation lk_rest :: "lk_state \<Rightarrow> nat \<Rightarrow> lock_act list" where
  "lk_rest st t \<equiv> snd (lk_threads st ! t)"

text \<open>\<open>calls H p\<close>: a thread that has the locks \<open>H\<close> may call an operation with the lock sequence \<open>p\<close>. A thread at a lock
  that is taken has no step.\<close>

inductive lk_step :: "(lock list \<Rightarrow> lock_act list \<Rightarrow> bool) \<Rightarrow> lk_state \<Rightarrow> lk_state \<Rightarrow> bool" for calls where
  call: "t < length (lk_threads st) \<Longrightarrow> lk_threads st ! t = (H, []) \<Longrightarrow> calls H p \<Longrightarrow>
    lk_step calls st (st\<lparr> lk_threads := (lk_threads st)[t := (H, p)] \<rparr>)"
| acquire: "t < length (lk_threads st) \<Longrightarrow> lk_threads st ! t = (H, Acquire l # p) \<Longrightarrow> spin_lock (lk_flag st l) = Some g \<Longrightarrow>
    lk_step calls st (st\<lparr> lk_flag := (lk_flag st)(l := g), lk_threads := (lk_threads st)[t := (l # H, p)] \<rparr>)"
| release: "t < length (lk_threads st) \<Longrightarrow> lk_threads st ! t = (H, Release l # p) \<Longrightarrow>
    lk_step calls st (st\<lparr> lk_flag := (lk_flag st)(l := spin_unlock (lk_flag st l)),
      lk_threads := (lk_threads st)[t := (remove1 l H, p)] \<rparr>)"

definition can_move :: "lk_state \<Rightarrow> nat \<Rightarrow> bool" where
  "can_move st t = (t < length (lk_threads st) \<and>
     (case lk_rest st t of [] \<Rightarrow> False | Acquire l # p \<Rightarrow> \<not> lk_flag st l | Release l # p \<Rightarrow> True))"

text \<open>Thread \<open>t\<close> is at a lock that \<open>u\<close> has.\<close>

definition waits_for :: "lk_state \<Rightarrow> nat \<Rightarrow> nat \<Rightarrow> bool" where
  "waits_for st t u = (t < length (lk_threads st) \<and> u < length (lk_threads st) \<and>
     (case lk_rest st t of Acquire l # p \<Rightarrow> l \<in> set (lk_held st u) | _ \<Rightarrow> False))"

text \<open>The calls of the core that a program may make from any thread: \<^verbatim>\<open>fm_core_update_row_locked\<close> and
  \<^verbatim>\<open>fm_core_delete_row_locked\<close> are for callers that have the row lock.\<close>

inductive core_call :: "lock list \<Rightarrow> lock_act list \<Rightarrow> bool" where
  find_call: "core_call H (find_acts k b)"
| insert_call: "core_call H (insert_acts bs e)"
| update_call: "lock_range ls \<Longrightarrow> core_call H (update_row_acts idx ls dup)"
| delete_call: "core_call H (delete_row_acts idx bs gone)"
| clear_call: "core_call H (clear_acts ns nchunks)"

text \<open>The methods of the handler: reads by index and by position, \<^verbatim>\<open>write_row\<close>, \<^verbatim>\<open>update_row\<close>, \<^verbatim>\<open>delete_row\<close>, and the methods
  that give up the row lock (\<^verbatim>\<open>rnd_init\<close>, \<^verbatim>\<open>reset\<close>, \<^verbatim>\<open>external_lock\<close>).\<close>

inductive handler_call :: "lock list \<Rightarrow> lock_act list \<Rightarrow> bool" where
  index_call: "handler_call H (find_acts k b @ reread_acts (held_row H) found)"
| scan_call: "handler_call H (reread_acts (held_row H) found)"
| write_call: "handler_call H (insert_acts bs e)"
| update_call: "lock_range ls \<Longrightarrow> handler_call H (write_acts (held_row H) i (update_row_locked_acts ls))"
| delete_call: "handler_call H (write_acts (held_row H) i (delete_row_locked_acts bs gone))"
| end_call: "handler_call H (release_acts (held_row H))"

text \<open>The same with \<^verbatim>\<open>delete_all_rows\<close>.\<close>

definition handler_or_clear_call :: "lock list \<Rightarrow> lock_act list \<Rightarrow> bool" where
  "handler_or_clear_call H p = (handler_call H p \<or> (\<exists>ns nchunks. p = clear_acts ns nchunks))"

section \<open>Climbing a rank\<close>

text \<open>A lock sequence climbs a rank if every lock is taken above all locks held, and only locks held are released; \<open>ok\<close> is what
  may be held at the end.\<close>

primrec climbs :: "(lock \<Rightarrow> nat) \<Rightarrow> (lock list \<Rightarrow> bool) \<Rightarrow> lock list \<Rightarrow> lock_act list \<Rightarrow> bool" where
  "climbs rank ok H [] = ok H"
| "climbs rank ok H (a # p) = (case a of
      Acquire l \<Rightarrow> (\<forall>h \<in> set H. rank h < rank l) \<and> climbs rank ok (l # H) p
    | Release l \<Rightarrow> l \<in> set H \<and> climbs rank ok (remove1 l H) p)"

locale lock_order =
  fixes rank :: "lock \<Rightarrow> nat"
    and calls :: "lock list \<Rightarrow> lock_act list \<Rightarrow> bool"
    and ok :: "lock list \<Rightarrow> bool"
  assumes idle_ok: "ok []"
    and calls_climb: "ok H \<Longrightarrow> calls H p \<Longrightarrow> climbs rank ok H p"
begin

text \<open>A flag is set exactly while a thread has the lock, and no two threads have the same lock.\<close>

definition lk_inv :: "lk_state \<Rightarrow> bool" where
  "lk_inv st = ((\<forall>t < length (lk_threads st). distinct (lk_held st t) \<and> climbs rank ok (lk_held st t) (lk_rest st t)) \<and>
     (\<forall>l. lk_flag st l = (\<exists>t < length (lk_threads st). l \<in> set (lk_held st t))) \<and>
     (\<forall>t < length (lk_threads st). \<forall>u < length (lk_threads st). t \<noteq> u \<longrightarrow> set (lk_held st t) \<inter> set (lk_held st u) = {}))"

lemma lk_invD:
  assumes "lk_inv st"
  shows "t < length (lk_threads st) \<Longrightarrow> distinct (lk_held st t)"
    "t < length (lk_threads st) \<Longrightarrow> climbs rank ok (lk_held st t) (lk_rest st t)"
    "lk_flag st l = (\<exists>t < length (lk_threads st). l \<in> set (lk_held st t))"
    "t < length (lk_threads st) \<Longrightarrow> u < length (lk_threads st) \<Longrightarrow> t \<noteq> u \<Longrightarrow> set (lk_held st t) \<inter> set (lk_held st u) = {}"
  using assms unfolding lk_inv_def by blast+

lemma lk_flag_held:
  "lk_inv st \<Longrightarrow> t < length (lk_threads st) \<Longrightarrow> lk_threads st ! t = (H, p) \<Longrightarrow> l \<in> set H \<Longrightarrow> lk_flag st l"
  using lk_invD(3) by (metis fst_conv)

text \<open>One thread moves on: the flags of the locks that it takes were not set, those of the locks that it gives up are cleared.\<close>

lemma lk_inv_move:
  assumes inv: "lk_inv st" and t: "t < length (lk_threads st)" "lk_threads st ! t = (H, p)"
    and H: "distinct H'" "climbs rank ok H' p'"
    and flag: "\<And>l. f l = (l \<in> set H' \<or> l \<notin> set H \<and> lk_flag st l)"
    and new: "\<And>l. l \<in> set H' \<Longrightarrow> l \<notin> set H \<Longrightarrow> \<not> lk_flag st l"
  shows "lk_inv \<lparr> lk_flag = f, lk_threads = (lk_threads st)[t := (H', p')] \<rparr>"
proof -
  let ?th = "(lk_threads st)[t := (H', p')]"
  note i = lk_invD [OF inv]
  have th: "?th ! u = (if u = t then (H', p') else lk_threads st ! u)" for u
    using t by (simp add: nth_list_update)
  have h: "l \<notin> set (lk_held st u)" if "u < length (lk_threads st)" "u \<noteq> t" "l \<in> set H" for l u
    using i(4) [OF t(1) that(1)] that t(2) by auto
  have h': "l \<notin> set (lk_held st u)" if "u < length (lk_threads st)" "u \<noteq> t" "l \<in> set H'" for l u
    using new [OF that(3)] i(3) [of l] h [OF that(1,2)] that(1) by blast
  have "f l = (\<exists>u < length ?th. l \<in> set (fst (?th ! u)))" for l
  proof
    assume "f l"
    then consider "l \<in> set H'" | u where "u < length (lk_threads st)" "u \<noteq> t" "l \<in> set (lk_held st u)"
      unfolding flag i(3) using t(2) by fastforce
    then show "\<exists>u < length ?th. l \<in> set (fst (?th ! u))" by cases (use t th in \<open>auto intro: exI [of _ t]\<close>)
  qed (use th flag i(3) [of l] h [of _ l] in \<open>auto split: if_splits\<close>)
  moreover have "set (fst (?th ! u)) \<inter> set (fst (?th ! v)) = {}"
    if "u < length ?th" "v < length ?th" "u \<noteq> v" for u v
    unfolding th using that i(4) [of u v] h' by auto
  moreover have "distinct (fst (?th ! u)) \<and> climbs rank ok (fst (?th ! u)) (snd (?th ! u))" if "u < length ?th" for u
    unfolding th using that i(1,2) H by simp
  ultimately show ?thesis unfolding lk_inv_def by simp
qed

lemma lk_step_inv:
  assumes "lk_step calls st st'" "lk_inv st"
  shows "lk_inv st'"
  using assms(1)
proof (cases rule: lk_step.cases)
  case (call t H p)
  have "distinct H" "ok H" using lk_invD(1,2) [OF assms(2) call(2)] call(3) by auto
  then have "lk_inv \<lparr> lk_flag = lk_flag st, lk_threads = (lk_threads st)[t := (H, p)] \<rparr>"
    using lk_flag_held [OF assms(2) call(2,3)] calls_climb [OF _ call(4)]
    by (intro lk_inv_move [OF assms(2) call(2,3)]) auto
  then show ?thesis using call(1) by (cases st) simp
next
  case (acquire t H l p g)
  have g: "g" "\<not> lk_flag st l" using acquire(4) by (auto simp: spin_lock_def split: if_splits)
  have "distinct H" "climbs rank ok (l # H) p" "l \<notin> set H" using lk_invD(1,2) [OF assms(2) acquire(2)] acquire(3) by auto
  then have "lk_inv \<lparr> lk_flag = (lk_flag st)(l := g), lk_threads = (lk_threads st)[t := (l # H, p)] \<rparr>"
    using lk_flag_held [OF assms(2) acquire(2,3)] g
    by (intro lk_inv_move [OF assms(2) acquire(2,3)]) auto
  then show ?thesis using acquire(1) by (cases st) simp
next
  case (release t H l p)
  have "distinct H" "l \<in> set H" "climbs rank ok (remove1 l H) p" using lk_invD(1,2) [OF assms(2) release(2)] release(3) by auto
  then have "lk_inv \<lparr> lk_flag = (lk_flag st)(l := False), lk_threads = (lk_threads st)[t := (remove1 l H, p)] \<rparr>"
    using lk_flag_held [OF assms(2) release(2,3)]
    by (intro lk_inv_move [OF assms(2) release(2,3)]) auto
  then show ?thesis using release(1) by (cases st) (simp add: spin_unlock_def)
qed

lemma lk_init_inv: "lk_inv (lk_init n)"
  using idle_ok by (simp add: lk_inv_def lk_init_def)

text \<open>The thread that has a lock, and is itself at a lock, is at a lock of higher rank; so a chain of waiting threads ends.\<close>

lemma waiting_ends:
  assumes inv: "lk_inv st" and t: "t < length (lk_threads st)" "lk_rest st t = Acquire l # p"
  shows "\<exists>u < length (lk_threads st). (waits_for st)\<^sup>*\<^sup>* t u \<and> (can_move st u \<or> lk_rest st u = [] \<and> lk_held st u \<noteq> [])"
  using t
proof (induction "card {h \<in> \<Union> (set (map (set \<circ> fst) (lk_threads st))). rank l \<le> rank h}" arbitrary: t l p rule: less_induct)
  case less
  let ?all = "\<Union> (set (map (set \<circ> fst) (lk_threads st)))"
  show ?case
  proof (cases "lk_flag st l")
    case False
    then have "can_move st t" using less.prems by (simp add: can_move_def)
    then show ?thesis using less.prems(1) by blast
  next
    case True
    then obtain u where u: "u < length (lk_threads st)" "l \<in> set (lk_held st u)" using lk_invD(3) [OF inv] by blast
    have w: "waits_for st t u" using less.prems u by (simp add: waits_for_def)
    have l: "l \<in> ?all" using u nth_mem [OF u(1)] by auto
    show ?thesis
    proof (cases "lk_rest st u")
      case Nil
      then show ?thesis using w u by fastforce
    next
      case (Cons a q)
      show ?thesis
      proof (cases a)
        case (Release m)
        then have "can_move st u" using Cons u by (simp add: can_move_def)
        then show ?thesis using w u by blast
      next
        case (Acquire m)
        have "rank l < rank m" using lk_invD(2) [OF inv u(1)] Cons Acquire u(2) by simp
        then have "{h \<in> ?all. rank m \<le> rank h} \<subset> {h \<in> ?all. rank l \<le> rank h}" using l by force
        then have "card {h \<in> ?all. rank m \<le> rank h} < card {h \<in> ?all. rank l \<le> rank h}"
          by (intro psubset_card_mono) auto
        from less.hyps [OF this u(1)] Cons Acquire w show ?thesis by (metis converse_rtranclp_into_rtranclp)
      qed
    qed
  qed
qed

lemma busy_ends:
  assumes inv: "lk_inv st" and t: "t < length (lk_threads st)" "lk_rest st t \<noteq> []"
  shows "\<exists>u < length (lk_threads st). (waits_for st)\<^sup>*\<^sup>* t u \<and> (can_move st u \<or> lk_rest st u = [] \<and> lk_held st u \<noteq> [])"
proof (cases "lk_rest st t")
  case (Cons a p)
  show ?thesis
  proof (cases a)
    case (Acquire l)
    then show ?thesis using waiting_ends [OF inv t(1)] Cons by simp
  next
    case (Release l)
    then have "can_move st t" using Cons t(1) by (simp add: can_move_def)
    then show ?thesis using t(1) by blast
  qed
qed (use t in simp)

end

sublocale lock_order \<subseteq> lk: machine "lk_step calls" lk_inv
  by unfold_locales (rule lk_step_inv)

lemma lk_step_threads: "lk_step calls st st' \<Longrightarrow> length (lk_threads st') = length (lk_threads st)"
  by (induction rule: lk_step.induct) simp_all

lemma lk_run_threads: "(lk_step calls)\<^sup>*\<^sup>* st st' \<Longrightarrow> length (lk_threads st') = length (lk_threads st)"
  by (induction rule: rtranclp_induct) (simp_all add: lk_step_threads)

section \<open>The lock sequences climb\<close>

text \<open>Locks taken one at a time.\<close>

lemma climbs_with_lock [simp]:
  "climbs rank ok H (with_lock l @ p) = ((\<forall>h \<in> set H. rank h < rank l) \<and> climbs rank ok H p)"
  "climbs rank ok H (with_lock l) = ((\<forall>h \<in> set H. rank h < rank l) \<and> ok H)"
  by (simp_all add: with_lock_def)

lemma climbs_key_acts:
  assumes "\<And>h k b. h \<in> set H \<Longrightarrow> rank h < rank (Bucket k b)" "climbs rank ok H p"
  shows "climbs rank ok H (key_acts ps @ p)"
  using assms by (induction ps) (auto simp: key_acts_def)

lemma climbs_rows:
  assumes "\<And>h i. h \<in> set H \<Longrightarrow> rank h < rank (Wlock i)" "climbs rank ok H p"
  shows "climbs rank ok H (concat (map (\<lambda>i. with_lock (Wlock (int i))) xs) @ p)"
  using assms by (induction xs) auto

text \<open>A lock set taken in ascending order and released in descending order.\<close>

lemma climbs_acquire:
  assumes "sorted_wrt (\<lambda>x y. rank (f x) < rank (f y)) xs" "\<forall>h \<in> set H. \<forall>x \<in> set xs. rank h < rank (f x)"
    "climbs rank ok (rev (map f xs) @ H) p"
  shows "climbs rank ok H (map (\<lambda>x. Acquire (f x)) xs @ p)"
  using assms by (induction xs arbitrary: H) auto

lemma climbs_release:
  "climbs rank ok H p \<Longrightarrow> climbs rank ok (map f xs @ H) (map (\<lambda>x. Release (f x)) xs @ p)"
  by (induction xs) auto

lemma entries_ascend:
  assumes "lock_range ls"
  shows "sorted_wrt (\<lambda>x y. lock_code x < lock_code y) (entries (sort_locks ls))"
proof -
  let ?s = "sort_locks ls"
  have st: "sorted (map lock_code ?s)" "set ?s = set ls" using sort_locks_sorts by (auto dest: mset_eq_setD)
  have range: "lock_range ?s" using assms st(2) by (simp add: lock_range_def)
  have "lock_code (?s ! i) < lock_code (?s ! j)" if "i < j" "j < length ?s" "first_entry ?s j" for i j
  proof -
    have "?s ! i \<in> set (take j ?s)" using that by (auto simp: in_set_conv_nth)
    then have "?s ! i \<noteq> ?s ! j" using first_entry_new [OF st(1) range that(2)] that(3) by metis
    moreover obtain k b k' b' where x: "?s ! i = (k, b)" "?s ! j = (k', b')" by fastforce
    moreover have "k < 2 ^ 16 \<and> b < 2 ^ 32" "k' < 2 ^ 16 \<and> b' < 2 ^ 32"
      using range nth_mem [of i ?s] nth_mem [of j ?s] that x unfolding lock_range_def by force+
    ultimately have "lock_code (?s ! i) \<noteq> lock_code (?s ! j)" using lock_code_inj [of k b k' b'] by auto
    then show ?thesis using sorted_nth_mono [OF st(1), of i j] that by simp
  qed
  then have "sorted_wrt (\<lambda>i j. lock_code (?s ! i) < lock_code (?s ! j)) (filter (first_entry ?s) [0..<length ?s])"
    by (intro sorted_wrt_mono_rel [OF _ sorted_wrt_filter [OF sorted_wrt_upt]]) auto
  then show ?thesis by (simp add: entries_def sorted_wrt_map)
qed

lemma climbs_lockset:
  assumes range: "lock_range ls" and rank: "\<And>x y. lock_code x < lock_code y \<Longrightarrow> rank (case_prod Bucket x) < rank (case_prod Bucket y)"
    and H: "\<And>h k b. h \<in> set H \<Longrightarrow> rank h < rank (Bucket k b)"
    and p: "climbs rank ok (rev (map (case_prod Bucket) (entries (sort_locks ls))) @ H) (p @ unlock_acts (sort_locks ls) @ q)"
  shows "climbs rank ok H (lock_acts (sort_locks ls) @ p @ unlock_acts (sort_locks ls) @ q)"
proof -
  have "lock_acts (sort_locks ls) = map (\<lambda>x. Acquire (case_prod Bucket x)) (entries (sort_locks ls))"
    by (auto simp: lock_acts_def)
  moreover have "sorted_wrt (\<lambda>x y. rank (case_prod Bucket x) < rank (case_prod Bucket y)) (entries (sort_locks ls))"
    by (rule sorted_wrt_mono_rel [OF _ entries_ascend [OF range]]) (use rank in blast)
  moreover have "\<forall>h \<in> set H. \<forall>x \<in> set (entries (sort_locks ls)). rank h < rank (case_prod Bucket x)"
    using H by (simp add: case_prod_beta)
  ultimately show ?thesis using climbs_acquire [where f = "case_prod Bucket", OF _ _ p] by simp
qed

lemma climbs_unlock:
  assumes "climbs rank ok H q"
  shows "climbs rank ok (rev (map (case_prod Bucket) (entries ls)) @ H) (unlock_acts ls @ q)"
proof -
  have "unlock_acts ls = map (\<lambda>x. Release (case_prod Bucket x)) (rev (entries ls))" by (auto simp: unlock_acts_def)
  then show ?thesis using climbs_release [OF assms, of "case_prod Bucket" "rev (entries ls)"] by (simp add: rev_map)
qed

subsection \<open>The core: \<open>struct_mutex\<close>, buckets, row\<close>

fun core_rank :: "lock \<Rightarrow> nat" where
  "core_rank Struct_Mutex = 0"
| "core_rank (Bucket k b) = Suc (unat (lock_code (k, b)))"
| "core_rank (Wlock i) = Suc (2 ^ 64)"

lemma core_rank_row: "core_rank (Bucket k b) < core_rank (Wlock i)"
  using unsigned_less [of "lock_code (k, b)"] by simp

lemma core_call_climbs:
  assumes "core_call [] p"
  shows "climbs core_rank (\<lambda>H. H = []) [] p"
  using assms
proof (cases rule: core_call.cases)
  case (insert_call bs e)
  then show ?thesis
    by (auto simp: insert_acts_def intro!: climbs_key_acts split: insert_end.split)
next
  case (update_call ls idx dup)
  have "climbs core_rank (\<lambda>H. H = []) [] (lock_acts (sort_locks ls) @ (if dup then [] else with_lock (Wlock idx)) @ unlock_acts (sort_locks ls) @ [])"
    using update_call(2) core_rank_row climbs_unlock [of core_rank "\<lambda>H. H = []" "[]" "[]" "sort_locks ls"]
    by (intro climbs_lockset) (auto simp: word_less_nat_alt simp del: core_rank.simps(3))
  then show ?thesis using update_call(1) by (simp add: update_row_acts_def)
next
  case (delete_call idx bs gone)
  then show ?thesis by (auto simp: delete_row_acts_def intro!: climbs_key_acts)
next
  case (clear_call ns nchunks)
  then show ?thesis by (auto simp: clear_acts_def row_acts_def intro!: climbs_key_acts climbs_rows)
qed (simp add: find_acts_def)

interpretation core_locks: lock_order core_rank core_call "\<lambda>H. H = []"
  by unfold_locales (auto intro: core_call_climbs)

subsection \<open>The handler: row, \<open>struct_mutex\<close>, buckets\<close>

fun handler_rank :: "lock \<Rightarrow> nat" where
  "handler_rank (Wlock i) = 0"
| "handler_rank Struct_Mutex = 1"
| "handler_rank (Bucket k b) = 2 + unat (lock_code (k, b))"

text \<open>Between two calls a handler has at most one row lock.\<close>

definition row_only :: "lock list \<Rightarrow> bool" where
  "row_only H = (H = [] \<or> (\<exists>i. H = [Wlock i]))"

lemma climbs_insert:
  assumes "\<And>h. h \<in> set H \<Longrightarrow> handler_rank h = 0" "ok H"
  shows "climbs handler_rank ok H (insert_acts bs e)"
  using assms by (auto simp: insert_acts_def intro!: climbs_key_acts split: insert_end.split)

lemma climbs_write:
  assumes H: "row_only H" and p: "\<And>q. climbs handler_rank row_only [Wlock i] q \<Longrightarrow> climbs handler_rank row_only [Wlock i] (p @ q)"
  shows "climbs handler_rank row_only H (write_acts (held_row H) i p)"
proof -
  have "climbs handler_rank row_only [Wlock i] (p @ [Release (Wlock i)])" by (rule p) (simp add: row_only_def)
  then show ?thesis using H by (auto simp: row_only_def write_acts_def lock_row_acts_def release_acts_def)
qed

lemma climbs_reread: "row_only H \<Longrightarrow> climbs handler_rank row_only H (reread_acts (held_row H) found)"
  by (auto simp: row_only_def reread_acts_def lock_row_acts_def release_acts_def split: option.split)

lemma handler_call_climbs:
  assumes "handler_call H p" "row_only H"
  shows "climbs handler_rank row_only H p"
  using assms
proof (cases rule: handler_call.cases)
  case (index_call k b found)
  then show ?thesis using climbs_reread [OF assms(2), of found] assms(2) by (auto simp: find_acts_def row_only_def)
next
  case (write_call bs e)
  then show ?thesis using assms(2) by (auto simp: row_only_def intro!: climbs_insert)
next
  case (update_call ls i)
  have "climbs handler_rank row_only [Wlock i] (lock_acts (sort_locks ls) @ [] @ unlock_acts (sort_locks ls) @ q)"
    if "climbs handler_rank row_only [Wlock i] q" for q
    using climbs_unlock [OF that, of "sort_locks ls"]
    by (intro climbs_lockset) (auto simp: word_less_nat_alt update_call(2))
  then show ?thesis
    unfolding update_call(1) using climbs_write [OF assms(2), of i "update_row_locked_acts ls"] by (simp add: update_row_locked_acts_def)
next
  case (delete_call i bs gone)
  have "climbs handler_rank row_only [Wlock i] (delete_row_locked_acts bs gone @ q)"
    if "climbs handler_rank row_only [Wlock i] q" for q
    using that by (auto simp: delete_row_locked_acts_def intro!: climbs_key_acts)
  then show ?thesis unfolding delete_call(1) by (rule climbs_write [OF assms(2)])
qed (auto simp: climbs_reread, auto simp: row_only_def release_acts_def)

interpretation handler_locks: lock_order handler_rank handler_call row_only
  by unfold_locales (auto simp: row_only_def intro: handler_call_climbs)

section \<open>The lock sequences and the model\<close>

text \<open>The effect of a lock sequence on the flags of a table. The loops over a lock set, and the row lock of the handler, are the
  sequences above.\<close>

fun do_act :: "lock_act \<Rightarrow> FM_SHARE_CORE \<Rightarrow> FM_SHARE_CORE option" where
  "do_act (Acquire Struct_Mutex) s = lock_struct s"
| "do_act (Release Struct_Mutex) s = Some (unlock_struct s)"
| "do_act (Acquire (Bucket k b)) s = lock_bucket s k b"
| "do_act (Release (Bucket k b)) s = unlock_bucket s k b"
| "do_act (Acquire (Wlock i)) s = lock_slot s i"
| "do_act (Release (Wlock i)) s = unlock_slot s i"

lemma foldM_filter_map:
  "foldM (\<lambda>i s. if P i then f (g i) s else Some s) xs = foldM f (map g (filter P xs))"
  by (induction xs) (auto intro!: ext)

lemma lock_buckets_acts: "lock_buckets ls = foldM do_act (lock_acts ls)"
proof
  fix s
  have "lock_acts ls = map (\<lambda>i. Acquire (Bucket (fst (ls ! i)) (snd (ls ! i)))) (filter (first_entry ls) [0..<length ls])"
    by (simp add: lock_acts_def entries_def case_prod_beta comp_def)
  then show "lock_buckets ls s = foldM do_act (lock_acts ls) s"
    unfolding lock_buckets_def by (simp add: foldM_filter_map [symmetric] cong: if_cong)
qed

lemma unlock_buckets_acts: "unlock_buckets ls = foldM do_act (unlock_acts ls)"
proof
  fix s
  have "unlock_acts ls = map (\<lambda>i. Release (Bucket (fst (ls ! i)) (snd (ls ! i)))) (filter (first_entry ls) (rev [0..<length ls]))"
    by (simp add: unlock_acts_def entries_def case_prod_beta comp_def rev_map rev_filter)
  then show "unlock_buckets ls s = foldM do_act (unlock_acts ls) s"
    unfolding unlock_buckets_def by (simp add: foldM_filter_map [symmetric] cong: if_cong)
qed

definition row_of :: "ha_fastmem \<Rightarrow> fm_i32 option" where
  "row_of h = (if h_row_locked h then Some (h_locked_slot h) else None)"

lemma lock_current_row_acts:
  assumes "0 \<le> in_current_slot info"
  shows "lock_current_row share info h =
    map_option (\<lambda>c. (share\<lparr> fs_core := c \<rparr>, h\<lparr> h_row_locked := True, h_locked_slot := in_current_slot info \<rparr>))
      (foldM do_act (lock_row_acts (row_of h) (in_current_slot info)) (fs_core share))"
  using assms
  by (auto simp: lock_current_row_def unlock_current_row_def row_of_def lock_row_acts_def release_acts_def
      split: option.splits bind_splits)

section \<open>No deadlock\<close>

text \<open>C14. The operations of the core that take the row lock themselves do not deadlock. Any number of threads call lookups, inserts,
  updates, deletes and clears of one table, and their lock operations interleave in any order. Then whoever waits, the chain of
  threads that wait for each other ends at a thread that is in a call and can go on.\<close>

theorem core_calls_no_deadlock:
  assumes run: "(lk_step core_call)\<^sup>*\<^sup>* (lk_init n) st" and t: "t < n" "lk_rest st t \<noteq> []"
  shows "\<exists>u < n. (waits_for st)\<^sup>*\<^sup>* t u \<and> can_move st u"
proof -
  have inv: "core_locks.lk_inv st" by (rule core_locks.lk.reach_good [OF run core_locks.lk_init_inv])
  have n: "length (lk_threads st) = n" using lk_run_threads [OF run] by (simp add: lk_init_def)
  show ?thesis
    using core_locks.busy_ends [OF inv] core_locks.lk_invD(2) [OF inv] t unfolding n
    by (metis climbs.simps(1))
qed

text \<open>C13. The methods of the handlers of one table do not deadlock as long as nobody calls \<^verbatim>\<open>delete_all_rows\<close>. Any number of handlers
  read with and without row lock, insert, update, delete and end statements. Then the chain of handlers that wait for each other
  ends at a handler that can go on, or at one that is between two calls of a write statement and has a row lock.\<close>

theorem handler_calls_no_deadlock:
  assumes run: "(lk_step handler_call)\<^sup>*\<^sup>* (lk_init n) st" and t: "t < n" "lk_rest st t \<noteq> []"
  shows "\<exists>u < n. (waits_for st)\<^sup>*\<^sup>* t u \<and> (can_move st u \<or> lk_rest st u = [] \<and> (\<exists>i. lk_held st u = [Wlock i]))"
proof -
  have inv: "handler_locks.lk_inv st" by (rule handler_locks.lk.reach_good [OF run handler_locks.lk_init_inv])
  have n: "length (lk_threads st) = n" using lk_run_threads [OF run] by (simp add: lk_init_def)
  show ?thesis
    using handler_locks.busy_ends [OF inv] handler_locks.lk_invD(2) [OF inv] t unfolding n
    by (metis climbs.simps(1) row_only_def)
qed

section \<open>Runs\<close>

text \<open>The next lock operation of a thread, and a call, as functions.\<close>

definition lk_next :: "nat \<Rightarrow> lk_state \<Rightarrow> lk_state option" where
  "lk_next t st = (if t < length (lk_threads st) then
     (case lk_threads st ! t of
        (H, Acquire l # p) \<Rightarrow> map_option (\<lambda>g. st\<lparr> lk_flag := (lk_flag st)(l := g), lk_threads := (lk_threads st)[t := (l # H, p)] \<rparr>)
          (spin_lock (lk_flag st l))
      | (H, Release l # p) \<Rightarrow> Some (st\<lparr> lk_flag := (lk_flag st)(l := spin_unlock (lk_flag st l)),
          lk_threads := (lk_threads st)[t := (remove1 l H, p)] \<rparr>)
      | (H, []) \<Rightarrow> None) else None)"

definition lk_call :: "nat \<Rightarrow> lock_act list \<Rightarrow> lk_state \<Rightarrow> lk_state" where
  "lk_call t p st = st\<lparr> lk_threads := (lk_threads st)[t := (lk_held st t, p)] \<rparr>"

lemma lk_next_step: "lk_next t st = Some st' \<Longrightarrow> lk_step calls st st'"
  by (auto simp: lk_next_def intro: lk_step.acquire lk_step.release split: if_splits prod.splits list.splits lock_act.splits)

lemma lk_next_run: "foldM lk_next ts st = Some st' \<Longrightarrow> (lk_step calls)\<^sup>*\<^sup>* st st'"
  by (induction ts arbitrary: st) (auto simp: bind_eq_Some_conv intro: lk_next_step converse_rtranclp_into_rtranclp)

lemma lk_call_step: "t < length (lk_threads st) \<Longrightarrow> lk_rest st t = [] \<Longrightarrow> calls (lk_held st t) p \<Longrightarrow> lk_step calls st (lk_call t p st)"
  unfolding lk_call_def by (rule lk_step.call) (simp_all add: prod_eq_iff)

lemma lk_call_run:
  assumes "(lk_step calls)\<^sup>*\<^sup>* st0 st" "t < length (lk_threads st)" "lk_rest st t = []" "calls (lk_held st t) p"
    "foldM lk_next ts (lk_call t p st) = Some st'"
  shows "(lk_step calls)\<^sup>*\<^sup>* st0 st'"
  using assms(1) lk_call_step [OF assms(2,3), of calls] assms(4) lk_next_run [OF assms(5)]
  by (meson rtranclp.rtrancl_into_rtrancl rtranclp_trans)

lemmas lk_run_simps = lk_next_def lk_call_def lk_init_def spin_lock_def spin_unlock_def with_lock_def numeral_2_eq_2

text \<open>An insert has \<^verbatim>\<open>struct_mutex\<close>, and a clear waits for it.\<close>

definition ex_insert_clear :: lk_state where
  "ex_insert_clear = \<lparr> lk_flag = (\<lambda>l. False)(Struct_Mutex := True),
     lk_threads = [([Struct_Mutex], key_acts [(0, 3)] @ [Release Struct_Mutex]), ([], clear_acts [4] 1)] \<rparr>"

lemma ex_insert_clear_run: "(lk_step core_call)\<^sup>*\<^sup>* (lk_init 2) ex_insert_clear"
proof -
  let ?st = "ex_insert_clear\<lparr> lk_threads := (lk_threads ex_insert_clear)[1 := ([], [])] \<rparr>"
  have c: "core_call [] (insert_acts [3] Insert_done)" by (rule core_call.insert_call)
  have "(lk_step core_call)\<^sup>*\<^sup>* (lk_init 2) ?st"
    by (rule lk_call_run [where t = 0 and p = "insert_acts [3] Insert_done" and ts = "[0]"])
      (use c in \<open>auto simp: ex_insert_clear_def insert_acts_def lk_run_simps\<close>)
  then show ?thesis
    by (rule lk_call_run [where t = 1 and p = "clear_acts [4] 1" and ts = "[]"])
      (auto intro: core_call.intros simp: ex_insert_clear_def lk_run_simps)
qed

theorem core_calls_no_deadlock_witness: "\<exists>u < 2. (waits_for ex_insert_clear)\<^sup>*\<^sup>* 1 u \<and> can_move ex_insert_clear u"
  by (rule core_calls_no_deadlock [OF ex_insert_clear_run]) (simp_all add: ex_insert_clear_def clear_acts_def)

lemma ex_first_read: "handler_call [] [Acquire (Wlock 0)]"
  using handler_call.scan_call [of "[]" "Some (0, False)"] by (simp add: reread_acts_def lock_row_acts_def release_acts_def)

text \<open>A handler has read a row in a write statement, and another one wants to delete the row.\<close>

definition ex_two_writers :: lk_state where
  "ex_two_writers = \<lparr> lk_flag = (\<lambda>l. False)(Wlock 0 := True),
     lk_threads = [([Wlock 0], []), ([], write_acts None 0 (delete_row_locked_acts [3] False))] \<rparr>"

lemma ex_two_writers_run: "(lk_step handler_call)\<^sup>*\<^sup>* (lk_init 2) ex_two_writers"
proof -
  let ?st = "ex_two_writers\<lparr> lk_threads := (lk_threads ex_two_writers)[1 := ([], [])] \<rparr>"
  have "(lk_step handler_call)\<^sup>*\<^sup>* (lk_init 2) ?st"
    by (rule lk_call_run [where t = 0 and p = "[Acquire (Wlock 0)]" and ts = "[0]"])
      (auto intro: ex_first_read simp: ex_two_writers_def lk_run_simps)
  then show ?thesis
    by (rule lk_call_run [where t = 1 and p = "write_acts (held_row []) 0 (delete_row_locked_acts [3] False)" and ts = "[]"])
      (auto simp: ex_two_writers_def lk_run_simps intro: handler_call.delete_call [of "[]", simplified])
qed

theorem handler_calls_no_deadlock_witness:
  "\<exists>u < 2. (waits_for ex_two_writers)\<^sup>*\<^sup>* 1 u \<and>
     (can_move ex_two_writers u \<or> lk_rest ex_two_writers u = [] \<and> (\<exists>i. lk_held ex_two_writers u = [Wlock i]))"
  by (rule handler_calls_no_deadlock [OF ex_two_writers_run]) (simp_all add: ex_two_writers_def write_acts_def lock_row_acts_def)

text \<open>A handler that deletes the row it has locked waits for \<^verbatim>\<open>struct_mutex\<close>, which \<^verbatim>\<open>delete_all_rows\<close> of another handler has while
  it waits for the row lock.\<close>

definition ex_stuck :: lk_state where
  "ex_stuck = \<lparr> lk_flag = (\<lambda>l. False)(Wlock 0 := True, Struct_Mutex := True),
     lk_threads = [([Wlock 0], with_lock Struct_Mutex @ [Release (Wlock 0)]), ([Struct_Mutex], with_lock (Wlock 0) @ row_acts 1 FM_CHUNK_SIZE @ [Release Struct_Mutex])] \<rparr>"

lemma ex_first_delete: "handler_call [Wlock 0] (key_acts [(0, 0)] @ with_lock Struct_Mutex @ [Release (Wlock 0)])"
  using handler_call.delete_call [of "[Wlock 0]" 0 "[0]" False] by (simp add: write_acts_def lock_row_acts_def delete_row_locked_acts_def)

definition ex_self_stuck :: lk_state where
  "ex_self_stuck = \<lparr> lk_flag = (\<lambda>l. False)(Wlock 0 := True, Struct_Mutex := True),
     lk_threads = [([Struct_Mutex, Wlock 0], with_lock (Wlock 0) @ row_acts 1 FM_CHUNK_SIZE @ [Release Struct_Mutex])] \<rparr>"

lemma ex_self_stuck_run: "(lk_step handler_or_clear_call)\<^sup>*\<^sup>* (lk_init 1) ex_self_stuck"
proof -
  let ?st = "\<lparr> lk_flag = (\<lambda>l. False)(Wlock 0 := True), lk_threads = [([Wlock 0], [])] \<rparr>"
  have "(lk_step handler_or_clear_call)\<^sup>*\<^sup>* (lk_init 1) ?st"
    by (rule lk_call_run [where t = 0 and p = "[Acquire (Wlock 0)]" and ts = "[0]"])
      (auto intro: ex_first_read simp: handler_or_clear_call_def lk_run_simps)
  moreover have c: "handler_or_clear_call (lk_held ?st 0) (clear_acts [1] 1)" by (auto simp: handler_or_clear_call_def)
  moreover have r: "foldM lk_next [0, 0, 0] (lk_call 0 (clear_acts [1] 1) ?st) = Some ex_self_stuck"
    by (auto simp: ex_self_stuck_def clear_acts_def row_acts_Cons [of 0] key_acts_def lk_run_simps fun_eq_iff)
  ultimately show ?thesis by (intro lk_call_run [where calls = handler_or_clear_call and st = ?st and t = 0, OF _ _ _ c r]) simp_all
qed

lemma ex_stuck_run: "(lk_step handler_or_clear_call)\<^sup>*\<^sup>* (lk_init 2) ex_stuck"
proof -
  let ?st = "\<lparr> lk_flag = (\<lambda>l. False)(Wlock 0 := True), lk_threads = [([Wlock 0], []), ([], [])] \<rparr>"
  let ?st' = "\<lparr> lk_flag = (\<lambda>l. False)(Wlock 0 := True), lk_threads = [([Wlock 0], with_lock Struct_Mutex @ [Release (Wlock 0)]), ([], [])] \<rparr>"
  have "(lk_step handler_or_clear_call)\<^sup>*\<^sup>* (lk_init 2) ?st"
    by (rule lk_call_run [where t = 0 and p = "[Acquire (Wlock 0)]" and ts = "[0]"])
      (auto intro: ex_first_read simp: handler_or_clear_call_def lk_run_simps)
  then have "(lk_step handler_or_clear_call)\<^sup>*\<^sup>* (lk_init 2) ?st'"
    by (rule lk_call_run [where t = 0 and p = "key_acts [(0, 0)] @ with_lock Struct_Mutex @ [Release (Wlock 0)]" and ts = "[0, 0]"])
      (use ex_first_delete in \<open>auto simp: handler_or_clear_call_def key_acts_def lk_run_simps fun_eq_iff\<close>)
  moreover have c: "handler_or_clear_call (lk_held ?st' 1) (clear_acts [1] 1)" by (auto simp: handler_or_clear_call_def)
  moreover have r: "foldM lk_next [1, 1, 1] (lk_call 1 (clear_acts [1] 1) ?st') = Some ex_stuck"
    by (auto simp: ex_stuck_def clear_acts_def row_acts_Cons [of 0] key_acts_def lk_run_simps fun_eq_iff)
  ultimately show ?thesis by (intro lk_call_run [where calls = handler_or_clear_call and st = ?st' and t = 1, OF _ _ _ c r]) simp_all
qed

text \<open>C15. With \<^verbatim>\<open>delete_all_rows\<close> the handlers can deadlock. There is a run of one handler that ends waiting for a row lock of its own,
  and a run of two handlers at whose end each waits for the other; in both ends there is no step.\<close>

theorem delete_all_rows_deadlock:
  "(\<exists>st. (lk_step handler_or_clear_call)\<^sup>*\<^sup>* (lk_init 1) st \<and> waits_for st 0 0 \<and> (\<forall>st'. \<not> lk_step handler_or_clear_call st st')) \<and>
   (\<exists>st. (lk_step handler_or_clear_call)\<^sup>*\<^sup>* (lk_init 2) st \<and> waits_for st 0 1 \<and> waits_for st 1 0 \<and>
      (\<forall>st'. \<not> lk_step handler_or_clear_call st st'))"
proof -
  have "\<not> lk_step handler_or_clear_call ex_stuck st'" "\<not> lk_step handler_or_clear_call ex_self_stuck st'" for st'
    by (auto elim!: lk_step.cases simp: ex_stuck_def ex_self_stuck_def with_lock_def spin_lock_def less_Suc_eq)
  moreover have "waits_for ex_stuck 0 1" "waits_for ex_stuck 1 0" "waits_for ex_self_stuck 0 0"
    by (simp_all add: ex_stuck_def ex_self_stuck_def waits_for_def with_lock_def)
  ultimately show ?thesis using ex_stuck_run ex_self_stuck_run by blast
qed

end
