(* ===== verification/FM_Seqlock.thy ===== *)
theory FM_Seqlock
  imports FM_State
begin

text \<open>
  The reader loop of \<^verbatim>\<open>fm_core_read_row\<close> against the writers of the same slot, byte by byte:
  \<^verbatim>\<open>fm_core_write_image\<close> (sequence odd, copy, sequence even), \<^verbatim>\<open>fm_core_delete_row\<close>, and
  \<^verbatim>\<open>fm_core_insert_row\<close> into the recycled slot, whose copy does not touch the sequence
  number. Steps are interleaved one memory access at a time, in sequentially consistent
  order; the acquire and release orders of the code are not modelled further.
\<close>

section \<open>The step relation\<close>

text \<open>Where the writer of the slot is: outside, copying an update with the sequence number
  odd, or copying a new row into the recycled slot; \<open>j\<close> bytes are done.\<close>

datatype sq_writer = WIdle | WUpd image nat | WIns image nat

text \<open>Where a reader is: outside; past the state check; past the generation check; copying,
  with the sequence number it loaded and the bytes it has; done with an image; done with
  FM_ERR_DELETED. The numbers are ghosts: how many increments of the sequence number and how
  many recyclings of the slot had happened.\<close>

datatype sq_reader =
    RIdle | RGen nat | RSeq nat | RCopy fm_u32 image nat nat | RDone image nat nat nat nat | RDeleted

record sq_state =
  q_state :: fm_slot_state
  q_gen :: fm_u32
  q_seq :: fm_u32
  q_mem :: image
  q_w :: sq_writer
  q_r :: "nat \<Rightarrow> sq_reader"
  q_incs :: nat
  q_recs :: nat
  q_pub :: "image set"

abbreviation set_r :: "sq_state \<Rightarrow> nat \<Rightarrow> sq_reader \<Rightarrow> sq_state" where
  "set_r st t p \<equiv> st\<lparr> q_r := (q_r st)(t := p) \<rparr>"

inductive sq_step :: "sq_state \<Rightarrow> sq_state \<Rightarrow> bool" where
  w_begin: "q_w st = WIdle \<Longrightarrow> q_state st = FM_SLOT_ACTIVE \<Longrightarrow> length rec = length (q_mem st) \<Longrightarrow>
    sq_step st (st\<lparr> q_w := WUpd rec 0, q_seq := q_seq st + 1, q_incs := q_incs st + 1 \<rparr>)"
| w_byte: "q_w st = WUpd rec j \<Longrightarrow> j < length rec \<Longrightarrow>
    sq_step st (st\<lparr> q_w := WUpd rec (j + 1), q_mem := (q_mem st)[j := rec ! j] \<rparr>)"
| w_end: "q_w st = WUpd rec (length rec) \<Longrightarrow>
    sq_step st (st\<lparr> q_w := WIdle, q_seq := q_seq st + 1, q_incs := q_incs st + 1,
      q_pub := insert rec (q_pub st) \<rparr>)"
| delete: "q_w st = WIdle \<Longrightarrow> q_state st = FM_SLOT_ACTIVE \<Longrightarrow>
    sq_step st (st\<lparr> q_state := FM_SLOT_DELETED, q_gen := q_gen st + 1 \<rparr>)"
| i_begin: "q_w st = WIdle \<Longrightarrow> q_state st \<noteq> FM_SLOT_ACTIVE \<Longrightarrow> length rec = length (q_mem st) \<Longrightarrow>
    sq_step st (st\<lparr> q_w := WIns rec 0, q_recs := q_recs st + 1 \<rparr>)"
| i_byte: "q_w st = WIns rec j \<Longrightarrow> j < length rec \<Longrightarrow>
    sq_step st (st\<lparr> q_w := WIns rec (j + 1), q_mem := (q_mem st)[j := rec ! j] \<rparr>)"
| i_publish: "q_w st = WIns rec (length rec) \<Longrightarrow>
    sq_step st (st\<lparr> q_w := WIdle, q_state := FM_SLOT_ACTIVE, q_pub := insert rec (q_pub st) \<rparr>)"
| r_state: "q_r st t = RIdle \<Longrightarrow> q_state st = FM_SLOT_ACTIVE \<Longrightarrow> sq_step st (set_r st t (RGen (q_recs st)))"
| r_gone: "q_r st t = RIdle \<Longrightarrow> q_state st \<noteq> FM_SLOT_ACTIVE \<Longrightarrow> sq_step st (set_r st t RDeleted)"
| r_gen: "q_r st t = RGen r \<Longrightarrow> (check_gen \<longrightarrow> q_gen st = expect_gen) \<Longrightarrow> sq_step st (set_r st t (RSeq r))"
| r_stale: "q_r st t = RGen r \<Longrightarrow> q_gen st \<noteq> expect_gen \<Longrightarrow> sq_step st (set_r st t RDeleted)"
| r_odd: "q_r st t = RSeq r \<Longrightarrow> q_seq st AND 1 \<noteq> 0 \<Longrightarrow> sq_step st (set_r st t RIdle)"
| r_load: "q_r st t = RSeq r \<Longrightarrow> q_seq st AND 1 = 0 \<Longrightarrow>
    sq_step st (set_r st t (RCopy (q_seq st) [] (q_incs st) r))"
| r_byte: "q_r st t = RCopy s1 buf c r \<Longrightarrow> length buf < length (q_mem st) \<Longrightarrow>
    sq_step st (set_r st t (RCopy s1 (buf @ [q_mem st ! length buf]) c r))"
| r_retry: "q_r st t = RCopy s1 buf c r \<Longrightarrow> length buf = length (q_mem st) \<Longrightarrow> q_seq st \<noteq> s1 \<Longrightarrow>
    sq_step st (set_r st t RIdle)"
| r_done: "q_r st t = RCopy s1 buf c r \<Longrightarrow> length buf = length (q_mem st) \<Longrightarrow> q_seq st = s1 \<Longrightarrow>
    sq_step st (set_r st t (RDone buf c r (q_incs st) (q_recs st)))"

definition sq_init :: "image \<Rightarrow> sq_state" where
  "sq_init m = \<lparr> q_state = FM_SLOT_ACTIVE, q_gen = 0, q_seq = 0, q_mem = m, q_w = WIdle,
     q_r = (\<lambda>_. RIdle), q_incs = 0, q_recs = 0, q_pub = {m} \<rparr>"

section \<open>The invariant\<close>

definition writer_ok :: "sq_state \<Rightarrow> bool" where
  "writer_ok st = (q_seq st = of_nat (q_incs st) \<and>
     (case q_w st of
        WIdle \<Rightarrow> even (q_incs st) \<and> q_mem st \<in> q_pub st
      | WUpd rec j \<Rightarrow> odd (q_incs st) \<and> length rec = length (q_mem st) \<and> j \<le> length rec \<and>
          take j (q_mem st) = take j rec
      | WIns rec j \<Rightarrow> even (q_incs st) \<and> q_state st \<noteq> FM_SLOT_ACTIVE \<and>
          length rec = length (q_mem st) \<and> j \<le> length rec \<and> take j (q_mem st) = take j rec))"

definition inserting :: "sq_state \<Rightarrow> bool" where
  "inserting st = (case q_w st of WIns rec j \<Rightarrow> True | _ \<Rightarrow> False)"

definition reader_ok :: "sq_state \<Rightarrow> sq_reader \<Rightarrow> bool" where
  "reader_ok st p = (case p of
      RIdle \<Rightarrow> True
    | RGen r \<Rightarrow> r \<le> q_recs st \<and> (r = q_recs st \<longrightarrow> \<not> inserting st)
    | RSeq r \<Rightarrow> r \<le> q_recs st \<and> (r = q_recs st \<longrightarrow> \<not> inserting st)
    | RCopy s1 buf c r \<Rightarrow> r \<le> q_recs st \<and> c \<le> q_incs st \<and> s1 = of_nat c \<and> even c \<and>
        length buf \<le> length (q_mem st) \<and> (r = q_recs st \<longrightarrow> \<not> inserting st) \<and>
        (r = q_recs st \<longrightarrow> c = q_incs st \<longrightarrow> buf = take (length buf) (q_mem st))
    | RDone buf c r c2 r2 \<Rightarrow> c \<le> c2 \<and> (r2 = r \<longrightarrow> c2 - c < 2 ^ 32 \<longrightarrow> buf \<in> q_pub st)
    | RDeleted \<Rightarrow> True)"

definition sq_inv :: "sq_state \<Rightarrow> bool" where
  "sq_inv st = (writer_ok st \<and> (\<forall>t. reader_ok st (q_r st t)))"

lemma take_update_next: "j < length xs \<Longrightarrow> length ys = length xs \<Longrightarrow> take j xs = take j ys \<Longrightarrow>
  take (Suc j) (xs[j := ys ! j]) = take (Suc j) ys"
  by (simp add: take_Suc_conv_app_nth)

lemma seq_parity: "(of_nat n :: fm_u32) AND 1 = 0 \<longleftrightarrow> even n"
  by (simp add: and_one_eq flip: even_iff_mod_2_eq_zero)

lemma of_nat_inj32: "(of_nat a :: fm_u32) = of_nat b \<Longrightarrow> b \<le> a \<Longrightarrow> a - b < 2 ^ 32 \<Longrightarrow> a = b"
proof -
  assume e: "(of_nat a :: fm_u32) = of_nat b" and le: "b \<le> a" and lt: "a - b < 2 ^ 32"
  have "of_nat (a - b) = (0 :: fm_u32)" using e le by (simp add: of_nat_diff)
  then have "unat (of_nat (a - b) :: fm_u32) = 0" by simp
  then have "take_bit 32 (a - b) = 0" by (simp add: unsigned_of_nat)
  then have "a - b = 0" using lt by (simp add: take_bit_nat_eq_self)
  with le show "a = b" by simp
qed

lemma set_r_frame [simp]:
  "writer_ok (set_r st t p) = writer_ok st"
  "inserting (set_r st t p) = inserting st"
  "reader_ok (set_r st t p) q = reader_ok st q"
proof -
  show "writer_ok (set_r st t p) = writer_ok st"
    by (cases "q_w st") (simp_all add: writer_ok_def)
  show i: "inserting (set_r st t p) = inserting st" by (simp add: inserting_def)
  show "reader_ok (set_r st t p) q = reader_ok st q" by (cases q) (simp_all add: reader_ok_def i)
qed

text \<open>The steps of the writer keep what holds of every reader.\<close>

lemma writer_ok_step:
  assumes "sq_step st st'" "writer_ok st"
  shows "writer_ok st'"
  using assms
proof (induction rule: sq_step.induct)
  case (w_end st rec)
  then have "q_mem st = rec" by (simp add: writer_ok_def) (metis order_refl take_all)
  with w_end show ?case by (simp add: writer_ok_def)
next
  case (i_publish st rec)
  then have "q_mem st = rec" by (simp add: writer_ok_def) (metis order_refl take_all)
  with i_publish show ?case by (simp add: writer_ok_def)
next
  case (w_byte st rec j)
  then show ?case by (auto simp: writer_ok_def take_update_next)
next
  case (i_byte st rec j)
  then show ?case by (auto simp: writer_ok_def take_update_next)
next
  case (w_begin st rec)
  then show ?case by (simp add: writer_ok_def)
next
  case (delete st)
  then show ?case by (simp add: writer_ok_def)
next
  case (i_begin st rec)
  then show ?case by (simp add: writer_ok_def)
qed simp_all

lemma reader_ok_step:
  assumes "sq_step st st'" "writer_ok st" "reader_ok st p"
  shows "reader_ok st' p"
  using assms
proof (induction rule: sq_step.induct)
  case (w_byte st rec j)
  then have "odd (q_incs st)" by (simp add: writer_ok_def)
  with w_byte show ?case by (cases p) (auto simp: reader_ok_def inserting_def)
next
  case (w_begin st rec)
  then show ?case by (cases p) (auto simp: reader_ok_def inserting_def)
next
  case (w_end st rec)
  then show ?case by (cases p) (auto simp: reader_ok_def inserting_def)
next
  case (i_begin st rec)
  then show ?case by (cases p) (auto simp: reader_ok_def inserting_def)
next
  case (i_byte st rec j)
  then show ?case by (cases p) (auto simp: reader_ok_def inserting_def)
next
  case (i_publish st rec)
  then show ?case by (cases p) (auto simp: reader_ok_def inserting_def)
next
  case (delete st)
  then show ?case by (cases p) (auto simp: reader_ok_def inserting_def)
qed simp_all

text \<open>The step of a reader, for that reader.\<close>

lemma reader_own_step:
  assumes "sq_step st st'" "writer_ok st" "\<forall>t. reader_ok st (q_r st t)" "q_r st' t \<noteq> q_r st t"
  shows "reader_ok st' (q_r st' t)"
  using assms
proof (induction rule: sq_step.induct)
  case (r_state st u)
  then show ?case by (auto simp: reader_ok_def inserting_def writer_ok_def split: if_splits sq_writer.splits)
next
  case (r_byte st u s1 buf c r)
  have u: "t = u" "reader_ok st (RCopy s1 buf c r)"
    using r_byte.prems(3) r_byte.hyps(1) r_byte.prems(2) by (auto split: if_splits dest: spec [of _ u])
  then show ?case using r_byte by (auto simp: reader_ok_def inserting_def take_Suc_conv_app_nth)
next
  case (r_load st u r)
  have u: "t = u" "reader_ok st (RSeq r)"
    using r_load.prems(3) r_load.hyps(1) r_load.prems(2) by (auto split: if_splits dest: spec [of _ u])
  have "even (q_incs st)" using r_load(2,3) seq_parity by (simp add: writer_ok_def)
  then show ?case using u r_load(2,3) by (auto simp: reader_ok_def inserting_def writer_ok_def)
next
  case (r_gen st u r check_gen expect_gen)
  have u: "t = u" "reader_ok st (RGen r)"
    using r_gen.prems(3) r_gen.hyps(1) r_gen.prems(2) by (auto split: if_splits dest: spec [of _ u])
  then show ?case by (auto simp: reader_ok_def inserting_def)
next
  case (r_done st u s1 buf c r)
  have u: "t = u" "reader_ok st (RCopy s1 buf c r)"
    using r_done.prems(3) r_done.hyps(1) r_done.prems(2) by (auto split: if_splits dest: spec [of _ u])
  have "buf \<in> q_pub st" if "q_recs st = r" "q_incs st - c < 2 ^ 32"
  proof -
    have f: "c \<le> q_incs st" "s1 = of_nat c" "even c" "\<not> inserting st"
      "c = q_incs st \<longrightarrow> buf = take (length buf) (q_mem st)"
      using u(2) that(1) by (auto simp: reader_ok_def)
    have "q_incs st = c"
      using f(1,2) that(2) r_done(3,4) by (intro of_nat_inj32) (auto simp: writer_ok_def)
    then have "q_w st = WIdle" "buf = q_mem st"
      using f r_done(2,4) by (auto simp: writer_ok_def inserting_def split: sq_writer.splits)
    then show ?thesis using r_done(4) by (simp add: writer_ok_def)
  qed
  moreover have "c \<le> q_incs st" using u(2) by (simp add: reader_ok_def)
  ultimately show ?case using u(1) by (auto simp: reader_ok_def)
qed (auto simp: reader_ok_def split: if_splits)

lemma sq_step_inv: "sq_step st st' \<Longrightarrow> sq_inv st \<Longrightarrow> sq_inv st'"
  unfolding sq_inv_def using writer_ok_step reader_ok_step reader_own_step by metis

interpretation sq: machine sq_step sq_inv
  by unfold_locales (rule sq_step_inv)

lemma sq_reachable_inv: "sq_step\<^sup>*\<^sup>* (sq_init m) st \<Longrightarrow> sq_inv st"
  by (erule sq.reach_good) (simp add: sq_inv_def sq_init_def writer_ok_def reader_ok_def)

section \<open>What a reader gets\<close>

text \<open>C21. No torn reads. Readers copy a slot byte by byte while writers rewrite it, in any interleaving. An image
  that a reader accepts is one that was published as a whole, provided that the slot was not recycled
  for an insert during the read and the 32-bit sequence number did not come full circle.\<close>

theorem seqlock_no_torn_read:
  assumes "sq_step\<^sup>*\<^sup>* (sq_init m) st" "q_r st t = RDone buf c r c2 r2" "r2 = r" "c2 - c < 2 ^ 32"
  shows "buf \<in> q_pub st"
  using sq_reachable_inv [OF assms(1)] assms(2-4) unfolding sq_inv_def
  by (auto simp: reader_ok_def dest: spec [of _ t])

text \<open>Two runs on a slot of one byte and of two bytes: a reader after a rewrite, and a reader during whose
  copy the row is deleted and the slot recycled.\<close>

definition sq_path :: "image \<Rightarrow> (sq_state \<Rightarrow> sq_state) list \<Rightarrow> nat \<Rightarrow> sq_state" where
  "sq_path m fs n = foldl (\<lambda>st f. f st) (sq_init m) (take n fs)"

abbreviation rd :: "sq_reader \<Rightarrow> sq_state \<Rightarrow> sq_state" where
  "rd p st \<equiv> set_r st 0 p"

definition rewrite_path :: "nat \<Rightarrow> sq_state" where
  "rewrite_path = sq_path [1] [
     \<lambda>st. st\<lparr> q_w := WUpd [2] 0, q_seq := 1, q_incs := 1 \<rparr>,
     \<lambda>st. st\<lparr> q_w := WUpd [2] 1, q_mem := [2] \<rparr>,
     \<lambda>st. st\<lparr> q_w := WIdle, q_seq := 2, q_incs := 2, q_pub := {[2], [1]} \<rparr>,
     rd (RGen 0), rd (RSeq 0), rd (RCopy 2 [] 2 0), rd (RCopy 2 [2] 2 0), rd (RDone [2] 2 0 2 0)]"

definition recycle_path :: "nat \<Rightarrow> sq_state" where
  "recycle_path = sq_path [1, 1] [rd (RGen 0), rd (RSeq 0), rd (RCopy 0 [] 0 0), rd (RCopy 0 [1] 0 0),
     \<lambda>st. st\<lparr> q_state := FM_SLOT_DELETED, q_gen := 1 \<rparr>,
     \<lambda>st. st\<lparr> q_w := WIns [2, 2] 0, q_recs := 1 \<rparr>,
     \<lambda>st. st\<lparr> q_w := WIns [2, 2] 1, q_mem := [2, 1] \<rparr>,
     \<lambda>st. st\<lparr> q_w := WIns [2, 2] 2, q_mem := [2, 2] \<rparr>,
     \<lambda>st. st\<lparr> q_w := WIdle, q_state := FM_SLOT_ACTIVE, q_pub := {[2, 2], [1, 1]} \<rparr>,
     rd (RCopy 0 [1, 2] 0 0), rd (RDone [1, 2] 0 0 0 1)]"

lemmas path_defs = sq_path_def sq_init_def

lemma rewrite_run: "sq_step\<^sup>*\<^sup>* (sq_init [1]) (rewrite_path 8)"
proof -
  let ?p = rewrite_path
  note d = rewrite_path_def path_defs eval_nat_numeral
  have "sq_step (?p 0) (?p 1)" "sq_step (?p 1) (?p 2)" "sq_step (?p 2) (?p 3)" "sq_step (?p 3) (?p 4)"
    using sq_step.w_begin [of "?p 0" "[2]"] sq_step.w_byte [of "?p 1" "[2]" 0] sq_step.w_end [of "?p 2" "[2]"]
      sq_step.r_state [of "?p 3" 0] by (simp_all add: d)
  moreover have "sq_step (?p 4) (?p 5)" "sq_step (?p 5) (?p 6)" "sq_step (?p 6) (?p 7)" "sq_step (?p 7) (?p 8)"
    using sq_step.r_gen [of "?p 4" 0 0 False 0] sq_step.r_load [of "?p 5" 0 0] sq_step.r_byte [of "?p 6" 0 2 "[]" 2 0]
      sq_step.r_done [of "?p 7" 0 2 "[2]" 2 0] by (simp_all add: d)
  ultimately have "sq_step (?p n) (?p (Suc n))" if "n < 8" for n
    using that by (auto simp: less_Suc_eq eval_nat_numeral)
  from sq.path_run [of 8 ?p, OF this] show ?thesis by (simp add: rewrite_path_def sq_path_def)
qed

theorem seqlock_no_torn_read_witness: "[2] \<in> q_pub (rewrite_path 8)"
proof -
  have "q_r (rewrite_path 8) 0 = RDone [2] 2 0 2 0" by (simp add: rewrite_path_def path_defs eval_nat_numeral)
  from seqlock_no_torn_read [OF rewrite_run this] show ?thesis by simp
qed

text \<open>C31. The proviso on recycling is needed. Delete and insert do not touch the sequence number, so a reader that
  started before the delete may accept an image of which one byte is of the old row and one of the new.\<close>

theorem recycled_slot_torn_read:
  "sq_step\<^sup>*\<^sup>* (sq_init [1, 1]) (recycle_path 11) \<and> q_r (recycle_path 11) 0 = RDone [1, 2] 0 0 0 1 \<and>
   [1, 2] \<notin> q_pub (recycle_path 11)"
proof -
  let ?p = recycle_path
  note d = recycle_path_def path_defs eval_nat_numeral
  have "sq_step (?p 0) (?p 1)" "sq_step (?p 1) (?p 2)" "sq_step (?p 2) (?p 3)" "sq_step (?p 3) (?p 4)"
    using sq_step.r_state [of "?p 0" 0] sq_step.r_gen [of "?p 1" 0 0 False 0] sq_step.r_load [of "?p 2" 0 0]
      sq_step.r_byte [of "?p 3" 0 0 "[]" 0 0] by (simp_all add: d)
  moreover have "sq_step (?p 4) (?p 5)" "sq_step (?p 5) (?p 6)" "sq_step (?p 6) (?p 7)" "sq_step (?p 7) (?p 8)"
    using sq_step.delete [of "?p 4"] sq_step.i_begin [of "?p 5" "[2, 2]"] sq_step.i_byte [of "?p 6" "[2, 2]" 0]
      sq_step.i_byte [of "?p 7" "[2, 2]" 1] by (simp_all add: d)
  moreover have "sq_step (?p 8) (?p 9)" "sq_step (?p 9) (?p 10)" "sq_step (?p 10) (?p 11)"
    using sq_step.i_publish [of "?p 8" "[2, 2]"] sq_step.r_byte [of "?p 9" 0 0 "[1]" 0 0]
      sq_step.r_done [of "?p 10" 0 0 "[1, 2]" 0 0] by (simp_all add: d)
  ultimately have "sq_step (?p n) (?p (Suc n))" if "n < 11" for n
    using that by (auto simp: less_Suc_eq eval_nat_numeral)
  from sq.path_run [of 11 ?p, OF this] have "sq_step\<^sup>*\<^sup>* (sq_init [1, 1]) (?p 11)"
    by (simp add: recycle_path_def sq_path_def)
  then show ?thesis by (simp add: d)
qed

end
