(* ===== verification/FM_Race.thy ===== *)
theory FM_Race
  imports FM_Table
begin

text \<open>
  An insert against a key-changing update. An insert links its slot into the chains of one key after the other, each under
  the lock of one bucket, and makes the row visible at the end, when no bucket is locked. A duplicate check passes
  over slots that are not visible yet.
\<close>

section \<open>The state between the sections of an insert\<close>

lemma linked_state:
  assumes inv: "core_inv s" "quiet s" and len: "length r = sc_reclength s" "length scratch = sc_reclength s"
    and run: "insert_link s r scratch = Some (u, i, sc, None)" "i \<noteq> FM_NULL_SLOT"
  shows "keys_ok u" "slots_ok u" "held u = {}" "\<And>k. k < sc_keys u \<Longrightarrow> key_chains u k ((rows s)(i \<mapsto> r))"
    "linked_rows u ((rows s)(i \<mapsto> r))" "rows u = rows s" "rows s i = None" "kstat u = kstat s" "sc_keys u = sc_keys s"
    "sc_reclength u = sc_reclength s" "gens s \<subseteq>\<^sub>m gens u" "\<exists>sl. fm_slot u i = Some sl \<and> sl_data sl = r"
    "\<forall>k < sc_keys s. \<not> conflict (kstat s k) (rows s) r"
proof -
  obtain w sl where t: "slot_taken s r i sl w" and p: "part_linked w r i (sc_keys w) u"
    and nc: "\<forall>k < sc_keys s. \<not> conflict (kstat s k) (rows s) r"
    by (cases rule: insert_link_cases [OF inv len]) (use run in auto)
  note T = t [unfolded slot_taken_def same_shape_def]
  have st: "links_step w u" using p by (simp add: part_linked_def)
  note f = links_step_frame [OF st]
  have W: "core_hole w i" using T by simp
  have fs: "fm_slot u = fm_slot w" using f(14) by auto
  show r: "rows u = rows s" and ks: "kstat u = kstat s" and kn: "sc_keys u = sc_keys s" and rl: "sc_reclength u = sc_reclength s"
    using T f by auto
  show "rows s i = None" using core_holeD(6) [OF W] T by simp
  show "keys_ok u" "slots_ok u" "held u = {}" using core_holeD(2,3) [OF W] T f by auto
  show "key_chains u k ((rows s)(i \<mapsto> r))" if "k < sc_keys u" for k
    using part_linkedD(1) [OF p] that T kn by simp
  show "gens s \<subseteq>\<^sub>m gens u" using T gens_cong [OF fs] by simp
  show "\<exists>sl. fm_slot u i = Some sl \<and> sl_data sl = r" using T fs by simp
  show "linked_rows u ((rows s)(i \<mapsto> r))"
  proof -
    have "fm_slot u j \<noteq> None" if "j = i \<or> rows u j \<noteq> None" for j
      using that T fs by (auto dest: rows_slot)
    then show ?thesis unfolding linked_rows_def using \<open>rows s i = None\<close> r by (auto simp: map_le_def)
  qed
  show "\<forall>k < sc_keys s. \<not> conflict (kstat s k) (rows s) r" by (rule nc)
qed

text \<open>The update in that state: no duplicate is seen, the image is written and the chains are moved.\<close>

lemma update_between:
  assumes u: "keys_ok u" "slots_ok u" "held u = {}" "\<And>k. k < sc_keys u \<Longrightarrow> key_chains u k R" "linked_rows u R"
    and R: "rows u j = Some a" "gens u j = Some g" and len: "length r = sc_reclength u" "length scratch = sc_reclength u"
    and nc: "\<forall>k < sc_keys u. \<not> conflict (kstat u k) (rows u) r"
  obtains v sc where "fm_core_update_row_locked u j g a r ek scratch = Some (v, FM_ERR_OK, ek, sc)"
    "rows v = (rows u)(j \<mapsto> r)" "kstat v = kstat u" "\<And>i. i \<noteq> j \<Longrightarrow> fm_slot v i = fm_slot u i"
proof -
  obtain sl where sl: "fm_slot u j = Some sl" "sl_state sl = FM_SLOT_ACTIVE" "sl_data sl = a" "\<not> slot_stale sl g"
    using R by (auto dest!: rows_slot simp: gens_def slot_stale_def)
  have dl: "length (sl_data sl) \<le> length r" using row_length [OF u(2) R(1)] sl(3) len(1) by simp
  let ?sl = "sl\<lparr> sl_data := r, sl_seq := sl_seq sl + 1 + 1 \<rparr>"
  define ks where "ks = filter (\<lambda>j. \<not> same_key (kstat u j) a r) [0..<sc_keys u]"
  have ch: "changed_keys u a r = Some ks" using u(1) by (simp add: changed_keys_filter ks_def)
  have nr: "\<nexists>k. refused u a r k" using nc by (auto simp: refused_def)
  show thesis
  proof (cases "ks = []")
    case True
    then have "fm_core_update_row_locked u j g a r ek scratch = Some (upd_slot u j ?sl, FM_ERR_OK, ek, scratch)"
      using sl ch write_image_run [OF sl(1) dl len(1)] by (simp add: fm_core_update_row_locked_def)
    then show thesis by (rule that) (use sl in \<open>simp_all add: rows_upd_slot fun_eq_iff\<close>)
  next
    case False
    obtain l0 ls s1 sc where p: "collect_locks u a r ks = Some l0" "ls = sort_locks l0"
      "sorted (map lock_code ls)" "lock_range ls" "\<forall>k b. (k, b) \<in> set ls \<longrightarrow> key_lock u k b = Some False"
      "lock_buckets ls u = Some s1" "locks_set (set ls) True u s1"
      "update_dups s1 ks r scratch = Some (if \<exists>k. refused u a r k then Some (LEAST k. refused u a r k) else None, sc)"
      "length sc = sc_reclength u"
      by (rule update_prepare [OF u len(2), where old_rec = a and new_rec = r, folded ks_def])
    note f = locks_set_frame [OF p(7)]
    have s1: "fm_slot s1 j = Some sl" "length r = sc_reclength s1" "sc_keys s1 = sc_keys u" using sl len(1) f by (simp_all add: scal_def)
    define t where "t = upd_slot s1 j ?sl"
    have tk: "key_chains t k Q = key_chains s1 k Q" "kstat t = kstat u" for k Q
      unfolding t_def using slot_write(3) [OF s1(1), of ?sl k Q] f(10) by (simp_all add: fun_eq_iff)
    have "R j = Some a" using u(5) R(1) by (auto simp: linked_rows_def map_le_def dom_def)
    moreover have "fm_slot t j \<noteq> None" using s1 by (simp add: t_def)
    moreover have "distinct ks" by (simp add: ks_def)
    moreover have "key_ok (kstat t k) \<and> key_chains t k R" if "k \<in> set ks" for k
      using that u(1,4) f(7) tk by (auto simp: ks_def keys_ok_def)
    ultimately obtain v where v: "foldM (move_key a r j) ks t = Some v" "links_step t v"
      by (rule move_keys_correct [where R = R]) blast
    note h = links_step_frame [OF v(2)]
    have "key_lock v k b \<noteq> None" if "(k, b) \<in> set ls" for k b
      using p(5,7) that h(15) by (auto simp: t_def locks_set_def)
    then obtain z where z: "unlock_buckets ls v = Some z" "locks_set (set ls) False v z"
      by (rule unlock_buckets_correct [OF p(3,4)])
    note q = locks_set_frame [OF z(2)]
    have "fm_core_update_row_locked u j g a r ek scratch = Some (z, FM_ERR_OK, ek, sc)"
      using sl ch False nr p(1,2,6,8) write_image_run [OF s1(1) dl s1(2)] v(1) z(1) by (simp add: fm_core_update_row_locked_def t_def)
    then show thesis
      by (rule that) (use h q s1 f sl tk in \<open>simp_all add: t_def rows_upd_slot fun_eq_iff\<close>)
  qed
qed

section \<open>The race\<close>

text \<open>C32. A duplicate of a unique key. On any consistent table, when an insert of a record that conflicts with no row has linked its slot
  and another thread, which holds the lock of some row, then updates that row to the same record, the duplicate
  check of the update passes. After the insert has made its row visible both rows are there, and no unique key without
  NULL in it is unique any more.\<close>

theorem insert_update_race:
  assumes "core_inv s" "quiet s" "length r = sc_reclength s" "length scratch = sc_reclength s" "length scratch' = sc_reclength s"
    and "insert_link s r scratch = Some (u, i, sc, None)" "i \<noteq> FM_NULL_SLOT"
    and "rows s j = Some a" "gens s j = Some g"
  shows "\<exists>v sc' z. fm_core_update_row_locked u j g a r ek scratch' = Some (v, FM_ERR_OK, ek, sc') \<and> insert_publish v i = Some z \<and>
    i \<noteq> j \<and> rows z = (rows s)(j \<mapsto> r, i \<mapsto> r) \<and>
    (\<forall>k < sc_keys s. is_unique (kstat s k) \<and> \<not> has_null (kstat s k) r \<longrightarrow> \<not> unique_rows (kstat z k) (rows z))"
proof -
  note L = linked_state [OF assms(1-4,6,7)]
  have ij: "i \<noteq> j" using L(7) assms(8) by auto
  have gj: "gens u j = Some g" using L(11) assms(9) by (metis domI map_le_def)
  obtain v sc' where v: "fm_core_update_row_locked u j g a r ek scratch' = Some (v, FM_ERR_OK, ek, sc')"
    "rows v = (rows u)(j \<mapsto> r)" "kstat v = kstat u" "\<And>i. i \<noteq> j \<Longrightarrow> fm_slot v i = fm_slot u i"
    by (rule update_between [OF L(1-5), where j = j and a = a and g = g and r = r and scratch = scratch' and ek = ek])
      (use L assms gj in simp_all)
  obtain sl where sl: "fm_slot v i = Some sl" "sl_data sl = r" using L(12) v(4) [OF ij] by auto
  define z where "z = unlock_struct ((upd_slot v i (sl\<lparr> sl_state := FM_SLOT_ACTIVE \<rparr>))\<lparr> sc_records := sc_records v + 1 \<rparr>)"
  have pub: "insert_publish v i = Some z" using sl(1) by (simp add: insert_publish_def z_def Let_def)
  have rz: "rows z = (rows s)(j \<mapsto> r, i \<mapsto> r)"
    using sl v(2) L(6) ij by (simp add: z_def unlock_struct_def rows_upd_slot)
  have kz: "kstat z = kstat s" using v(3) L(8) by (simp add: z_def unlock_struct_def fun_eq_iff)
  have "\<not> unique_rows (kstat z k) (rows z)" if "k < sc_keys s" "is_unique (kstat s k)" "\<not> has_null (kstat s k) r" for k
  proof -
    have "same_key (kstat s k) r r" by (rule same_key_refl [OF core_invD(5) [OF assms(1) that(1)]])
    then show ?thesis using that(2,3) ij unfolding unique_rows_def kz rz by (metis fun_upd_same fun_upd_other)
  qed
  then show ?thesis using v(1) pub ij rz by blast
qed

lemma ex_insert_link: obtains u i sc where "insert_link ex_one [9] [0] = Some (u, i, sc, None)" "i \<noteq> FM_NULL_SLOT"
proof -
  have nc: "\<forall>k < sc_keys ex_one. \<not> conflict (kstat ex_one k) (rows ex_one) [9]"
    by (auto simp: ex_conflict ex_one byte_at_def split: if_splits)
  obtain t i sc where t: "fm_core_insert_row ex_one [9] (-1) (Some 0) [0] = Some (t, FM_ERR_OK, i, Some 0, sc)"
    by (rule insert_row_succeeds [OF ex_one(1,2) _ _ _ _ nc, where scratch = "[0]"]) (simp_all add: ex_one)
  have len: "length [9 :: fm_u8] = sc_reclength ex_one" "length [0 :: fm_u8] = sc_reclength ex_one" by (simp_all add: ex_one)
  show thesis
  proof (cases rule: insert_link_cases [OF ex_one(1,2) len])
    case (1 w u i sl sc)
    then show thesis using that by (simp add: slot_taken_def)
  next
    case (2 w u i sl sc)
    then show thesis using nc by blast
  next
    case (3 m)
    then show thesis using t by (simp add: insert_sections split: if_splits)
  qed
qed

theorem insert_update_race_witness:
  "\<exists>u i sc v sc' z. insert_link ex_one [9] [0] = Some (u, i, sc, None) \<and>
     fm_core_update_row_locked u ex_slot_one (the (gens ex_one ex_slot_one)) [7] [9] (Some 0) [0] = Some (v, FM_ERR_OK, Some 0, sc') \<and>
     insert_publish v i = Some z \<and> i \<noteq> ex_slot_one \<and> rows z = [ex_slot_one \<mapsto> [9], i \<mapsto> [9]] \<and> \<not> unique_rows (kstat z 0) (rows z)"
proof -
  obtain u i sc where l: "insert_link ex_one [9] [0] = Some (u, i, sc, None)" "i \<noteq> FM_NULL_SLOT" by (rule ex_insert_link)
  have g: "gens ex_one ex_slot_one = Some (the (gens ex_one ex_slot_one))"
    by (rule ex_one_slotE) (simp add: gens_def)
  from insert_update_race [OF ex_one(1,2) _ _ _ l ex_rows(1) g, where scratch' = "[0]" and ek = "Some 0"] l
  show ?thesis by (auto simp: ex_one is_unique_def ex_has_null)
qed

end
