(* ===== verification/FM_Standalone.thy ===== *)
theory FM_Standalone
  imports FM_Runs
begin

text \<open>
  The standalone test of the core, \<^verbatim>\<open>standalone-test/main.cpp\<close>: its records, its key callbacks, and what the calls of
  the core do to a table of its records seen as a map from \<^verbatim>\<open>k\<close> to \<^verbatim>\<open>v\<close>. The tests themselves are in the theories that import this one.
\<close>

section \<open>Records of 64-bit integers\<close>

text \<open>A \<^verbatim>\<open>std::int64_t\<close> is kept as its 64 bits. In memory the least significant byte is first.\<close>

type_synonym int64 = fm_u64

definition int64_bytes :: "int64 \<Rightarrow> image" where
  "int64_bytes w = map (\<lambda>i. ucast (drop_bit (8 * i) w)) [0..<8]"

definition int64_at :: "image \<Rightarrow> nat \<Rightarrow> int64" where
  "int64_at r off = foldr (\<lambda>i w. push_bit 8 w OR ucast (byte_at r (off + i))) [0..<8] 0"

record Rec =
  rec_k :: int64
  rec_v :: int64

text \<open>The bytes of a \<^verbatim>\<open>Rec\<close>, and the members read from bytes.\<close>

definition Rec_image :: "Rec \<Rightarrow> image" where
  "Rec_image r = int64_bytes (rec_k r) @ int64_bytes (rec_v r)"

definition Rec_at :: "image \<Rightarrow> Rec" where
  "Rec_at b = \<lparr> rec_k = int64_at b 0, rec_v = int64_at b 8 \<rparr>"

definition sizeof_Rec :: nat where
  "sizeof_Rec = 16"

section \<open>Key callbacks\<close>

text \<open>Key 0, on \<^verbatim>\<open>k\<close>. The hash is FNV over the bytes of \<^verbatim>\<open>k\<close>, folded to 32 bits.\<close>

definition hk0_hash_bytes :: "image \<Rightarrow> fm_u32" where
  "hk0_hash_bytes bs = (let h = foldl (\<lambda>h b. (h XOR ucast b) * 1099511628211) (1469598103934665603 :: fm_u64) bs
     in ucast (h XOR drop_bit 32 h))"

definition hk0_hash_rec :: "image \<Rightarrow> fm_u32" where
  "hk0_hash_rec rec = hk0_hash_bytes (int64_bytes (int64_at rec 0))"

definition hk0_hash_key :: "image \<Rightarrow> fm_u32" where
  "hk0_hash_key pk = hk0_hash_bytes (map (byte_at pk) [0..<8])"

definition hk0_cmp_rec_rec :: "image \<Rightarrow> image \<Rightarrow> int" where
  "hk0_cmp_rec_rec a b = (if int64_at a 0 = int64_at b 0 then 0 else 1)"

definition hk0_cmp_rec_key :: "image \<Rightarrow> image \<Rightarrow> int" where
  "hk0_cmp_rec_key rec pk = (if int64_at rec 0 = int64_at pk 0 then 0 else 1)"

definition hk0_null :: "image \<Rightarrow> int" where
  "hk0_null rec = 0"

text \<open>Key 1, on the two low bits of \<^verbatim>\<open>k\<close>.\<close>

definition hk1_hash_rec :: "image \<Rightarrow> fm_u32" where
  "hk1_hash_rec rec = ucast (int64_at rec 0 AND 3)"

definition hk1_hash_key :: "image \<Rightarrow> fm_u32" where
  "hk1_hash_key pk = ucast (int64_at pk 0 AND 3)"

definition hk1_cmp_rec_rec :: "image \<Rightarrow> image \<Rightarrow> int" where
  "hk1_cmp_rec_rec a b = (if int64_at a 0 AND 3 = int64_at b 0 AND 3 then 0 else 1)"

definition hk1_cmp_rec_key :: "image \<Rightarrow> image \<Rightarrow> int" where
  "hk1_cmp_rec_key rec pk = (if int64_at rec 0 AND 3 = int64_at pk 0 AND 3 then 0 else 1)"

definition hk1_null :: "image \<Rightarrow> int" where
  "hk1_null rec = 0"

definition hk0_ops :: FM_KEY_OPS where
  "hk0_ops = \<lparr> hash_rec = Some hk0_hash_rec, hash_key = Some hk0_hash_key, cmp_rec_rec = Some hk0_cmp_rec_rec,
     cmp_rec_key = Some hk0_cmp_rec_key, has_null_part = Some hk0_null \<rparr>"

definition hk1_ops :: FM_KEY_OPS where
  "hk1_ops = \<lparr> hash_rec = Some hk1_hash_rec, hash_key = Some hk1_hash_key, cmp_rec_rec = Some hk1_cmp_rec_rec,
     cmp_rec_key = Some hk1_cmp_rec_key, has_null_part = Some hk1_null \<rparr>"

section \<open>Round trips between integers and bytes\<close>

lemma unat_small: "n < 2 ^ 64 \<Longrightarrow> unat (of_nat n :: int64) = n"
  by (simp add: unsigned_of_nat take_bit_nat_eq_self)

lemma join_bytes_bit:
  "bit (foldr (\<lambda>i w. push_bit 8 w OR ucast (f i)) [m..<m + k] (0 :: int64)) n \<longleftrightarrow>
     n < 64 \<and> n < 8 * k \<and> bit (f (m + n div 8) :: fm_u8) (n mod 8)"
proof (induction k arbitrary: m n)
  case (Suc k)
  have "[m..<m + Suc k] = m # [Suc m..<Suc m + k]" by (simp add: upt_rec)
  moreover have "bit (f m) n \<Longrightarrow> n < 8" using bit_imp_le_length [of "f m" n] by simp
  moreover have "(n - 8) div 8 = n div 8 - 1" "(n - 8) mod 8 = n mod 8" "0 < n div 8" if "8 \<le> n"
    using that by (simp_all add: le_div_geq le_mod_geq)
  moreover have "n - 8 < 8 * k \<longleftrightarrow> n < 8 * Suc k" if "8 \<le> n" using that by arith
  ultimately show ?case
    using Suc.IH [of "Suc m" "n - 8"] by (cases "n < 8") (auto simp: bit_simps)
qed simp

lemma int64_at_bit: "bit (int64_at r off) n \<longleftrightarrow> n < 64 \<and> bit (byte_at r (off + n div 8)) (n mod 8)"
  using join_bytes_bit [of "\<lambda>i. byte_at r (off + i)" 0 8 n] by (auto simp: int64_at_def)

lemma int64_bytes_length [simp]: "length (int64_bytes w) = 8"
  by (simp add: int64_bytes_def)

lemma int64_bytes_nth: "i < 8 \<Longrightarrow> int64_bytes w ! i = ucast (drop_bit (8 * i) w)"
  by (simp add: int64_bytes_def)

lemma int64_bytes_at: "int64_bytes (int64_at r off) = map (\<lambda>i. byte_at r (off + i)) [0..<8]"
proof -
  have "ucast (drop_bit (8 * i) (int64_at r off)) = byte_at r (off + i)" if "i < 8" for i
    by (rule bit_word_eqI) (use that in \<open>auto simp: bit_simps int64_at_bit\<close>)
  then show ?thesis by (simp add: int64_bytes_def)
qed

lemma int64_at_bytes:
  assumes "\<And>i. i < 8 \<Longrightarrow> byte_at r (off + i) = int64_bytes w ! i"
  shows "int64_at r off = w"
proof (rule bit_word_eqI)
  fix n assume "n < LENGTH(64)"
  then have "n < 64" "n div 8 < 8" by simp_all
  then show "bit (int64_at r off) n = bit w n"
    using assms [of "n div 8"] by (simp add: int64_at_bit int64_bytes_nth bit_simps)
qed

lemma int64_at_self [simp]: "int64_at (int64_bytes w) 0 = w"
  by (rule int64_at_bytes) (simp add: byte_at_def)

lemma int64_at_append [simp]: "int64_at (int64_bytes w @ r) 0 = w"
  by (rule int64_at_bytes) (simp add: byte_at_def nth_append)

lemma Rec_image_at [simp]: "int64_at (Rec_image r) 0 = rec_k r" "int64_at (Rec_image r) 8 = rec_v r"
  unfolding Rec_image_def by (auto intro!: int64_at_bytes simp: byte_at_def nth_append)

lemma Rec_image_length [simp]: "length (Rec_image r) = sizeof_Rec"
  by (simp add: Rec_image_def sizeof_Rec_def)

lemma Rec_at_image [simp]: "Rec_at (Rec_image r) = r"
  by (simp add: Rec_at_def)

lemma Rec_image_inj [simp]: "Rec_image r = Rec_image q \<longleftrightarrow> r = q"
  by (metis Rec_at_image)

section \<open>The callbacks keep their contract\<close>

interpretation hk0: key_callbacks hk0_hash_rec hk0_hash_key hk0_cmp_rec_rec hk0_cmp_rec_key hk0_null
proof (unfold_locales, goal_cases)
  case (6 a p)
  then have "int64_at a 0 = int64_at p 0" by (simp add: hk0_cmp_rec_key_def split: if_splits)
  then show ?case by (simp add: hk0_hash_rec_def hk0_hash_key_def int64_bytes_at)
qed (auto simp: hk0_cmp_rec_rec_def hk0_null_def hk0_hash_rec_def split: if_splits)

interpretation hk1: key_callbacks hk1_hash_rec hk1_hash_key hk1_cmp_rec_rec hk1_cmp_rec_key hk1_null
  by unfold_locales
    (auto simp: hk1_cmp_rec_rec_def hk1_cmp_rec_key_def hk1_null_def hk1_hash_rec_def hk1_hash_key_def split: if_splits)

lemma hk_ops_ok:
  "n \<noteq> 0 \<Longrightarrow> key_ok (Some (hk0_ops, u, n))" "n \<noteq> 0 \<Longrightarrow> key_ok (Some (hk1_ops, u, n))"
  by (simp_all add: key_ok_def hk0_ops_def hk1_ops_def hk0.key_callbacks_axioms hk1.key_callbacks_axioms)

lemma hk0_keys [simp]:
  "same_key (Some (hk0_ops, u, n)) a b \<longleftrightarrow> int64_at a 0 = int64_at b 0"
  "matches (Some (hk0_ops, u, n)) a p \<longleftrightarrow> int64_at a 0 = int64_at p 0"
  "\<not> has_null (Some (hk0_ops, u, n)) a" "is_unique (Some (ops, u, n)) = u"
  by (simp_all add: same_key_def matches_def has_null_def is_unique_def hk0_ops_def hk0_cmp_rec_rec_def hk0_cmp_rec_key_def hk0_null_def)

lemma hk1_keys [simp]:
  "same_key (Some (hk1_ops, u, n)) a b \<longleftrightarrow> int64_at a 0 AND 3 = int64_at b 0 AND 3"
  "matches (Some (hk1_ops, u, n)) a p \<longleftrightarrow> int64_at a 0 AND 3 = int64_at p 0 AND 3"
  "\<not> has_null (Some (hk1_ops, u, n)) a"
  by (simp_all add: same_key_def matches_def has_null_def hk1_ops_def hk1_cmp_rec_rec_def hk1_cmp_rec_key_def hk1_null_def)

section \<open>A table of records as a map\<close>

text \<open>What the tables of the tests have in common: records of type \<^verbatim>\<open>Rec\<close>, key 0 is unique and the only unique key, no row is
  locked, and all memory is accounted for.\<close>

definition rec_table :: "FM_SHARE_CORE \<Rightarrow> bool" where
  "rec_table s = (core_inv s \<and> quiet s \<and> wlocked s = {} \<and> sc_reclength s = sizeof_Rec \<and> \<not> alloc_fails s \<and>
     0 < sc_keys s \<and> (\<exists>n. kstat s 0 = Some (hk0_ops, True, n)) \<and> (\<forall>k. 0 < k \<longrightarrow> k < sc_keys s \<longrightarrow> \<not> is_unique (kstat s k)))"

lemma rec_tableD:
  assumes "rec_table s"
  shows "core_inv s" "quiet s" "wlocked s = {}" "sc_reclength s = sizeof_Rec" "\<not> alloc_fails s" "0 < sc_keys s"
    "\<And>k. k < sc_keys s \<Longrightarrow> is_unique (kstat s k) \<Longrightarrow> k = 0"
  using assms by (auto simp: rec_table_def)

lemma rec_table_key:
  assumes "rec_table s"
  shows "same_key (kstat s 0) a b \<longleftrightarrow> int64_at a 0 = int64_at b 0" "matches (kstat s 0) a p \<longleftrightarrow> int64_at a 0 = int64_at p 0"
    "\<not> has_null (kstat s 0) a" "is_unique (kstat s 0)"
  using assms by (auto simp: rec_table_def)

lemma rec_table_step: "rec_table s \<Longrightarrow> core_inv s' \<Longrightarrow> quiet s' \<Longrightarrow> same_shape s s' \<Longrightarrow> rec_table s'"
  using same_shape_alloc [of s s'] by (simp add: rec_table_def same_shape_def)

abbreviation img :: "int64 \<Rightarrow> int64 \<Rightarrow> image" where
  "img k v \<equiv> Rec_image \<lparr> rec_k = k, rec_v = v \<rparr>"

text \<open>The rows are the pairs of a map.\<close>

definition stores :: "(fm_i32 \<rightharpoonup> image) \<Rightarrow> (int64 \<rightharpoonup> int64) \<Rightarrow> bool" where
  "stores R M = ((\<forall>i r. R i = Some r \<longrightarrow> (\<exists>k v. r = img k v \<and> M k = Some v)) \<and>
     (\<forall>k v. M k = Some v \<longrightarrow> (\<exists>i. R i = Some (img k v))))"

lemma storesE:
  assumes "stores R M" "R i = Some r"
  obtains k v where "r = img k v" "M k = Some v"
  using assms unfolding stores_def by blast

lemma storesI:
  assumes "\<And>i r. R i = Some r \<Longrightarrow> \<exists>k v. r = img k v \<and> M k = Some v" "\<And>k v. M k = Some v \<Longrightarrow> \<exists>i. R i = Some (img k v)"
  shows "stores R M"
  using assms by (simp add: stores_def)

lemma stores_has: "stores R M \<Longrightarrow> M k = Some v \<Longrightarrow> \<exists>i. R i = Some (img k v)"
  by (simp add: stores_def)

lemma stores_empty [simp]: "stores Map.empty Map.empty"
  by (simp add: stores_def)

definition one_per_key :: "(fm_i32 \<rightharpoonup> image) \<Rightarrow> bool" where
  "one_per_key R = (\<forall>i j a b. R i = Some a \<longrightarrow> R j = Some b \<longrightarrow> int64_at a 0 = int64_at b 0 \<longrightarrow> i = j)"

lemma rec_one_per_key: "rec_table s \<Longrightarrow> one_per_key (rows s)"
proof -
  assume t: "rec_table s"
  then have "unique_rows (kstat s 0) (rows s)" using rec_tableD(1,6) core_invD(7) by blast
  then have "i = j" if "rows s i = Some a" "rows s j = Some b" "int64_at a 0 = int64_at b 0" for i j a b
    using that rec_table_key [OF t] unfolding unique_rows_def by blast
  then show ?thesis unfolding one_per_key_def by blast
qed

lemma stores_insert:
  assumes "stores R M" "R i = None" "M k = None"
  shows "stores (R(i \<mapsto> img k v)) (M(k \<mapsto> v))"
proof (rule storesI)
  fix j r assume r: "(R(i \<mapsto> img k v)) j = Some r"
  show "\<exists>k' v'. r = img k' v' \<and> (M(k \<mapsto> v)) k' = Some v'"
  proof (cases "j = i")
    case True
    then show ?thesis using r by (intro exI [of _ k] exI [of _ v]) simp
  next
    case False
    then have "R j = Some r" using r by simp
    then obtain k' v' where "r = img k' v'" "M k' = Some v'" by (rule storesE [OF assms(1)])
    then show ?thesis using assms(3) by (intro exI [of _ k'] exI [of _ v']) auto
  qed
next
  fix k' v' assume m: "(M(k \<mapsto> v)) k' = Some v'"
  show "\<exists>j. (R(i \<mapsto> img k v)) j = Some (img k' v')"
  proof (cases "k' = k")
    case False
    then obtain j where "R j = Some (img k' v')" using m stores_has [OF assms(1)] by fastforce
    then show ?thesis using assms(2) by (intro exI [of _ j]) auto
  qed (use m in auto)
qed

lemma stores_delete:
  assumes "stores R M" "one_per_key R" "R i = Some (img k v)"
  shows "stores (R(i := None)) (M(k := None))"
proof -
  have u: "j = i" if "R j = Some (img k w)" for j w
    using assms(2) that assms(3) unfolding one_per_key_def by (metis Rec.select_convs(1) Rec_image_at(1))
  show ?thesis
  proof (rule storesI)
    fix j r assume "(R(i := None)) j = Some r"
    then have j: "R j = Some r" "j \<noteq> i" by (auto split: if_splits)
    obtain k' v' where k: "r = img k' v'" "M k' = Some v'" by (rule storesE [OF assms(1) j(1)])
    then have "k' \<noteq> k" using u j by blast
    then show "\<exists>k' v'. r = img k' v' \<and> (M(k := None)) k' = Some v'"
      using k by (intro exI [of _ k'] exI [of _ v']) simp
  next
    fix k' v' assume m: "(M(k := None)) k' = Some v'"
    then obtain j where j: "R j = Some (img k' v')" using stores_has [OF assms(1)] by (metis fun_upd_apply option.distinct(1))
    moreover have "j \<noteq> i" using j m assms(3) by (auto split: if_splits)
    ultimately show "\<exists>j. (R(i := None)) j = Some (img k' v')" by (intro exI [of _ j]) simp
  qed
qed

lemma stores_update:
  assumes "stores R M" "one_per_key R" "R i = Some (img k v)" "k' = k \<or> M k' = None"
  shows "stores (R(i \<mapsto> img k' v')) (M(k := None, k' \<mapsto> v'))"
  using stores_insert [OF stores_delete [OF assms(1-3)], of i k' v'] assms(4) by auto

lemma stores_count:
  assumes "stores R M" "one_per_key R"
  shows "card {i. \<exists>r. R i = Some r \<and> P (int64_at r 0)} = card {k \<in> dom M. P k}"
proof -
  let ?A = "{i. \<exists>r. R i = Some r \<and> P (int64_at r 0)}"
  have "bij_betw (\<lambda>i. int64_at (the (R i)) 0) ?A {k \<in> dom M. P k}"
  proof (rule bij_betwI')
    show "int64_at (the (R i)) 0 = int64_at (the (R j)) 0 \<longleftrightarrow> i = j" if "i \<in> ?A" "j \<in> ?A" for i j
      using that assms(2) unfolding one_per_key_def by auto
    show "int64_at (the (R i)) 0 \<in> {k \<in> dom M. P k}" if "i \<in> ?A" for i
      using that assms(1) by (auto elim!: storesE)
    show "\<exists>i \<in> ?A. k = int64_at (the (R i)) 0" if "k \<in> {k \<in> dom M. P k}" for k
      using that stores_has [OF assms(1)] by (force simp: dom_def)
  qed
  then show ?thesis by (rule bij_betw_same_card)
qed

lemma stores_card: "stores R M \<Longrightarrow> one_per_key R \<Longrightarrow> card (dom R) = card (dom M)"
  using stores_count [of R M "\<lambda>_. True"] by (simp add: dom_def)

lemma rec_records: "rec_table s \<Longrightarrow> stores (rows s) M \<Longrightarrow> sc_records s = int (card (dom M))"
  using core_invD(4) [OF rec_tableD(1)] stores_card [OF _ rec_one_per_key] by simp

lemma rec_conflict:
  assumes "rec_table s" "stores (rows s) M"
  shows "(\<exists>j < sc_keys s. conflict (kstat s j) (rows s) (img k v)) \<longleftrightarrow> M k \<noteq> None"
proof
  assume "\<exists>j < sc_keys s. conflict (kstat s j) (rows s) (img k v)"
  then have "conflict (kstat s 0) (rows s) (img k v)"
    using rec_tableD(7) [OF assms(1)] by (auto simp: conflict_def)
  then show "M k \<noteq> None"
    by (auto simp: conflict_def rec_table_key [OF assms(1)] elim!: storesE [OF assms(2)])
next
  assume "M k \<noteq> None"
  then obtain i w where "rows s i = Some (img k w)" using stores_has [OF assms(2)] by blast
  then show "\<exists>j < sc_keys s. conflict (kstat s j) (rows s) (img k v)"
    using rec_tableD(6) [OF assms(1)] rec_table_key [OF assms(1)]
    by (intro exI [of _ 0]) (auto simp: conflict_def intro!: exI [of _ i])
qed

section \<open>The calls of the core on such a table\<close>

lemma rec_insert:
  assumes t: "rec_table s" and M: "stores (rows s) M" and room: "card (dom M) < sc_max_records s" and len: "length scratch = sizeof_Rec"
  obtains (ok) s' i sc where "fm_core_insert_row s (img k v) out ek scratch = Some (s', FM_ERR_OK, i, ek, sc)" "M k = None"
    "rec_table s'" "stores (rows s') (M(k \<mapsto> v))" "rows s i = None" "rows s' = (rows s)(i \<mapsto> img k v)" "gens s \<subseteq>\<^sub>m gens s'"
    "same_shape s s'" "length sc = sizeof_Rec"
  | (dup) s' sc where "fm_core_insert_row s (img k v) out ek scratch = Some (s', FM_ERR_DUP_KEY, out, map_option (\<lambda>_. 0) ek, sc)"
    "M k \<noteq> None" "rec_table s'" "rows s' = rows s" "gens s \<subseteq>\<^sub>m gens s'" "same_shape s s'" "length sc = sizeof_Rec"
proof -
  note D = rec_tableD [OF t]
  have l: "length (img k v) = sc_reclength s" "length scratch = sc_reclength s" using len D(4) by simp_all
  show thesis
  proof (cases rule: insert_row_cases [OF D(1,2) l, where out = out and ek = ek])
    case (1 s' i sc)
    have k: "M k = None" using 1(7) rec_conflict [OF t M, of k v] by auto
    show thesis
      by (rule ok [OF 1(1) k rec_table_step [OF t 1(2,3,6)] _ 1(4,5,9,6)]) (use 1 stores_insert [OF M 1(4) k] D(4) in simp_all)
  next
    case (2 s' sc)
    then show thesis using dup rec_conflict [OF t M, of k v] rec_table_step [OF t 2(2,3,5)] D(4) by auto
  next
    case (3 m)
    then show thesis using full_records [OF D(1) 3(2)] rec_records [OF t M] room D(5) by simp
  qed
qed

lemma rec_find:
  assumes t: "rec_table s" and M: "stores (rows s) M" and len: "length buf = sizeof_Rec" and pk: "int64_at pk 0 = k"
  obtains (found) v i where "fm_core_find s 0 pk buf out = Some (s, FM_ERR_OK, img k v, i)" "rows s i = Some (img k v)" "M k = Some v"
  | (none) bf where "fm_core_find s 0 pk buf out = Some (s, FM_ERR_NOT_FOUND, bf, out)" "M k = None"
proof -
  note D = rec_tableD [OF t]
  have l: "length buf = sc_reclength s" using len D(4) by simp
  show thesis
  proof (cases rule: find_cases [OF D(1,2,6) l, where key = pk and out = out])
    case (1 i bf)
    obtain k' v where b: "bf = img k' v" "M k' = Some v" by (rule storesE [OF M 1(2)])
    moreover have "k' = k" using 1(3) b(1) pk by (simp add: rec_table_key [OF t])
    ultimately show thesis using found 1(1,2) by simp
  next
    case (2 bf)
    have "M k \<noteq> Some v" for v using stores_has [OF M, of k v] 2(2) pk unfolding rec_table_key [OF t]
      by (metis Rec_image_at(1) Rec.select_convs(1))
    then have "M k = None" by blast
    then show thesis using none 2(1) by blast
  qed
qed

lemma rec_slot:
  assumes "rec_table s" "rows s i = Some r" "gens s i = Some g"
  obtains sl where "fm_slot s i = Some sl" "\<not> sl_wlock sl" "sl_data sl = r" "sl_gen sl = g" "\<not> slot_stale sl g"
  by (rule row_slotE [OF assms(2) rec_tableD(3) [OF assms(1)]]) (use assms(3) that in \<open>auto simp: gens_def\<close>)

lemma rec_refused:
  assumes t: "rec_table s" and M: "stores (rows s) M"
  shows "(\<exists>j. refused s (img k v) (img k' v') j) \<longleftrightarrow> k' \<noteq> k \<and> M k' \<noteq> None"
proof -
  have "refused s (img k v) (img k' v') j \<longleftrightarrow> j = 0 \<and> k' \<noteq> k \<and> conflict (kstat s 0) (rows s) (img k' v')" for j
  proof (cases "j = 0")
    case True
    then show ?thesis using rec_tableD(6) [OF t] by (auto simp: refused_def rec_table_key [OF t])
  next
    case False
    then show ?thesis using rec_tableD(7) [OF t, of j] by (auto simp: refused_def conflict_def)
  qed
  moreover have "conflict (kstat s 0) (rows s) (img k' v') \<longleftrightarrow> M k' \<noteq> None"
    using rec_conflict [OF t M, of k' v'] rec_tableD(6,7) [OF t] unfolding conflict_def by metis
  ultimately show ?thesis by simp
qed

lemma rec_update:
  assumes t: "rec_table s" and M: "stores (rows s) M" and r: "rows s i = Some (img k v)" "gens s i = Some g" and len: "length scratch = sizeof_Rec"
  obtains (ok) s' sc where "fm_core_update_row s i g (img k v) (img k' v') ek scratch = Some (s', FM_ERR_OK, ek, sc)" "k' = k \<or> M k' = None"
    "rec_table s'" "stores (rows s') (M(k := None, k' \<mapsto> v'))" "rows s' = (rows s)(i \<mapsto> img k' v')" "gens s' = gens s" "same_shape s s'"
    "length sc = sizeof_Rec"
  | (dup) s' ek' sc where "fm_core_update_row s i g (img k v) (img k' v') ek scratch = Some (s', FM_ERR_DUP_KEY, ek', sc)" "k' \<noteq> k" "M k' \<noteq> None"
    "rec_table s'" "rows s' = rows s" "gens s' = gens s" "same_shape s s'" "length sc = sizeof_Rec"
proof -
  note D = rec_tableD [OF t]
  obtain sl where sl: "fm_slot s i = Some sl" "\<not> sl_wlock sl" "sl_data sl = img k v" "\<not> slot_stale sl g"
    by (rule rec_slot [OF t r])
  have l: "length (img k' v') = sc_reclength s" "length scratch = sc_reclength s" using len D(4) by simp_all
  show thesis
  proof (cases rule: update_row_cases [OF D(1,2) sl(1,2) l sl(3) [symmetric], where g = g and ek = ek])
    case (1 s' sc)
    then have g: "core_inv s'" "quiet s'" "rows s' = (rows s)(i \<mapsto> img k' v')" "same_shape s s'" "gens s' = gens s"
      by (simp_all add: good_step_def)
    have k: "k' = k \<or> M k' = None" using 1(3) rec_refused [OF t M, of k v k' v'] by blast
    have "stores (rows s') (M(k := None, k' \<mapsto> v'))"
      unfolding g(3) by (rule stores_update [OF M rec_one_per_key [OF t] r(1) k])
    then show thesis using ok [OF 1(1) k rec_table_step [OF t g(1,2,4)] _ g(3,5,4)] 1(5) D(4) by simp
  next
    case (2 s' sc)
    then have g: "core_inv s'" "quiet s'" "rows s' = rows s" "same_shape s s'" "gens s' = gens s"
      by (simp_all add: good_step_def)
    have "k' \<noteq> k" "M k' \<noteq> None" using 2(2) rec_refused [OF t M, of k v k' v'] by blast+
    then show thesis using dup [OF 2(1) _ _ rec_table_step [OF t g(1,2,4)] g(3,5,4)] 2(4) D(4) by simp
  next
    case (3 s' sc)
    then show thesis using sl(4) by simp
  qed
qed

lemma rec_delete:
  assumes t: "rec_table s" and M: "stores (rows s) M" and r: "rows s i = Some (img k v)" "gens s i = Some g" and len: "length scratch = sizeof_Rec"
  obtains s' where "fm_core_delete_row s i g scratch = Some (s', FM_ERR_OK, img k v)"
    "rec_table s'" "stores (rows s') (M(k := None))" "rows s' = (rows s)(i := None)" "same_shape s s'"
proof -
  note D = rec_tableD [OF t]
  obtain sl where sl: "fm_slot s i = Some sl" "\<not> sl_wlock sl" "sl_data sl = img k v" "\<not> slot_stale sl g"
    by (rule rec_slot [OF t r])
  have l: "length scratch = sc_reclength s" using len D(4) by simp
  show thesis
  proof (cases rule: delete_row_cases [OF D(1,2) sl(1,2) l, where g = g])
    case (1 s')
    then have g: "core_inv s'" "quiet s'" "rows s' = (rows s)(i := None)" "same_shape s s'"
      by (simp_all add: removed_def)
    show thesis
      using that [OF _ rec_table_step [OF t g(1,2,4)] _ g(3,4)] 1(1) sl(3) stores_delete [OF M rec_one_per_key [OF t] r(1)] g(3) by simp
  qed (use sl(4) in simp)
qed

section \<open>Counting failures\<close>

text \<open>\<^verbatim>\<open>CHECK\<close> and \<^verbatim>\<open>fail\<close>: the messages are not modelled, the counter \<^verbatim>\<open>g_failures\<close> is.\<close>

definition CHECK :: "bool \<Rightarrow> nat \<Rightarrow> nat" where
  "CHECK c g_failures = (if c then g_failures else g_failures + 1)"

lemma CHECK_True [simp]: "CHECK True f = f"
  by (simp add: CHECK_def)

definition gen_of :: "FM_SHARE_CORE \<Rightarrow> fm_i32 \<Rightarrow> fm_u32 option" where
  "gen_of s idx = do { sl \<leftarrow> fm_slot s idx; Some (sl_gen sl) }"

lemma gen_of_gens: "gen_of s = gens s"
  by (rule ext) (simp add: gen_of_def gens_def map_option_case split: option.split)

text \<open>Initialising the share of a test and setting up the members of \<^verbatim>\<open>keydef\<close>, which has to be there.\<close>

definition test_share :: "(nat \<Rightarrow> nat \<Rightarrow> bool) \<Rightarrow> nat \<Rightarrow> nat \<Rightarrow> (FM_KEY_OPS \<times> bool) list \<Rightarrow> FM_SHARE_CORE option" where
  "test_share malloc reclength max_records ws = do {
     let s = fm_core_init_share malloc reclength (length ws) max_records 64;
     if ws \<noteq> [] \<and> sc_keydef s = None then None else Some (wire_keys ws s) }"

text \<open>The memory allocator of the tests, \<^verbatim>\<open>malloc\<close>, is assumed not to fail.\<close>

definition never_fails :: "(nat \<Rightarrow> nat \<Rightarrow> bool) \<Rightarrow> bool" where
  "never_fails malloc = (\<forall>n size. malloc n size)"

lemma test_share_run:
  assumes m: "never_fails malloc" and ok: "\<forall>w \<in> set ws. key_ok (Some (fst w, snd w, 64))" and mr: "0 < mr" "mr \<le> 2 ^ 20" and ws: "length ws \<le> 2"
  obtains s where "test_share malloc rl mr ws = Some s" "core_inv s" "quiet s" "rows s = Map.empty" "wlocked s = {}" "sc_keys s = length ws"
    "sc_reclength s = rl" "\<And>k. k < length ws \<Longrightarrow> kstat s k = Some (fst (ws ! k), snd (ws ! k), 64)" "sc_max_records s = mr"
    "\<not> alloc_fails s" "sc_live s = blocks s" "(sc_keydef s = None) = (sc_keys s = 0)" "sc_free_head s = FM_NULL_SLOT" "sc_chunk_cnt s = 0"
proof -
  let ?s = "wire_keys ws (fm_core_init_share malloc rl (length ws) mr 64)"
  have sv: "serves malloc n" for n using m by (simp add: serves_def never_fails_def)
  have le: "length ws \<le> FM_MAX_CHANGED_KEYS" "mr + FM_CHUNK_SIZE \<le> 2 ^ 31" using ws mr by simp_all
  have k: "\<forall>w \<in> set ws. key_ok (Some (fst w, snd w, of_nat (if (64 :: nat) \<noteq> 0 then 64 else 1024)))" using ok by simp
  note w = wired_share_inv [where rl = rl, OF sv le _ k]
  note I = init_share_ok [OF sv, of rl "length ws" mr 64]
  have "ws \<noteq> [] \<longrightarrow> sc_keydef (fm_core_init_share malloc rl (length ws) mr 64) \<noteq> None" using I by simp
  then have "test_share malloc rl mr ws = Some ?s" by (auto simp: test_share_def Let_def)
  moreover have "\<not> alloc_fails ?s" using w m by (simp add: alloc_fails_def never_fails_def)
  moreover have "sc_live ?s = blocks ?s" using w by (simp add: blocks_def)
  moreover have "sc_free_head ?s = FM_NULL_SLOT" using I by (simp add: wire_keys_def)
  ultimately show thesis using w mr by (intro that [of ?s]) simp_all
qed

text \<open>At the end of a test the share is freed.\<close>

lemma test_share_free:
  assumes "core_inv s'" "same_shape s s'" "sc_live s = blocks s" "(sc_keydef s = None) = (sc_keys s = 0)"
  obtains z where "fm_core_free_share s' = Some z" "sc_live z = 0"
proof -
  have "sc_live s' = blocks s'" "(sc_keydef s' = None) = (sc_keys s' = 0)"
    using same_shape_blocks [OF assms(2)] assms(2-4) by (simp_all add: same_shape_def)
  then show thesis by (rule free_share_run [OF assms(1)]) (rule that)
qed

end
