(* ===== verification/FM_Standalone_Serial.thy ===== *)
theory FM_Standalone_Serial
  imports FM_Standalone
begin

text \<open>
  The serial tests of \<^verbatim>\<open>standalone-test/main.cpp\<close>: stale positions (test C) and the bookkeeping of two keys (test D). Local
  buffers that the C++ code does not initialise are parameters; what they hold does not matter.
\<close>

section \<open>Test C: stale positions are rejected\<close>

definition test_stale_pos :: "(nat \<Rightarrow> nat \<Rightarrow> bool) \<Rightarrow> image \<Rightarrow> image \<Rightarrow> nat \<Rightarrow> (FM_SHARE_CORE \<times> nat) option" where
  "test_stale_pos malloc scratch buf f = do {
     s \<leftarrow> test_share malloc sizeof_Rec (2 ^ 20) [];
     let a = Rec_image \<lparr> rec_k = 1, rec_v = 10 \<rparr>;
     let b = Rec_image \<lparr> rec_k = 2, rec_v = 20 \<rparr>;
     (s, rc, ia, ek, scratch) \<leftarrow> fm_core_insert_row s a (-1) (Some 0) scratch;
     let f = CHECK (rc = FM_ERR_OK) f;
     (s, rc, ib, ek, scratch) \<leftarrow> fm_core_insert_row s b (-1) ek scratch;
     let f = CHECK (rc = FM_ERR_OK) f;
     ga \<leftarrow> gen_of s ia;
     (s, rc, scratch) \<leftarrow> fm_core_delete_row s ia ga scratch;
     let f = CHECK (rc = FM_ERR_OK) f;
     let c = Rec_image \<lparr> rec_k = 3, rec_v = 30 \<rparr>;
     (s, rc, ic, ek, scratch) \<leftarrow> fm_core_insert_row s c (-1) ek scratch;
     let f = CHECK (rc = FM_ERR_OK) f;
     let f = CHECK (ic = ia) f;
     (rc, buf) \<leftarrow> fm_core_read_row s ia True ga buf;
     let f = CHECK (rc = FM_ERR_DELETED) f;
     let d = Rec_image \<lparr> rec_k = 3, rec_v = 31 \<rparr>;
     (s, rc, ek, scratch) \<leftarrow> fm_core_update_row s ia ga c d ek scratch;
     let f = CHECK (rc = FM_ERR_DELETED) f;
     (s, rc, scratch) \<leftarrow> fm_core_delete_row s ia ga scratch;
     let f = CHECK (rc = FM_ERR_DELETED) f;
     gc \<leftarrow> gen_of s ic;
     (rc, buf) \<leftarrow> fm_core_read_row s ic True gc buf;
     let f = CHECK (rc = FM_ERR_OK) f;
     let f = CHECK (int64_at buf 0 = 3 \<and> int64_at buf 8 = 30) f;
     s \<leftarrow> fm_core_free_share s;
     Some (s, f) }"

section \<open>Test D: two keys\<close>

definition N :: nat where
  "N = 1000"

definition multikey_insert :: "nat \<Rightarrow> FM_SHARE_CORE \<times> image \<times> nat \<Rightarrow> (FM_SHARE_CORE \<times> image \<times> nat) option" where
  "multikey_insert i = (\<lambda>(s, scratch, f). do {
     let r = Rec_image \<lparr> rec_k = of_nat i, rec_v = of_nat i * 2 \<rparr>;
     (s, rci, idx, ek, scratch) \<leftarrow> fm_core_insert_row s r (-1) (Some 0) scratch;
     Some (s, scratch, CHECK (rci = FM_ERR_OK) f) })"

text \<open>The loop over \<^verbatim>\<open>fm_core_find_next\<close>, and the number of rows it should see.\<close>

partial_function (option) count_next :: "FM_SHARE_CORE \<Rightarrow> image \<Rightarrow> fm_i32 \<Rightarrow> image \<Rightarrow> fm_i32 \<Rightarrow> nat \<Rightarrow> (FM_SHARE_CORE \<times> nat) option" where
  "count_next s pk1 cur buf idx seen = do {
     (s, rc, buf, idx) \<leftarrow> fm_core_find_next s 1 pk1 cur buf idx;
     if rc = FM_ERR_OK then count_next s pk1 idx buf idx (seen + 1) else Some (s, seen) }"

function expect_from :: "nat \<Rightarrow> nat" where
  "expect_from i = (if i < N then expect_from (i + 4) + 1 else 0)"
  by auto
termination by (relation "measure (\<lambda>i. N - i)") auto

declare expect_from.simps [simp del]

definition multikey_count :: "image \<Rightarrow> nat \<Rightarrow> FM_SHARE_CORE \<times> nat \<Rightarrow> (FM_SHARE_CORE \<times> nat) option" where
  "multikey_count buf bucket = (\<lambda>(s, f). do {
     let pk1 = int64_bytes (of_nat bucket);
     (s, rc, buf, idx) \<leftarrow> fm_core_find s 1 pk1 buf (-1);
     (s, seen) \<leftarrow> (if rc = FM_ERR_OK then count_next s pk1 idx buf idx 1 else Some (s, 0));
     Some (s, CHECK (seen = expect_from bucket) f) })"

definition multikey_move :: "image \<Rightarrow> nat \<Rightarrow> FM_SHARE_CORE \<times> image \<times> nat \<Rightarrow> (FM_SHARE_CORE \<times> image \<times> nat) option" where
  "multikey_move buf i = (\<lambda>(s, scratch, f). do {
     let oldk = of_nat i;
     let pk0 = int64_bytes oldk;
     (s, rc, buf, idx) \<leftarrow> fm_core_find s 0 pk0 buf (-1);
     let f = CHECK (rc = FM_ERR_OK) f;
     let orc = buf;
     let nrc = Rec_image \<lparr> rec_k = oldk + of_nat N, rec_v = int64_at buf 8 + 1 \<rparr>;
     g \<leftarrow> gen_of s idx;
     (s, rc, ek, scratch) \<leftarrow> fm_core_update_row s idx g orc nrc (Some 0) scratch;
     let f = CHECK (rc = FM_ERR_OK) f;
     (s, rc, buf, idx) \<leftarrow> fm_core_find s 0 pk0 buf idx;
     Some (s, scratch, CHECK (rc = FM_ERR_NOT_FOUND) f) })"

definition multikey_verify :: "image \<Rightarrow> nat \<Rightarrow> FM_SHARE_CORE \<times> nat \<Rightarrow> (FM_SHARE_CORE \<times> nat) option" where
  "multikey_verify buf i = (\<lambda>(s, f). do {
     let nk = of_nat i + of_nat N;
     let pk0 = int64_bytes nk;
     (s, rc, buf, idx) \<leftarrow> fm_core_find s 0 pk0 buf (-1);
     let f = CHECK (rc = FM_ERR_OK) f;
     Some (s, CHECK (int64_at buf 8 = of_nat i * 2 + 1) f) })"

definition test_multikey :: "(nat \<Rightarrow> nat \<Rightarrow> bool) \<Rightarrow> image \<Rightarrow> image \<Rightarrow> nat \<Rightarrow> (FM_SHARE_CORE \<times> nat) option" where
  "test_multikey malloc scratch buf f = do {
     s \<leftarrow> test_share malloc sizeof_Rec (2 ^ 16) [(hk0_ops, True), (hk1_ops, False)];
     (s, scratch, f) \<leftarrow> foldM multikey_insert [0..<N] (s, scratch, f);
     (s, f) \<leftarrow> foldM (multikey_count buf) [0..<4] (s, f);
     (s, scratch, f) \<leftarrow> foldM (multikey_move buf) [0..<200] (s, scratch, f);
     (s, f) \<leftarrow> foldM (multikey_verify buf) [0..<200] (s, f);
     s \<leftarrow> fm_core_free_share s;
     Some (s, f) }"

section \<open>Test C passes\<close>

text \<open>A deleted slot is the first of the free list, and the next insert takes it.\<close>

lemma delete_row_head:
  assumes "fm_core_delete_row s i g scratch = Some (s', FM_ERR_OK, sc)"
  shows "sc_free_head s' = i"
  using assms
  by (auto simp: fm_core_delete_row_def delete_frozen_def fm_core_free_slot_def unlock_struct_def bind_eq_Some_conv Let_def split: if_splits)

lemma insert_row_head:
  assumes "core_inv s" "sc_free_head s \<noteq> FM_NULL_SLOT" "fm_core_insert_row s r out ek scratch = Some (s', FM_ERR_OK, i, ek', sc)"
  shows "i = sc_free_head s"
  using assms(2,3)
  by (auto simp: fm_core_insert_row_def fm_core_alloc_slot_def lock_struct_def bind_eq_Some_conv Let_def split: if_splits option.splits)

text \<open>A table without keys, as test C has it.\<close>

definition keyless :: "FM_SHARE_CORE \<Rightarrow> bool" where
  "keyless s = (core_inv s \<and> quiet s \<and> sc_keys s = 0 \<and> sc_reclength s = sizeof_Rec \<and> wlocked s = {} \<and> \<not> alloc_fails s)"

lemma keyless_step: "keyless s \<Longrightarrow> core_inv s' \<Longrightarrow> quiet s' \<Longrightarrow> same_shape s s' \<Longrightarrow> keyless s'"
  using same_shape_alloc [of s s'] by (simp add: keyless_def same_shape_def)

lemma keyless_insert:
  assumes k: "keyless s" and room: "card (dom (rows s)) < sc_max_records s" and len: "length scratch = sizeof_Rec"
  obtains s' i sc where "fm_core_insert_row s (Rec_image r) out ek scratch = Some (s', FM_ERR_OK, i, ek, sc)" "keyless s'"
    "rows s i = None" "rows s' = (rows s)(i \<mapsto> Rec_image r)" "same_shape s s'" "gens s \<subseteq>\<^sub>m gens s'" "length sc = sizeof_Rec"
proof -
  have D: "core_inv s" "quiet s" "sc_keys s = 0" "sc_reclength s = sizeof_Rec" "\<not> alloc_fails s" using k by (simp_all add: keyless_def)
  have l: "length (Rec_image r) = sc_reclength s" "length scratch = sc_reclength s" using len D(4) by simp_all
  show thesis
  proof (cases rule: insert_row_cases [OF D(1,2) l, where out = out and ek = ek])
    case (1 s' i sc)
    then show thesis using that keyless_step [OF k 1(2,3,6)] D(4) by simp
  next
    case (3 m)
    then show thesis using full_records [OF D(1) 3(2)] core_invD(4) [OF D(1)] room D(5) by simp
  qed (use D(3) in simp)
qed

lemma keyless_slot:
  assumes "keyless s" "rows s i = Some r" "gens s i = Some g"
  obtains sl where "fm_slot s i = Some sl" "\<not> sl_wlock sl" "sl_data sl = r" "sl_gen sl = g" "sl_state sl = FM_SLOT_ACTIVE"
  by (rule row_slotE [OF assms(2), of thesis]) (use assms that in \<open>auto simp: keyless_def gens_def\<close>)

text \<open>A position is refused by every call once the slot has another generation.\<close>

lemma keyless_stale:
  assumes k: "keyless s" and r: "rows s i = Some r" "gens s i = Some g'" and g: "g' \<noteq> g" and len: "length scratch = sizeof_Rec"
  shows "fm_core_read_row s i True g buf = Some (FM_ERR_DELETED, buf)"
    "\<exists>s' sc. fm_core_update_row s i g (Rec_image o_r) (Rec_image n_r) ek scratch = Some (s', FM_ERR_DELETED, ek, sc) \<and>
       keyless s' \<and> rows s' = rows s \<and> gens s' = gens s \<and> same_shape s s' \<and> length sc = sizeof_Rec"
    "fm_core_delete_row s i g scratch = Some (s, FM_ERR_DELETED, scratch)"
proof -
  have D: "core_inv s" "quiet s" "sc_keys s = 0" "sc_reclength s = sizeof_Rec" using k by (simp_all add: keyless_def)
  obtain sl where sl: "fm_slot s i = Some sl" "\<not> sl_wlock sl" "sl_gen sl = g'" "sl_state sl = FM_SLOT_ACTIVE"
    by (rule keyless_slot [OF k r])
  have st: "slot_stale sl g" using sl(3) g by (simp add: slot_stale_def)
  show "fm_core_read_row s i True g buf = Some (FM_ERR_DELETED, buf)"
    using sl g by (simp add: fm_core_read_row_def)
  have l: "length (Rec_image n_r) = sc_reclength s" "length scratch = sc_reclength s" using len D(4) by simp_all
  show "\<exists>s' sc. fm_core_update_row s i g (Rec_image o_r) (Rec_image n_r) ek scratch = Some (s', FM_ERR_DELETED, ek, sc) \<and>
       keyless s' \<and> rows s' = rows s \<and> gens s' = gens s \<and> same_shape s s' \<and> length sc = sizeof_Rec"
  proof (cases rule: update_row_cases [OF D(1,2) sl(1,2) l, where ek = ek and g = g and old_rec = "Rec_image o_r"])
    case (4 s' sc)
    then show ?thesis using keyless_step [OF k, of s'] D(4) by (auto simp: good_step_def)
  qed (use st D(3) in \<open>auto simp: refused_def\<close>)
  show "fm_core_delete_row s i g scratch = Some (s, FM_ERR_DELETED, scratch)"
    by (cases rule: delete_row_cases [OF D(1,2) sl(1,2) l(2), where g = g]) (use st in simp_all)
qed

text \<open>A row that is deleted and replaced: the new one is in the same slot, with the next generation.\<close>

lemma keyless_recycle:
  assumes k: "keyless s" and r: "rows s i = Some r" "gens s i = Some g" and room: "card (dom (rows s)) \<le> sc_max_records s" and len: "length scratch = sizeof_Rec"
  obtains t u sc where "fm_core_delete_row s i g scratch = Some (t, FM_ERR_OK, r)" 
    "fm_core_insert_row t (Rec_image q) out ek r = Some (u, FM_ERR_OK, i, ek, sc)" "keyless u" "same_shape s u"
    "rows u = (rows s)(i \<mapsto> Rec_image q)" "gens u i = Some (g + 1)" "length sc = sizeof_Rec"
proof -
  have D: "core_inv s" "quiet s" "length scratch = sc_reclength s" using k len by (simp_all add: keyless_def)
  obtain sl where sl: "fm_slot s i = Some sl" "\<not> sl_wlock sl" "sl_data sl = r" "sl_gen sl = g" "sl_state sl = FM_SLOT_ACTIVE"
    by (rule keyless_slot [OF k r])
  obtain t where t: "fm_core_delete_row s i g scratch = Some (t, FM_ERR_OK, r)" "removed s i sl t"
    by (rule delete_row_cases [OF D(1,2) sl(1,2) D(3), where g = g]) (use sl in \<open>simp_all add: slot_stale_def\<close>)
  then have kt: "keyless t" "same_shape s t" "rows t = (rows s)(i := None)" "gens t i = Some (g + 1)"
    using keyless_step [OF k, of t] sl(4) by (simp_all add: removed_def)
  have "finite (dom (rows s))" by (rule finite_rows [OF core_invD(1) [OF D(1)]])
  then have c: "card (dom (rows t)) < card (dom (rows s))"
    unfolding kt(3) using r(1) card_Diff1_less [of "dom (rows s)" i] by (simp add: domIff)
  have lr: "length r = sizeof_Rec" using row_length [OF core_invD(3) [OF D(1)] r(1)] k by (simp add: keyless_def)
  obtain u j sc where u: "fm_core_insert_row t (Rec_image q) out ek r = Some (u, FM_ERR_OK, j, ek, sc)" "keyless u"
    "rows u = (rows t)(j \<mapsto> Rec_image q)" "same_shape t u" "gens t \<subseteq>\<^sub>m gens u" "length sc = sizeof_Rec"
    by (rule keyless_insert [OF kt(1) _ lr, where out = out and ek = ek and r = q]) (use c room kt(2) in \<open>auto simp: same_shape_def\<close>)
  have "0 \<le> i" using slot_exists [OF core_invD(1) [OF D(1)], of i] sl(1) by simp
  then have j: "j = i" using insert_row_head [OF _ _ u(1)] delete_row_head [OF t(1)] kt(1) by (simp add: keyless_def)
  have g1: "gens u i = Some (g + 1)" using u(5) kt(4) by (metis domI map_le_def)
  show thesis
    by (rule that [OF t(1) u(1) [unfolded j] u(2) same_shape_trans [OF kt(2) u(4)] _ g1 u(6)]) (simp add: u(3) j kt(3))
qed

text \<open>Test C of the standalone test. With an allocator that does not fail, the test runs to its end whatever its buffers
  held before, counts no failure and gives all its memory back: a position captured before a delete is refused by
  reads, updates and deletes after the slot has been recycled, and the new row is there.\<close>

theorem test_stale_pos_passes:
  assumes "never_fails malloc" "length scratch = sizeof_Rec" "length buf = sizeof_Rec"
  shows "\<exists>z. test_stale_pos malloc scratch buf f = Some (z, f) \<and> sc_live z = 0"
proof -
  let ?a = "img 1 10" and ?b = "img 2 20" and ?c = "img 3 30"
  obtain s0 where s0: "test_share malloc sizeof_Rec 1048576 [] = Some s0" "keyless s0" "rows s0 = Map.empty" "sc_max_records s0 = 2 ^ 20"
    "sc_live s0 = blocks s0" "(sc_keydef s0 = None) = (sc_keys s0 = 0)"
    by (rule test_share_run [OF assms(1), where ws = "[]" and mr = 1048576 and rl = sizeof_Rec]) (simp_all add: keyless_def)
  obtain s1 ia c1 where s1: "fm_core_insert_row s0 ?a (-1) (Some 0) scratch = Some (s1, FM_ERR_OK, ia, Some 0, c1)" "keyless s1"
    "rows s1 = (rows s0)(ia \<mapsto> ?a)" "same_shape s0 s1" "length c1 = sizeof_Rec"
    by (rule keyless_insert [OF s0(2) _ assms(2), where out = "-1" and ek = "Some 0"]) (use s0 in auto)
  obtain s2 ib c2 where s2: "fm_core_insert_row s1 ?b (-1) (Some 0) c1 = Some (s2, FM_ERR_OK, ib, Some 0, c2)" "keyless s2"
    "rows s1 ib = None" "rows s2 = (rows s1)(ib \<mapsto> ?b)" "same_shape s1 s2" "length c2 = sizeof_Rec"
    by (rule keyless_insert [OF s1(2) _ s1(5), where out = "-1" and ek = "Some 0"]) (use s0 s1 in \<open>auto simp: same_shape_def\<close>)
  have ra: "rows s2 ia = Some ?a" using s1(3) s2(3,4) by (auto split: if_splits)
  then obtain ga where ga: "gens s2 ia = Some ga" by (auto simp: gens_def dest!: rows_slot)
  have c2: "card (dom (rows s2)) \<le> sc_max_records s2"
    using s0(4) s1(4) s2(5) by (simp add: s2(4) s1(3) s0(3) card_insert_if same_shape_def)
  obtain s3 s4 c4 where s4: "fm_core_delete_row s2 ia ga c2 = Some (s3, FM_ERR_OK, ?a)"
    "fm_core_insert_row s3 ?c (-1) (Some 0) ?a = Some (s4, FM_ERR_OK, ia, Some 0, c4)" "keyless s4" "same_shape s2 s4"
    "rows s4 = (rows s2)(ia \<mapsto> ?c)" "gens s4 ia = Some (ga + 1)" "length c4 = sizeof_Rec"
    by (rule keyless_recycle [OF s2(2) ra ga c2 s2(6), where out = "-1" and ek = "Some 0"])
  have rc: "rows s4 ia = Some ?c" using s4(5) by simp
  have ne: "ga + 1 \<noteq> ga" by simp
  note stale = keyless_stale [OF s4(3) rc s4(6) ne]
  obtain s5 c5 where s5: "fm_core_update_row s4 ia ga ?c (img 3 31) (Some 0) c4 = Some (s5, FM_ERR_DELETED, Some 0, c5)"
    "keyless s5" "rows s5 = rows s4" "gens s5 = gens s4" "same_shape s4 s5" "length c5 = sizeof_Rec"
    using stale(2) [OF s4(7)] by blast
  have r5: "rows s5 ia = Some ?c" "gens s5 ia = Some (ga + 1)" using s5(3,4) rc s4(6) by simp_all
  have d5: "fm_core_delete_row s5 ia ga c5 = Some (s5, FM_ERR_DELETED, c5)" by (rule keyless_stale(3) [OF s5(2) r5 ne s5(6)])
  have r6: "fm_core_read_row s5 ia True (ga + 1) buf = Some (FM_ERR_OK, ?c)"
    by (rule read_row_gen [OF _ r5]) (use s5(2) assms(3) core_invD(3) in \<open>auto simp: keyless_def\<close>)
  obtain z where z: "fm_core_free_share s5 = Some z" "sc_live z = 0"
    by (rule test_share_free [where s = s0 and s' = s5])
      (use s0 s5 s1(4) s2(5) s4(4) in \<open>auto simp: keyless_def same_shape_def\<close>)
  show ?thesis
    using z by (simp add: test_stale_pos_def Let_def s0(1) s1(1) s2(1) ga s4(1,2) stale(1) [OF assms(2)] s5(1) d5 r5(2) r6 gen_of_gens)
qed

section \<open>Test D passes\<close>

text \<open>What the table holds after \<open>n\<close> rows have been inserted, and after \<open>n\<close> keys have been moved.\<close>

definition ins_map :: "nat \<Rightarrow> int64 \<rightharpoonup> int64" where
  "ins_map n k = (if unat k < n then Some (k * 2) else None)"

definition move_map :: "nat \<Rightarrow> int64 \<rightharpoonup> int64" where
  "move_map n k = (if unat k < n then None else if unat k < N then Some (k * 2)
     else if unat k < N + n then Some ((k - of_nat N) * 2 + 1) else None)"

lemma unat_eq_small: "n < 2 ^ 64 \<Longrightarrow> unat (k :: int64) = n \<longleftrightarrow> k = of_nat n"
  using unat_small by auto

lemma ins_map_dom:
  assumes "n < 2 ^ 64"
  shows "dom (ins_map n) = of_nat ` {..<n}"
proof -
  have "k \<in> of_nat ` {..<n}" if "unat k < n" for k :: int64
    using that by (intro image_eqI [of _ _ "unat k"]) simp_all
  then show ?thesis using assms by (auto simp: ins_map_def dom_def unat_small split: if_splits)
qed

lemma ins_map_card: "n < 2 ^ 64 \<Longrightarrow> card (dom (ins_map n)) \<le> n"
  using card_image_le [of "{..<n}" "of_nat :: nat \<Rightarrow> int64"] by (simp add: ins_map_dom)

lemma ins_map_Suc: "n < 2 ^ 64 \<Longrightarrow> (ins_map n)(of_nat n \<mapsto> of_nat n * 2) = ins_map (Suc n)"
  by (rule ext) (auto simp: ins_map_def unat_small unat_eq_small less_Suc_eq)

lemma move_map_0: "move_map 0 = ins_map N"
  by (rule ext) (simp add: move_map_def ins_map_def)

lemma move_map_Suc:
  assumes "n < N"
  shows "(move_map n)(of_nat n := None, of_nat n + of_nat N \<mapsto> of_nat n * 2 + 1) = move_map (Suc n)"
proof (rule ext)
  fix k :: int64
  have n: "unat k = n \<longleftrightarrow> k = of_nat n" "unat k = N + n \<longleftrightarrow> k = of_nat n + of_nat N"
    using assms unat_eq_small [of n k] unat_eq_small [of "N + n" k] by (simp_all add: N_def add.commute)
  show "((move_map n)(of_nat n := None, of_nat n + of_nat N \<mapsto> of_nat n * 2 + 1)) k = move_map (Suc n) k"
  proof (cases "unat k = n \<or> unat k = N + n")
    case True
    then show ?thesis using n assms by (auto simp: move_map_def)
  next
    case False
    then show ?thesis using n by (simp add: move_map_def less_Suc_eq)
  qed
qed

text \<open>The rows with a given remainder.\<close>

lemma and_3: "of_nat i AND (3 :: int64) = of_nat (i mod 4)"
proof -
  have "of_nat i AND (3 :: int64) = take_bit 2 (of_nat i)" by (simp add: take_bit_eq_mask mask_numeral mask_eq_exp_minus_1)
  also have "\<dots> = of_nat (take_bit 2 i)" by (simp add: take_bit_of_nat)
  finally show ?thesis by (simp add: take_bit_eq_mod)
qed

lemma expect_from_card: "expect_from i = card {j. i \<le> j \<and> j < N \<and> j mod 4 = i mod 4}"
proof (induction i rule: expect_from.induct)
  case (1 i)
  show ?case
  proof (cases "i < N")
    case True
    have "j = i \<or> i + 4 \<le> j" if "i \<le> j" "j mod 4 = i mod 4" for j
    proof -
      have "4 dvd j - i" using that mod_eq_dvd_iff_nat [of i j 4] by simp
      then show ?thesis using that(1) by (cases "j = i") (auto dest!: dvd_imp_le)
    qed
    then have "{j. i \<le> j \<and> j < N \<and> j mod 4 = i mod 4} = insert i {j. i + 4 \<le> j \<and> j < N \<and> j mod 4 = (i + 4) mod 4}"
      using True by auto
    moreover have "i \<notin> {j. i + 4 \<le> j \<and> j < N \<and> j mod 4 = (i + 4) mod 4}" by simp
    ultimately show ?thesis using 1 [OF True] True by (subst expect_from.simps) simp
  next
    case False
    then have "{j. i \<le> j \<and> j < N \<and> j mod 4 = i mod 4} = {}" by auto
    then show ?thesis using False by (subst expect_from.simps) simp
  qed
qed

lemma ins_map_remainder:
  assumes "b < 4"
  shows "card {k \<in> dom (ins_map N). k AND 3 = of_nat b AND 3} = expect_from b"
proof -
  have inj: "inj_on (of_nat :: nat \<Rightarrow> int64) {..<N}"
    by (rule inj_on_inverseI [where g = unat]) (simp add: unat_small N_def)
  have "of_nat i AND 3 = (of_nat b AND 3 :: int64) \<longleftrightarrow> i mod 4 = b" for i
  proof -
    have "i mod 4 < 2 ^ 64" "b mod 4 < 2 ^ 64" by (rule less_trans [of _ 4], simp_all)+
    from this [THEN unat_small] show ?thesis unfolding and_3 using assms by (metis mod_less)
  qed
  then have im: "{k \<in> dom (ins_map N). k AND 3 = of_nat b AND 3} = of_nat ` {j \<in> {..<N}. j mod 4 = b}"
    by (auto simp: ins_map_dom N_def)
  have "{j \<in> {..<N}. j mod 4 = b} = {j. b \<le> j \<and> j < N \<and> j mod 4 = b mod 4}" using assms by auto
  then have e: "expect_from b = card {j \<in> {..<N}. j mod 4 = b}" by (simp only: expect_from_card)
  have "inj_on (of_nat :: nat \<Rightarrow> int64) {j \<in> {..<N}. j mod 4 = b}" by (rule inj_on_subset [OF inj]) auto
  then show ?thesis unfolding im e by (rule card_image)
qed

text \<open>The loop of an index scan counts the rows after its position.\<close>

lemma count_next_run:
  assumes L: "\<forall>j < length L. \<forall>buf out. length buf = sc_reclength s \<longrightarrow> (if Suc j < length L
      then fm_core_find_next s 1 pk (L ! j) buf out = Some (s, FM_ERR_OK, the (rows s (L ! Suc j)), L ! Suc j)
      else \<exists>bf. fm_core_find_next s 1 pk (L ! j) buf out = Some (s, FM_ERR_NOT_FOUND, bf, out))"
    and R: "\<And>i. i \<in> set L \<Longrightarrow> length (the (rows s i)) = sc_reclength s"
  shows "j < length L \<Longrightarrow> length buf = sc_reclength s \<Longrightarrow> count_next s pk (L ! j) buf idx n = Some (s, n + (length L - Suc j))"
proof (induction "length L - Suc j" arbitrary: j buf idx n)
  case 0
  then have "\<not> Suc j < length L" by simp
  then obtain bf where "fm_core_find_next s 1 pk (L ! j) buf idx = Some (s, FM_ERR_NOT_FOUND, bf, idx)"
    using L 0(2,3) by (metis (full_types))
  then show ?case using 0 by (subst count_next.simps) (simp del: One_nat_def)
next
  case (Suc m)
  then have j: "Suc j < length L" by simp
  then have "fm_core_find_next s 1 pk (L ! j) buf idx = Some (s, FM_ERR_OK, the (rows s (L ! Suc j)), L ! Suc j)"
    using L Suc(3,4) by (simp del: One_nat_def)
  then show ?case using Suc(1) [OF _ j R, where n = "n + 1"] Suc(2) j nth_mem [OF j] by (subst count_next.simps) (simp del: One_nat_def)
qed

definition multikey_ok :: "FM_SHARE_CORE \<Rightarrow> (int64 \<rightharpoonup> int64) \<Rightarrow> FM_SHARE_CORE \<Rightarrow> bool" where
  "multikey_ok s0 M s = (rec_table s \<and> stores (rows s) M \<and> same_shape s0 s)"

lemma multikey_insert_loop:
  assumes "multikey_ok s0 Map.empty s0" "sc_max_records s0 = 65536" "length scratch = sizeof_Rec"
  obtains s sc where "foldM multikey_insert [0..<N] (s0, scratch, f) = Some (s, sc, f)" "multikey_ok s0 (ins_map N) s" "length sc = sizeof_Rec"
proof -
  define P where "P i = (\<lambda>(s, sc :: image, f'). multikey_ok s0 (ins_map i) s \<and> length sc = sizeof_Rec \<and> f' = f)" for i
  have "\<exists>t. foldM multikey_insert [0..<N] (s0, scratch, f) = Some t \<and> P N t"
  proof (rule foldM_upt)
    have "ins_map 0 = Map.empty" by (rule ext) (simp add: ins_map_def)
    then show "P 0 (s0, scratch, f)" using assms by (simp add: P_def)
  next
    fix i t assume i: "i < N" and "P i t"
    then obtain s sc where t: "t = (s, sc, f)" "multikey_ok s0 (ins_map i) s" "length sc = sizeof_Rec" by (auto simp: P_def)
    have s: "rec_table s" "stores (rows s) (ins_map i)" "same_shape s0 s" using t(2) by (simp_all add: multikey_ok_def)
    have b: "i < 2 ^ 64" "i < 65536" using i by (simp_all add: N_def)
    have room: "card (dom (ins_map i)) < sc_max_records s" using ins_map_card [OF b(1)] b(2) s(3) assms(2) by (simp add: same_shape_def)
    obtain s' j sc' where s': "fm_core_insert_row s (img (of_nat i) (of_nat i * 2)) (-1) (Some 0) sc = Some (s', FM_ERR_OK, j, Some 0, sc')"
      "rec_table s'" "stores (rows s') ((ins_map i)(of_nat i \<mapsto> of_nat i * 2))" "same_shape s s'" "length sc' = sizeof_Rec"
      by (rule rec_insert [OF s(1,2) room t(3), where k = "of_nat i" and v = "of_nat i * 2" and out = "-1" and ek = "Some 0"])
        (use b in \<open>auto simp: ins_map_def unat_small\<close>)
    have "P (Suc i) (s', sc', f)"
      using s' ins_map_Suc [OF b(1)] same_shape_trans [OF s(3) s'(4)] by (simp add: P_def multikey_ok_def)
    then show "\<exists>u. multikey_insert i t = Some u \<and> P (Suc i) u" using s'(1) t(1) by (simp add: multikey_insert_def)
  qed
  then show thesis using that by (auto simp: P_def)
qed

lemma multikey_count_run:
  assumes ok: "multikey_ok s0 (ins_map N) s" and k1: "sc_keys s0 = 2" "kstat s0 1 = Some (hk1_ops, False, 64)"
    and len: "length buf = sizeof_Rec" and b: "b < 4"
  shows "multikey_count buf b (s, f) = Some (s, f)"
proof -
  have s: "rec_table s" "stores (rows s) (ins_map N)" "sc_keys s = 2" "kstat s 1 = Some (hk1_ops, False, 64)"
    using ok k1 by (simp_all add: multikey_ok_def same_shape_def)
  note D = rec_tableD [OF s(1)]
  let ?pk = "int64_bytes (of_nat b)"
  have lb: "length buf = sc_reclength s" using len D(4) by simp
  have k: "1 < sc_keys s" using s(3) by simp
  obtain L where L: "distinct L" "set L = {i. \<exists>r. rows s i = Some r \<and> matches (kstat s 1) r ?pk}"
    "\<forall>buf out. length buf = sc_reclength s \<longrightarrow> (case L of
       [] \<Rightarrow> \<exists>bf. fm_core_find s 1 ?pk buf out = Some (s, FM_ERR_NOT_FOUND, bf, out)
     | i # _ \<Rightarrow> fm_core_find s 1 ?pk buf out = Some (s, FM_ERR_OK, the (rows s i), i))"
    "\<forall>j < length L. \<forall>buf out. length buf = sc_reclength s \<longrightarrow> (if Suc j < length L
       then fm_core_find_next s 1 ?pk (L ! j) buf out = Some (s, FM_ERR_OK, the (rows s (L ! Suc j)), L ! Suc j)
       else \<exists>bf. fm_core_find_next s 1 ?pk (L ! j) buf out = Some (s, FM_ERR_NOT_FOUND, bf, out))"
    by (rule index_scan_list [OF D(1,2) k, where key = ?pk])
  have R: "length (the (rows s i)) = sc_reclength s" if "i \<in> set L" for i
    using that L(2) row_length [OF core_invD(3) [OF D(1)]] by auto
  have "length L = card (set L)" using distinct_card [OF L(1)] by simp
  also have "\<dots> = card {k \<in> dom (ins_map N). k AND 3 = of_nat b AND 3}"
    using stores_count [OF s(2) rec_one_per_key [OF s(1)], of "\<lambda>k. k AND 3 = of_nat b AND 3"] by (simp add: L(2) s(4) del: One_nat_def)
  finally have "length L = expect_from b" using ins_map_remainder [OF b] by simp
  then show ?thesis
    using L(3) [rule_format, OF lb, of "-1"] count_next_run [OF L(4) R, of 0 "the (rows s (hd L))" "hd L" 1] R
    by (cases L) (auto simp: multikey_count_def Let_def simp del: One_nat_def)
qed

lemma multikey_count_loop:
  assumes "multikey_ok s0 (ins_map N) s" "sc_keys s0 = 2" "kstat s0 1 = Some (hk1_ops, False, 64)" "length buf = sizeof_Rec"
  shows "foldM (multikey_count buf) [0..<4] (s, f) = Some (s, f)"
proof -
  have "foldM (multikey_count buf) bs (s, f) = Some (s, f)" if "\<forall>b \<in> set bs. b < 4" for bs
    using that by (induction bs) (simp_all add: multikey_count_run [OF assms])
  then show ?thesis by simp
qed

lemma multikey_move_run:
  assumes ok: "multikey_ok s0 (move_map i) s" and len: "length sc = sizeof_Rec" "length buf = sizeof_Rec" and i: "i < N"
  obtains s' sc' where "multikey_move buf i (s, sc, f) = Some (s', sc', f)" "multikey_ok s0 (move_map (Suc i)) s'" "length sc' = sizeof_Rec"
proof -
  have s: "rec_table s" "stores (rows s) (move_map i)" "same_shape s0 s" using ok by (simp_all add: multikey_ok_def)
  let ?k = "of_nat i :: int64" and ?k' = "of_nat i + of_nat N :: int64"
  have u: "unat ?k = i" "unat ?k' = i + N" using unat_small [of i] unat_small [of "i + N"] i by (simp_all add: N_def)
  then have M: "move_map i ?k = Some (?k * 2)" "move_map i ?k' = None" and ne: "?k' \<noteq> ?k" using i by (auto simp: move_map_def N_def)
  let ?pk = "int64_bytes ?k"
  obtain j where j: "fm_core_find s 0 ?pk buf (-1) = Some (s, FM_ERR_OK, img ?k (?k * 2), j)" "rows s j = Some (img ?k (?k * 2))"
    by (rule rec_find [OF s(1,2) len(2) int64_at_self [of ?k], where out = "-1"]) (use M(1) in auto)
  obtain g where g: "gens s j = Some g" using rows_slot [OF j(2)] by (auto simp: gens_def)
  obtain s' sc' where s': "fm_core_update_row s j g (img ?k (?k * 2)) (img ?k' (?k * 2 + 1)) (Some 0) sc = Some (s', FM_ERR_OK, Some 0, sc')"
    "rec_table s'" "stores (rows s') ((move_map i)(?k := None, ?k' \<mapsto> ?k * 2 + 1))" "same_shape s s'" "length sc' = sizeof_Rec"
    by (rule rec_update [OF s(1,2) j(2) g len(1), where k' = ?k' and v' = "?k * 2 + 1" and ek = "Some 0"]) (use M(2) in auto)
  have st: "stores (rows s') (move_map (Suc i))" using s'(3) move_map_Suc [OF i] by simp
  have gone: "move_map (Suc i) ?k = None" using u(1) by (simp add: move_map_def)
  have "\<exists>bf. fm_core_find s' 0 ?pk (img ?k (?k * 2)) j = Some (s', FM_ERR_NOT_FOUND, bf, j)"
    by (rule rec_find [OF s'(2) st Rec_image_length int64_at_self [of ?k], where out = j]) (use gone in auto)
  then have "multikey_move buf i (s, sc, f) = Some (s', sc', f)"
    using j(1) g s'(1) by (auto simp: multikey_move_def Let_def gen_of_gens)
  then show thesis using that st s' same_shape_trans [OF s(3) s'(4)] by (simp add: multikey_ok_def)
qed

lemma multikey_move_loop:
  assumes "multikey_ok s0 (ins_map N) s" "length sc = sizeof_Rec" "length buf = sizeof_Rec" "n \<le> N"
  obtains s' sc' where "foldM (multikey_move buf) [0..<n] (s, sc, f) = Some (s', sc', f)" "multikey_ok s0 (move_map n) s'" "length sc' = sizeof_Rec"
proof -
  define P where "P i = (\<lambda>(s, sc :: image, f'). multikey_ok s0 (move_map i) s \<and> length sc = sizeof_Rec \<and> f' = f)" for i
  have "\<exists>t. foldM (multikey_move buf) [0..<n] (s, sc, f) = Some t \<and> P n t"
  proof (rule foldM_upt)
    show "P 0 (s, sc, f)" using assms by (simp add: P_def move_map_0)
  next
    fix i t assume i: "i < n" and "P i t"
    then obtain u uc where t: "t = (u, uc, f)" "multikey_ok s0 (move_map i) u" "length uc = sizeof_Rec" by (auto simp: P_def)
    then show "\<exists>u. multikey_move buf i t = Some u \<and> P (Suc i) u"
      using i assms(3,4) by (auto simp: P_def intro: multikey_move_run [OF t(2,3), of buf f])
  qed
  then show thesis using that by (auto simp: P_def)
qed

lemma multikey_verify_run:
  assumes ok: "multikey_ok s0 (move_map n) s" and len: "length buf = sizeof_Rec" and i: "i < n" "n < N"
  shows "multikey_verify buf i (s, f) = Some (s, f)"
proof -
  have s: "rec_table s" "stores (rows s) (move_map n)" using ok by (simp_all add: multikey_ok_def)
  let ?k = "of_nat i + of_nat N :: int64"
  have "unat ?k = i + N" using unat_small [of "i + N"] i by (simp add: N_def)
  then have M: "move_map n ?k = Some (of_nat i * 2 + 1)" using i by (simp add: move_map_def)
  obtain j where "fm_core_find s 0 (int64_bytes ?k) buf (-1) = Some (s, FM_ERR_OK, img ?k (of_nat i * 2 + 1), j)"
    by (rule rec_find [OF s(1,2) len int64_at_self [of ?k], where out = "-1"]) (use M in auto)
  then show ?thesis by (simp add: multikey_verify_def Let_def)
qed

text \<open>C23. Test D of the standalone test, which has one thread. With an allocator that does not fail, the test runs to its end, counts no failure and
  gives its memory back: the index scans over the non-unique key see every row of a bucket once, and 200 key
  moves leave the old keys and are found under the new ones.\<close>

theorem test_multikey_passes:
  assumes "never_fails malloc" "length scratch = sizeof_Rec" "length buf = sizeof_Rec"
  shows "\<exists>z. test_multikey malloc scratch buf f = Some (z, f) \<and> sc_live z = 0"
proof -
  let ?ws = "[(hk0_ops, True), (hk1_ops, False)]"
  obtain s0 where s0: "test_share malloc sizeof_Rec 65536 ?ws = Some s0" "core_inv s0" "quiet s0" "rows s0 = Map.empty" "wlocked s0 = {}" "sc_keys s0 = 2"
    "sc_reclength s0 = sizeof_Rec" "\<And>k. k < 2 \<Longrightarrow> kstat s0 k = Some (fst (?ws ! k), snd (?ws ! k), 64)" "sc_max_records s0 = 65536"
    "\<not> alloc_fails s0" "sc_live s0 = blocks s0" "(sc_keydef s0 = None) = (sc_keys s0 = 0)"
    by (rule test_share_run [OF assms(1), where ws = ?ws and mr = 65536 and rl = sizeof_Rec]) (simp_all add: hk_ops_ok)
  have k1: "kstat s0 1 = Some (hk1_ops, False, 64)" "kstat s0 0 = Some (hk0_ops, True, 64)" using s0(8) [of 1] s0(8) [of 0] by simp_all
  have "k = 1" if "0 < k" "k < 2" for k :: nat using that by simp
  then have "multikey_ok s0 Map.empty s0"
    using s0 k1 unfolding multikey_ok_def rec_table_def by (auto simp: is_unique_def)
  then obtain s1 c1 where s1: "foldM multikey_insert [0..<N] (s0, scratch, f) = Some (s1, c1, f)" "multikey_ok s0 (ins_map N) s1" "length c1 = sizeof_Rec"
    using s0(9) assms(2) by (rule multikey_insert_loop)
  have c: "foldM (multikey_count buf) [0..<4] (s1, f) = Some (s1, f)" by (rule multikey_count_loop [OF s1(2) s0(6) k1(1) assms(3)])
  obtain s2 c2 where s2: "foldM (multikey_move buf) [0..<200] (s1, c1, f) = Some (s2, c2, f)" "multikey_ok s0 (move_map 200) s2"
    by (rule multikey_move_loop [OF s1(2,3) assms(3), of 200]) (auto simp: N_def)
  have "foldM (multikey_verify buf) is (s2, f) = Some (s2, f)" if "\<forall>i \<in> set is. i < 200" for "is"
    using that by (induction "is") (simp_all add: multikey_verify_run [OF s2(2) assms(3)] N_def)
  then have v: "foldM (multikey_verify buf) [0..<200] (s2, f) = Some (s2, f)" by simp
  obtain z where "fm_core_free_share s2 = Some z" "sc_live z = 0"
    by (rule test_share_free [where s = s0 and s' = s2]) (use s2(2) s0 in \<open>auto simp: multikey_ok_def rec_table_def\<close>)
  then show ?thesis using s0(1) s1(1) c s2(1) v by (simp add: test_multikey_def)
qed

theorem test_stale_pos_passes_witness:
  "\<exists>z. test_stale_pos (\<lambda>_ _. True) (replicate 16 0) (replicate 16 0) 0 = Some (z, 0) \<and> sc_live z = 0"
  by (rule test_stale_pos_passes) (simp_all add: never_fails_def sizeof_Rec_def)

theorem test_multikey_passes_witness:
  "\<exists>z. test_multikey (\<lambda>_ _. True) (replicate 16 0) (replicate 16 0) 0 = Some (z, 0) \<and> sc_live z = 0"
  by (rule test_multikey_passes) (simp_all add: never_fails_def sizeof_Rec_def)

end
