(* ===== verification/FM_Standalone_Unique.thy ===== *)
theory FM_Standalone_Unique
  imports FM_Standalone "HOL-Library.AList"
begin

text \<open>
  Test B of \<^verbatim>\<open>standalone-test/main.cpp\<close>: six threads insert, update and delete rows of one table and keep a shadow of it in a
  \<^verbatim>\<open>std::map\<close> under a mutex. An insert is entered into the shadow after the call, so other threads run in between.
  A call of the core is one step: the model has the interleavings of calls, not those of the accesses inside of two calls, which \<^verbatim>\<open>FM_Race\<close>,
  \<^verbatim>\<open>FM_Seqlock\<close> and \<^verbatim>\<open>FM_Locks\<close> are about. The choices of the random generator are those of the step relation.
\<close>

section \<open>State\<close>

text \<open>Where a thread is: at the top of its loop; with the result of an insert, waiting for \<^verbatim>\<open>mtx\<close>; or inside of an update or a
  delete, which hold \<^verbatim>\<open>mtx\<close> from the start, before the lookup, before the call and after it.\<close>

datatype unique_pc =
    U_Loop
  | U_Inserted int64 int64 fm_err
  | U_Find_Update int64 int64 int64 image image
  | U_Update int64 int64 int64 image fm_i32 image
  | U_Updated int64 int64 int64 fm_err
  | U_Find_Delete int64 image
  | U_Delete int64 fm_i32 image
  | U_Deleted int64 fm_err

record unique_state =
  ut_core :: FM_SHARE_CORE
  ut_shadow :: "(int64 \<times> int64) list"
  ut_live :: int
  ut_dups :: int
  ut_mtx :: "nat option"
  ut_pc :: "nat \<Rightarrow> unique_pc"
  ut_failures :: nat

definition NSLOTS :: int64 where
  "NSLOTS = 200"

definition unique_init :: "FM_SHARE_CORE \<Rightarrow> nat \<Rightarrow> unique_state" where
  "unique_init s f = \<lparr> ut_core = s, ut_shadow = [], ut_live = 0, ut_dups = 0, ut_mtx = None, ut_pc = (\<lambda>_. U_Loop), ut_failures = f \<rparr>"

definition ut_count :: "unique_state \<Rightarrow> int64 \<Rightarrow> bool" where
  "ut_count st k = (map_of (ut_shadow st) k \<noteq> None)"

definition ut_fail :: "unique_state \<Rightarrow> unique_state" where
  "ut_fail st = st\<lparr> ut_failures := ut_failures st + 1 \<rparr>"

definition ut_erase :: "int64 \<Rightarrow> unique_state \<Rightarrow> unique_state" where
  "ut_erase k st = st\<lparr> ut_shadow := AList.delete k (ut_shadow st) \<rparr>"

definition ut_put :: "int64 \<Rightarrow> int64 \<Rightarrow> unique_state \<Rightarrow> unique_state" where
  "ut_put k v st = st\<lparr> ut_shadow := AList.update k v (ut_shadow st) \<rparr>"

definition ut_add_live :: "int \<Rightarrow> unique_state \<Rightarrow> unique_state" where
  "ut_add_live d st = st\<lparr> ut_live := ut_live st + d \<rparr>"

definition ut_goto :: "nat \<Rightarrow> unique_pc \<Rightarrow> unique_state \<Rightarrow> unique_state" where
  "ut_goto t p st = st\<lparr> ut_pc := (ut_pc st)(t := p) \<rparr>"

section \<open>The bookkeeping in the critical sections\<close>

definition book_insert :: "int64 \<Rightarrow> int64 \<Rightarrow> fm_err \<Rightarrow> unique_state \<Rightarrow> unique_state" where
  "book_insert k v rc st =
     (if rc = FM_ERR_OK then
        let st = (if ut_count st k then ut_fail st else st)
        in ut_add_live 1 (ut_put k v st)
      else if rc = FM_ERR_DUP_KEY then
        (if \<not> ut_count st k then st\<lparr> ut_dups := ut_dups st + 1 \<rparr> else st)
      else ut_fail st)"

definition book_update :: "int64 \<Rightarrow> int64 \<Rightarrow> int64 \<Rightarrow> fm_err \<Rightarrow> unique_state \<Rightarrow> unique_state" where
  "book_update k v nk rcu st =
     (if rcu = FM_ERR_OK then
        let st = (if nk \<noteq> k \<and> ut_count st nk then ut_fail st else st)
        in ut_put nk v (ut_erase k st)
      else if rcu = FM_ERR_DUP_KEY then
        (if \<not> ut_count st k then ut_fail st else st)
      else if rcu = FM_ERR_DELETED then ut_add_live (-1) (ut_erase k st)
      else ut_fail st)"

definition book_delete :: "int64 \<Rightarrow> fm_err \<Rightarrow> unique_state \<Rightarrow> unique_state" where
  "book_delete k rcd st =
     (let st = (if rcd = FM_ERR_OK then ut_add_live (-1) (ut_erase k st) else st);
          st = (if rcd = FM_ERR_OK \<or> rcd = FM_ERR_DELETED then st else ut_fail st)
      in if ut_live st \<ge> 0 then st else ut_fail st)"

section \<open>Steps of a thread\<close>

text \<open>A call of the core and the mutex sections of the test are one step each.\<close>

inductive unique_step :: "nat \<Rightarrow> unique_state \<Rightarrow> unique_state \<Rightarrow> bool" where
  insert:
  "ut_pc st t = U_Loop \<Longrightarrow> unat k < unat NSLOTS \<Longrightarrow> unat v < 1000000 \<Longrightarrow> length scratch = sizeof_Rec \<Longrightarrow>
   fm_core_insert_row (ut_core st) (Rec_image \<lparr> rec_k = k, rec_v = v \<rparr>) (-1) (Some 0) scratch = Some (s, rc, idx, ek, scratch') \<Longrightarrow>
   unique_step t st (ut_goto t (U_Inserted k v rc) (st\<lparr> ut_core := s \<rparr>))"
| insert_book:
  "ut_pc st t = U_Inserted k v rc \<Longrightarrow> ut_mtx st = None \<Longrightarrow>
   unique_step t st (ut_goto t U_Loop (book_insert k v rc st))"
| update_enter:
  "ut_pc st t = U_Loop \<Longrightarrow> unat k < unat NSLOTS \<Longrightarrow> unat v < 1000000 \<Longrightarrow> length scratch = sizeof_Rec \<Longrightarrow> ut_mtx st = None \<Longrightarrow>
   map_of (ut_shadow st) k = Some w \<Longrightarrow> nk = (if coin then k else (k + 1000) mod NSLOTS) \<Longrightarrow>
   unique_step t st (ut_goto t (U_Find_Update k v nk (Rec_image \<lparr> rec_k = k, rec_v = w \<rparr>) scratch) (st\<lparr> ut_mtx := Some t \<rparr>))"
| update_found:
  "ut_pc st t = U_Find_Update k v nk orc scratch \<Longrightarrow>
   fm_core_find (ut_core st) 0 (int64_bytes k) scratch (-1) = Some (s, FM_ERR_OK, scratch', idx2) \<Longrightarrow>
   unique_step t st (ut_goto t (U_Update k v nk orc idx2 scratch') (st\<lparr> ut_core := s \<rparr>))"
| update_vanished:
  "ut_pc st t = U_Find_Update k v nk orc scratch \<Longrightarrow>
   fm_core_find (ut_core st) 0 (int64_bytes k) scratch (-1) = Some (s, rc, scratch', idx2) \<Longrightarrow> rc \<noteq> FM_ERR_OK \<Longrightarrow>
   unique_step t st (ut_goto t U_Loop (ut_add_live (-1) (ut_erase k (st\<lparr> ut_core := s, ut_mtx := None \<rparr>))))"
| update_call:
  "ut_pc st t = U_Update k v nk orc idx2 scratch \<Longrightarrow> gen_of (ut_core st) idx2 = Some g \<Longrightarrow>
   fm_core_update_row (ut_core st) idx2 g orc (Rec_image \<lparr> rec_k = nk, rec_v = v \<rparr>) (Some 0) scratch = Some (s, rcu, ek, scratch') \<Longrightarrow>
   unique_step t st (ut_goto t (U_Updated k v nk rcu) (st\<lparr> ut_core := s \<rparr>))"
| update_book:
  "ut_pc st t = U_Updated k v nk rcu \<Longrightarrow>
   unique_step t st (ut_goto t U_Loop (book_update k v nk rcu (st\<lparr> ut_mtx := None \<rparr>)))"
| delete_enter:
  "ut_pc st t = U_Loop \<Longrightarrow> unat k < unat NSLOTS \<Longrightarrow> length scratch = sizeof_Rec \<Longrightarrow> ut_mtx st = None \<Longrightarrow> ut_count st k \<Longrightarrow>
   unique_step t st (ut_goto t (U_Find_Delete k scratch) (st\<lparr> ut_mtx := Some t \<rparr>))"
| delete_find:
  "ut_pc st t = U_Find_Delete k scratch \<Longrightarrow>
   fm_core_find (ut_core st) 0 (int64_bytes k) scratch (-1) = Some (s, rc, scratch', idx2) \<Longrightarrow>
   unique_step t st (ut_goto t (U_Delete k idx2 scratch')
     (st\<lparr> ut_core := s, ut_failures := CHECK (rc = FM_ERR_OK) (ut_failures st) \<rparr>))"
| delete_call:
  "ut_pc st t = U_Delete k idx2 scratch \<Longrightarrow> gen_of (ut_core st) idx2 = Some g \<Longrightarrow>
   fm_core_delete_row (ut_core st) idx2 g scratch = Some (s, rcd, scratch') \<Longrightarrow>
   unique_step t st (ut_goto t (U_Deleted k rcd) (st\<lparr> ut_core := s \<rparr>))"
| delete_book:
  "ut_pc st t = U_Deleted k rcd \<Longrightarrow>
   unique_step t st (ut_goto t U_Loop (book_delete k rcd (st\<lparr> ut_mtx := None \<rparr>)))"

text \<open>A pass of the loop in which the shadow does not have the key changes nothing and is left out. Six threads run.\<close>

definition unique_run_step :: "unique_state \<Rightarrow> unique_state \<Rightarrow> bool" where
  "unique_run_step st st' = (\<exists>t < 6. unique_step t st st')"

section \<open>The verification after the threads have been joined\<close>

partial_function (option) unique_scan :: "FM_SHARE_CORE \<Rightarrow> nat \<Rightarrow> image \<Rightarrow> (int64 \<times> int64) list \<Rightarrow> nat \<Rightarrow> nat \<Rightarrow> ((int64 \<times> int64) list \<times> nat \<times> nat) option" where
  "unique_scan s pos buf found n f = do {
     (rc, pos, buf) \<leftarrow> fm_core_scan_next s pos buf;
     if rc = FM_ERR_OK then
       unique_scan s pos buf (AList.update (int64_at buf 0) (int64_at buf 8) found) (n + 1)
         (CHECK (map_of found (int64_at buf 0) = None) f)
     else Some (found, n, f) }"

definition unique_compare :: "(int64 \<times> int64) list \<Rightarrow> (int64 \<times> int64) list \<Rightarrow> nat \<Rightarrow> nat" where
  "unique_compare shadow found f =
     (if length found \<noteq> length shadow then f + 1
      else CHECK (list_all (\<lambda>kv. map_of found (fst kv) = Some (snd kv)) shadow) f)"

definition unique_finish :: "unique_state \<Rightarrow> image \<Rightarrow> (FM_SHARE_CORE \<times> nat) option" where
  "unique_finish st buf = do {
     (found, n, f) \<leftarrow> unique_scan (ut_core st) 0 buf [] 0 (ut_failures st);
     let f = unique_compare (ut_shadow st) found f;
     s \<leftarrow> fm_core_free_share (ut_core st);
     Some (s, f) }"

section \<open>The invariant\<close>

text \<open>The table is the shadow, corrected by what the holder of \<^verbatim>\<open>mtx\<close> has done and not yet entered, and the rows
  that have been inserted and not yet entered.\<close>

fun pending :: "unique_pc \<Rightarrow> (int64 \<times> int64) option" where
  "pending (U_Inserted k v rc) = (if rc = FM_ERR_OK then Some (k, v) else None)"
| "pending _ = None"

fun holds_mtx :: "unique_pc \<Rightarrow> bool" where
  "holds_mtx U_Loop = False"
| "holds_mtx (U_Inserted k v rc) = False"
| "holds_mtx _ = True"

fun settle :: "unique_pc \<Rightarrow> (int64 \<rightharpoonup> int64) \<Rightarrow> (int64 \<rightharpoonup> int64)" where
  "settle (U_Updated k v nk rcu) S = S(k := None, nk \<mapsto> v)"
| "settle (U_Deleted k rcd) S = S(k := None)"
| "settle _ S = S"

definition settled :: "unique_state \<Rightarrow> int64 \<rightharpoonup> int64" where
  "settled st = (case ut_mtx st of None \<Rightarrow> map_of (ut_shadow st) | Some t \<Rightarrow> settle (ut_pc st t) (map_of (ut_shadow st)))"

definition agree :: "(int64 \<rightharpoonup> int64) \<Rightarrow> (int64 \<rightharpoonup> int64) \<Rightarrow> (nat \<rightharpoonup> int64 \<times> int64) \<Rightarrow> bool" where
  "agree M S P = ((\<forall>k v. M k = Some v \<longleftrightarrow> S k = Some v \<or> (\<exists>t. P t = Some (k, v))) \<and>
     (\<forall>t k v. P t = Some (k, v) \<longrightarrow> S k = None) \<and> (\<forall>t u k v w. P t = Some (k, v) \<longrightarrow> P u = Some (k, w) \<longrightarrow> t = u))"

lemma agreeI:
  assumes "\<And>k v. M k = Some v \<longleftrightarrow> S k = Some v \<or> (\<exists>t. P t = Some (k, v))" "\<And>t k v. P t = Some (k, v) \<Longrightarrow> S k = None"
    "\<And>t u k v w. P t = Some (k, v) \<Longrightarrow> P u = Some (k, w) \<Longrightarrow> t = u"
  shows "agree M S P"
  using assms unfolding agree_def by blast

lemma agreeD:
  assumes "agree M S P"
  shows "M k = Some v \<longleftrightarrow> S k = Some v \<or> (\<exists>t. P t = Some (k, v))" "P t = Some (k, v) \<Longrightarrow> S k = None"
    "P t = Some (k, v) \<Longrightarrow> P u = Some (k, w) \<Longrightarrow> t = u"
  using assms unfolding agree_def by blast+

lemma agree_has: "agree M S P \<Longrightarrow> S k = Some v \<Longrightarrow> M k = Some v"
  by (simp add: agreeD(1))

lemma agree_insert:
  assumes a: "agree M S P" and k: "M k = None" and t: "P t = None"
  shows "agree (M(k \<mapsto> v)) S (P(t \<mapsto> (k, v)))"
proof (rule agreeI)
  have p: "P u \<noteq> Some (k, w)" and s: "S k = None" for u w
    using k agreeD(1) [OF a, of k] by (auto intro: ccontr)
  show "(M(k \<mapsto> v)) k' = Some w \<longleftrightarrow> S k' = Some w \<or> (\<exists>u. (P(t \<mapsto> (k, v))) u = Some (k', w))" for k' w
  proof (cases "k' = k")
    case True
    then show ?thesis using s p by auto
  next
    case False
    then have "(P(t \<mapsto> (k, v))) u = Some (k', w) \<longleftrightarrow> P u = Some (k', w)" for u using t by auto
    then show ?thesis using False agreeD(1) [OF a] by simp
  qed
  show "S k' = None" if "(P(t \<mapsto> (k, v))) u = Some (k', w)" for u k' w
    using that s agreeD(2) [OF a, of u k' w] by (auto split: if_splits)
  show "u = u'" if "(P(t \<mapsto> (k, v))) u = Some (k', w)" "(P(t \<mapsto> (k, v))) u' = Some (k', w')" for u u' k' w w'
    using that p agreeD(3) [OF a, of u k' w u' w'] by (auto split: if_splits)
qed

lemma agree_book:
  assumes a: "agree M S P" and t: "P t = Some (k, v)"
  shows "agree M (S(k \<mapsto> v)) (P(t := None))"
proof (rule agreeI)
  have u: "u = t" if "P u = Some (k, w)" for u w using agreeD(3) [OF a that t] .
  show "M k' = Some w \<longleftrightarrow> (S(k \<mapsto> v)) k' = Some w \<or> (\<exists>u. (P(t := None)) u = Some (k', w))" for k' w
  proof (cases "k' = k")
    case True
    have "M k = Some v" using agreeD(1) [OF a] t by blast
    then show ?thesis using True u by (auto split: if_splits)
  next
    case False
    then have "(P(t := None)) u = Some (k', w) \<longleftrightarrow> P u = Some (k', w)" for u using t by auto
    then show ?thesis using False agreeD(1) [OF a] by simp
  qed
  show "(S(k \<mapsto> v)) k' = None" if "(P(t := None)) u' = Some (k', w)" for u' k' w
    using that u agreeD(2) [OF a, of u' k' w] by (auto split: if_splits)
  show "u = u'" if "(P(t := None)) u = Some (k', w)" "(P(t := None)) u' = Some (k', w')" for u u' k' w w'
    using that agreeD(3) [OF a, of u k' w u' w'] by (auto split: if_splits)
qed

lemma agree_change:
  assumes a: "agree M S P" and k: "S k = Some w"
  shows "agree (M(k := x)) (S(k := x)) P"
proof (rule agreeI)
  have p: "P t \<noteq> Some (k, v)" for t v using agreeD(2) [OF a, of t k v] k by auto
  show "(M(k := x)) k' = Some v \<longleftrightarrow> (S(k := x)) k' = Some v \<or> (\<exists>t. P t = Some (k', v))" for k' v
    using agreeD(1) [OF a] p by (cases "k' = k") auto
  show "(S(k := x)) k' = None" if "P t = Some (k', v)" for t k' v
    using that p agreeD(2) [OF a that] by (cases "k' = k") auto
qed (rule agreeD(3) [OF a])

fun pc_ok :: "FM_SHARE_CORE \<Rightarrow> (int64 \<rightharpoonup> int64) \<Rightarrow> unique_pc \<Rightarrow> bool" where
  "pc_ok s S U_Loop = True"
| "pc_ok s S (U_Inserted k v rc) = (unat k < unat NSLOTS \<and> (rc = FM_ERR_OK \<or> rc = FM_ERR_DUP_KEY))"
| "pc_ok s S (U_Find_Update k v nk orc scratch) = (nk = k \<and> (\<exists>w. S k = Some w \<and> orc = img k w) \<and> length scratch = sizeof_Rec)"
| "pc_ok s S (U_Update k v nk orc idx2 scratch) =
     (nk = k \<and> (\<exists>w. S k = Some w \<and> orc = img k w) \<and> rows s idx2 = Some orc \<and> length scratch = sizeof_Rec)"
| "pc_ok s S (U_Updated k v nk rcu) = (nk = k \<and> rcu = FM_ERR_OK \<and> S k \<noteq> None)"
| "pc_ok s S (U_Find_Delete k scratch) = (S k \<noteq> None \<and> length scratch = sizeof_Rec)"
| "pc_ok s S (U_Delete k idx2 scratch) = ((\<exists>w. S k = Some w \<and> rows s idx2 = Some (img k w)) \<and> length scratch = sizeof_Rec)"
| "pc_ok s S (U_Deleted k rcd) = (rcd = FM_ERR_OK \<and> S k \<noteq> None)"

lemma pc_ok_idle: "\<not> holds_mtx p \<Longrightarrow> pc_ok s S p \<Longrightarrow> pc_ok s' S' p"
  by (cases p) simp_all

lemma pc_ok_mono: "rows s \<subseteq>\<^sub>m rows s' \<Longrightarrow> pc_ok s S p \<Longrightarrow> pc_ok s' S p"
  by (cases p) (auto simp: map_le_def dom_def)

definition unique_inv :: "FM_SHARE_CORE \<Rightarrow> nat \<Rightarrow> unique_state \<Rightarrow> bool" where
  "unique_inv s0 f st = (rec_table (ut_core st) \<and> same_shape s0 (ut_core st) \<and>
     (\<exists>M. stores (rows (ut_core st)) M \<and> agree M (settled st) (\<lambda>t. pending (ut_pc st t)) \<and> dom M \<subseteq> {k. unat k < unat NSLOTS}) \<and>
     (\<forall>t. pc_ok (ut_core st) (map_of (ut_shadow st)) (ut_pc st t)) \<and> (\<forall>t. holds_mtx (ut_pc st t) \<longleftrightarrow> ut_mtx st = Some t) \<and>
     distinct (map fst (ut_shadow st)) \<and> ut_live st = int (card (dom (map_of (ut_shadow st)))) \<and> ut_failures st = f)"

lemma unique_invD:
  assumes "unique_inv s0 f st"
  shows "rec_table (ut_core st)" "same_shape s0 (ut_core st)" "\<And>t. pc_ok (ut_core st) (map_of (ut_shadow st)) (ut_pc st t)"
    "\<And>t. holds_mtx (ut_pc st t) \<longleftrightarrow> ut_mtx st = Some t" "distinct (map fst (ut_shadow st))"
    "ut_live st = int (card (dom (map_of (ut_shadow st))))" "ut_failures st = f"
  using assms by (simp_all add: unique_inv_def)

lemma unique_invE:
  assumes "unique_inv s0 f st"
  obtains M where "stores (rows (ut_core st)) M" "agree M (settled st) (\<lambda>t. pending (ut_pc st t))" "dom M \<subseteq> {k. unat k < unat NSLOTS}"
  using assms unfolding unique_inv_def by blast

text \<open>A step of thread \<open>t\<close>. The others are where they were, and what is known of them still holds.\<close>

lemma unique_inv_step:
  assumes inv: "unique_inv s0 f st" and pcs: "ut_pc st' = (ut_pc st)(t := p)" "pc_ok (ut_core st') (map_of (ut_shadow st')) p"
    and mtx: "\<And>u. ut_mtx st' = Some u \<longleftrightarrow> (if u = t then holds_mtx p else ut_mtx st = Some u)"
    and others: "rows (ut_core st) \<subseteq>\<^sub>m rows (ut_core st') \<and> ut_shadow st' = ut_shadow st \<or> ut_mtx st = None \<or> ut_mtx st = Some t"
    and core: "rec_table (ut_core st')" "same_shape (ut_core st) (ut_core st')"
    and M: "stores (rows (ut_core st')) M" "agree M (settled st') ((\<lambda>t. pending (ut_pc st t))(t := pending p))" "dom M \<subseteq> {k. unat k < unat NSLOTS}"
    and rest: "distinct (map fst (ut_shadow st'))" "ut_live st' = int (card (dom (map_of (ut_shadow st'))))" "ut_failures st' = f"
  shows "unique_inv s0 f st'"
proof -
  note D = unique_invD [OF inv]
  have "pc_ok (ut_core st') (map_of (ut_shadow st')) (ut_pc st u)" if "u \<noteq> t" for u
    using others
  proof (elim disjE conjE)
    assume "rows (ut_core st) \<subseteq>\<^sub>m rows (ut_core st')" "ut_shadow st' = ut_shadow st"
    then show ?thesis using pc_ok_mono D(3) by metis
  qed (use that D(4) [of u] pc_ok_idle [OF _ D(3)] in simp_all)
  then have "pc_ok (ut_core st') (map_of (ut_shadow st')) (ut_pc st' u)" for u using pcs by simp
  moreover have "holds_mtx (ut_pc st' u) \<longleftrightarrow> ut_mtx st' = Some u" for u using mtx D(4) pcs(1) by simp
  moreover have "(\<lambda>u. pending (ut_pc st' u)) = (\<lambda>t. pending (ut_pc st t))(t := pending p)" using pcs(1) by auto
  ultimately show ?thesis
    unfolding unique_inv_def using core same_shape_trans [OF D(2) core(2)] M rest by auto
qed

lemmas ut_defs = ut_goto_def ut_fail_def ut_erase_def ut_put_def ut_add_live_def ut_count_def

lemma next_key: "unat k < unat NSLOTS \<Longrightarrow> (k + 1000) mod NSLOTS = k"
proof -
  assume "unat k < unat NSLOTS"
  then have k: "unat k < 200" by (simp add: NSLOTS_def)
  then have "unat (k + 1000) = unat k + 1000" by (subst unat_plus_simple [THEN iffD1]) (simp_all add: word_le_nat_alt unat_word_ariths)
  moreover have "(unat k + 1000) mod 200 = unat k" using k mod_mult_self2 [of "unat k" 200 5] by simp
  ultimately have "unat ((k + 1000) mod NSLOTS) = unat k" by (simp add: unat_mod NSLOTS_def)
  then show ?thesis by (rule unsigned_word_eqI)
qed

section \<open>Every step keeps the invariant\<close>

lemma settled_other: "\<not> holds_mtx (ut_pc st t) \<Longrightarrow> \<forall>u. holds_mtx (ut_pc st u) \<longleftrightarrow> ut_mtx st = Some u \<Longrightarrow>
    ut_pc st' = (ut_pc st)(t := p) \<Longrightarrow> ut_mtx st' = ut_mtx st \<Longrightarrow> ut_shadow st' = ut_shadow st \<Longrightarrow> settled st' = settled st"
  by (auto simp: settled_def split: option.splits)

lemma key_room:
  assumes "dom M \<subseteq> {k :: int64. unat k < unat NSLOTS}"
  shows "card (dom M) \<le> 200"
proof -
  have "dom M \<subseteq> of_nat ` {..<200}"
  proof
    fix k assume "k \<in> dom M"
    then have "unat k < 200" using assms by (auto simp: NSLOTS_def)
    then show "k \<in> of_nat ` {..<200}" by (intro image_eqI [of _ _ "unat k"]) simp_all
  qed
  then have "card (dom M) \<le> card (of_nat ` {..<200} :: int64 set)" by (rule card_mono [rotated]) simp
  also have "\<dots> \<le> 200" using card_image_le [of "{..<200 :: nat}" "of_nat :: nat \<Rightarrow> int64"] by simp
  finally show ?thesis .
qed

lemma unique_insert_inv:
  assumes inv: "unique_inv s0 f st" "sc_max_records s0 = 2 ^ 20" and pc: "ut_pc st t = U_Loop" and k: "unat k < unat NSLOTS"
    and len: "length scratch = sizeof_Rec" and run: "fm_core_insert_row (ut_core st) (img k v) (-1) (Some 0) scratch = Some (s, rc, idx, ek, sc)"
  shows "unique_inv s0 f (ut_goto t (U_Inserted k v rc) (st\<lparr> ut_core := s \<rparr>))"
proof -
  note D = unique_invD [OF inv(1)]
  let ?st = "ut_goto t (U_Inserted k v rc) (st\<lparr> ut_core := s \<rparr>)"
  obtain M where M: "stores (rows (ut_core st)) M" "agree M (settled st) (\<lambda>t. pending (ut_pc st t))" "dom M \<subseteq> {k. unat k < unat NSLOTS}"
    by (rule unique_invE [OF inv(1)])
  have room: "card (dom M) < sc_max_records (ut_core st)" using key_room [OF M(3)] D(2) inv(2) by (simp add: same_shape_def)
  have set: "settled ?st = settled st"
    by (rule settled_other [where t = t and p = "U_Inserted k v rc"]) (use D(4) pc in \<open>simp_all add: ut_goto_def\<close>)
  have nt: "ut_mtx st \<noteq> Some t" using D(4) [of t] pc by simp
  note step = unique_inv_step [OF inv(1), where t = t and p = "U_Inserted k v rc" and st' = ?st]
  show ?thesis
  proof (cases rule: rec_insert [OF D(1) M(1) room len, where k = k and v = v and out = "-1" and ek = "Some 0"])
    case (1 s' i sc')
    then have e: "s = s'" "rc = FM_ERR_OK" using run by simp_all
    show ?thesis
    proof (rule step [where M = "M(k \<mapsto> v)"])
      show "agree (M(k \<mapsto> v)) (settled ?st) ((\<lambda>t. pending (ut_pc st t))(t := pending (U_Inserted k v rc)))"
        unfolding set using agree_insert [OF M(2) 1(2), of t v] pc e(2) by simp
      show "rows (ut_core st) \<subseteq>\<^sub>m rows (ut_core ?st) \<and> ut_shadow ?st = ut_shadow st \<or> ut_mtx st = None \<or> ut_mtx st = Some t"
        using 1(5,6) e by (auto simp: ut_goto_def map_le_def)
    qed (use D 1 e k M(3) nt in \<open>auto simp: ut_goto_def\<close>)
  next
    case (2 s' sc')
    then have e: "s = s'" "rc = FM_ERR_DUP_KEY" using run by simp_all
    have "(\<lambda>t. pending (ut_pc st t))(t := None) = (\<lambda>t. pending (ut_pc st t))" using pc by auto
    then show ?thesis
      by (intro step [where M = M]) (use D 2 e k M nt set in \<open>auto simp: ut_goto_def map_le_def\<close>)
  qed
qed

lemma unique_insert_book_inv:
  assumes inv: "unique_inv s0 f st" and pc: "ut_pc st t = U_Inserted k v rc" and mtx: "ut_mtx st = None"
  shows "unique_inv s0 f (ut_goto t U_Loop (book_insert k v rc st))"
proof -
  note D = unique_invD [OF inv]
  let ?st = "ut_goto t U_Loop (book_insert k v rc st)"
  obtain M where M: "stores (rows (ut_core st)) M" "agree M (map_of (ut_shadow st)) (\<lambda>t. pending (ut_pc st t))" "dom M \<subseteq> {k. unat k < unat NSLOTS}"
    by (rule unique_invE [OF inv]) (use mtx in \<open>simp add: settled_def\<close>)
  note step = unique_inv_step [OF inv, where t = t and p = U_Loop and st' = ?st]
  have rc: "rc = FM_ERR_OK \<or> rc = FM_ERR_DUP_KEY" using D(3) [of t] pc by simp
  then show ?thesis
  proof
    assume rc: "rc = FM_ERR_OK"
    then have P: "pending (ut_pc st t) = Some (k, v)" using pc by simp
    have new: "map_of (ut_shadow st) k = None" using agreeD(2) [OF M(2) P] .
    have st: "book_insert k v rc st = ut_add_live 1 (ut_put k v st)" using rc new by (simp add: book_insert_def ut_count_def)
    have sh: "map_of (ut_shadow ?st) = (map_of (ut_shadow st))(k \<mapsto> v)" by (simp add: st ut_defs update_conv')
    have "settled ?st = map_of (ut_shadow ?st)" using mtx by (simp add: settled_def st ut_defs)
    then have a: "agree M (settled ?st) ((\<lambda>t. pending (ut_pc st t))(t := pending U_Loop))"
      using agree_book [OF M(2) P] sh by simp
    have "finite (dom (map_of (ut_shadow st)))" by (rule finite_dom_map_of)
    then have "card (dom (map_of (ut_shadow ?st))) = card (dom (map_of (ut_shadow st))) + 1"
      unfolding sh using new by (simp add: card_insert_if domIff)
    then show ?thesis
      by (intro step [where M = M, OF _ _ _ _ _ _ _ a M(3)])
        (use D M(1) mtx in \<open>auto simp: st ut_defs distinct_update split: if_splits\<close>)
  next
    assume rc: "rc = FM_ERR_DUP_KEY"
    then have e: "(\<lambda>t. pending (ut_pc st t))(t := None) = (\<lambda>t. pending (ut_pc st t))" using pc by auto
    show ?thesis
      by (rule step [where M = M]) (use rc D M mtx e in \<open>auto simp: book_insert_def ut_defs settled_def\<close>)
  qed
qed

text \<open>The steps of an update or a delete before the call: \<^verbatim>\<open>mtx\<close> is free or held by the thread, and the shadow and the
  table stay as they are.\<close>

lemma unique_hold_inv:
  assumes inv: "unique_inv s0 f st" and mtx: "ut_mtx st = None \<or> ut_mtx st = Some t" and p: "holds_mtx p" "pc_ok (ut_core st) (map_of (ut_shadow st)) p"
    and plain: "settle p = (\<lambda>S. S)" "settle (ut_pc st t) = (\<lambda>S. S)" "pending (ut_pc st t) = None"
  shows "unique_inv s0 f (ut_goto t p (st\<lparr> ut_mtx := Some t \<rparr>))"
proof -
  note D = unique_invD [OF inv]
  obtain M where M: "stores (rows (ut_core st)) M" "agree M (settled st) (\<lambda>t. pending (ut_pc st t))" "dom M \<subseteq> {k. unat k < unat NSLOTS}"
    by (rule unique_invE [OF inv])
  have "settled st = map_of (ut_shadow st)" using mtx plain(2) by (auto simp: settled_def)
  moreover have "(\<lambda>t. pending (ut_pc st t))(t := pending p) = (\<lambda>t. pending (ut_pc st t))" using plain(3) p(1) by (cases p) auto
  ultimately show ?thesis
    by (intro unique_inv_step [OF inv, where t = t and p = p and M = M]) (use D M p plain(1) mtx in \<open>auto simp: ut_goto_def settled_def\<close>)
qed

lemma unique_shadow_row:
  assumes inv: "unique_inv s0 f st" and mtx: "settled st = map_of (ut_shadow st)" and k: "map_of (ut_shadow st) k = Some w" and len: "length scratch = sizeof_Rec"
  obtains i where "fm_core_find (ut_core st) 0 (int64_bytes k) scratch (-1) = Some (ut_core st, FM_ERR_OK, img k w, i)" "rows (ut_core st) i = Some (img k w)"
proof -
  obtain M where M: "stores (rows (ut_core st)) M" "agree M (settled st) (\<lambda>t. pending (ut_pc st t))"
    by (rule unique_invE [OF inv])
  have m: "M k = Some w" using agree_has [OF M(2)] k mtx by simp
  show thesis
    by (rule rec_find [OF unique_invD(1) [OF inv] M(1) len int64_at_self [of k], where out = "-1"]) (use that m in auto)
qed

lemma unique_update_call_inv:
  assumes inv: "unique_inv s0 f st" and pc: "ut_pc st t = U_Update k v nk orc idx2 scratch" and g: "gens (ut_core st) idx2 = Some g"
    and run: "fm_core_update_row (ut_core st) idx2 g orc (img nk v) (Some 0) scratch = Some (s, rcu, ek, sc)"
  shows "unique_inv s0 f (ut_goto t (U_Updated k v nk rcu) (st\<lparr> ut_core := s \<rparr>))"
proof -
  note D = unique_invD [OF inv]
  have mtx: "ut_mtx st = Some t" using D(4) [of t] pc by simp
  obtain w where w: "nk = k" "map_of (ut_shadow st) k = Some w" "orc = img k w" "rows (ut_core st) idx2 = Some (img k w)" "length scratch = sizeof_Rec"
    using D(3) [of t] pc by auto
  obtain M where M: "stores (rows (ut_core st)) M" "agree M (map_of (ut_shadow st)) (\<lambda>t. pending (ut_pc st t))" "dom M \<subseteq> {k. unat k < unat NSLOTS}"
    by (rule unique_invE [OF inv]) (use mtx pc in \<open>simp add: settled_def\<close>)
  obtain s' sc' where s': "fm_core_update_row (ut_core st) idx2 g (img k w) (img k v) (Some 0) scratch = Some (s', FM_ERR_OK, Some 0, sc')"
    "rec_table s'" "stores (rows s') (M(k := None, k \<mapsto> v))" "same_shape (ut_core st) s'"
    by (rule rec_update [OF D(1) M(1) w(4) g w(5), where k' = k and v' = v and ek = "Some 0"]) auto
  have e: "s = s'" "rcu = FM_ERR_OK" using run s'(1) w by simp_all
  have a: "agree (M(k \<mapsto> v)) ((map_of (ut_shadow st))(k \<mapsto> v)) (\<lambda>t. pending (ut_pc st t))" by (rule agree_change [OF M(2) w(2)])
  have "(\<lambda>t. pending (ut_pc st t))(t := None) = (\<lambda>t. pending (ut_pc st t))" using pc by auto
  moreover have "k \<in> dom M" using agree_has [OF M(2) w(2)] by auto
  ultimately show ?thesis
    by (intro unique_inv_step [OF inv, where t = t and p = "U_Updated k v nk rcu" and M = "M(k \<mapsto> v)"])
      (use D s' e w M(3) a mtx in \<open>auto simp: ut_goto_def settled_def\<close>)
qed

lemma unique_update_book_inv:
  assumes inv: "unique_inv s0 f st" and pc: "ut_pc st t = U_Updated k v nk rcu"
  shows "unique_inv s0 f (ut_goto t U_Loop (book_update k v nk rcu (st\<lparr> ut_mtx := None \<rparr>)))"
proof -
  note D = unique_invD [OF inv]
  have mtx: "ut_mtx st = Some t" using D(4) [of t] pc by simp
  have w: "nk = k" "rcu = FM_ERR_OK" "map_of (ut_shadow st) k \<noteq> None" using D(3) [of t] pc by auto
  obtain M where M: "stores (rows (ut_core st)) M" "agree M ((map_of (ut_shadow st))(k \<mapsto> v)) (\<lambda>t. pending (ut_pc st t))" "dom M \<subseteq> {k. unat k < unat NSLOTS}"
    by (rule unique_invE [OF inv]) (use mtx pc w in \<open>simp add: settled_def\<close>)
  have "(\<lambda>t. pending (ut_pc st t))(t := None) = (\<lambda>t. pending (ut_pc st t))" using pc by auto
  moreover have "insert k (dom (map_of (ut_shadow st))) = dom (map_of (ut_shadow st))" using w(3) by auto
  ultimately show ?thesis
    by (intro unique_inv_step [OF inv, where t = t and p = U_Loop and M = M])
      (use D M w mtx in \<open>auto simp: book_update_def ut_defs settled_def update_conv' delete_conv' distinct_update distinct_delete\<close>)
qed

lemma unique_delete_call_inv:
  assumes inv: "unique_inv s0 f st" and pc: "ut_pc st t = U_Delete k idx2 scratch" and g: "gens (ut_core st) idx2 = Some g"
    and run: "fm_core_delete_row (ut_core st) idx2 g scratch = Some (s, rcd, sc)"
  shows "unique_inv s0 f (ut_goto t (U_Deleted k rcd) (st\<lparr> ut_core := s \<rparr>))"
proof -
  note D = unique_invD [OF inv]
  have mtx: "ut_mtx st = Some t" using D(4) [of t] pc by simp
  obtain w where w: "map_of (ut_shadow st) k = Some w" "rows (ut_core st) idx2 = Some (img k w)" "length scratch = sizeof_Rec"
    using D(3) [of t] pc by auto
  obtain M where M: "stores (rows (ut_core st)) M" "agree M (map_of (ut_shadow st)) (\<lambda>t. pending (ut_pc st t))" "dom M \<subseteq> {k. unat k < unat NSLOTS}"
    by (rule unique_invE [OF inv]) (use mtx pc in \<open>simp add: settled_def\<close>)
  obtain s' where s': "fm_core_delete_row (ut_core st) idx2 g scratch = Some (s', FM_ERR_OK, img k w)"
    "rec_table s'" "stores (rows s') (M(k := None))" "same_shape (ut_core st) s'"
    by (rule rec_delete [OF D(1) M(1) w(2) g w(3)])
  have e: "s = s'" "rcd = FM_ERR_OK" using run s'(1) by simp_all
  have a: "agree (M(k := None)) ((map_of (ut_shadow st))(k := None)) (\<lambda>t. pending (ut_pc st t))" by (rule agree_change [OF M(2) w(1)])
  have "(\<lambda>t. pending (ut_pc st t))(t := None) = (\<lambda>t. pending (ut_pc st t))" using pc by auto
  then show ?thesis
    by (intro unique_inv_step [OF inv, where t = t and p = "U_Deleted k rcd" and M = "M(k := None)"])
      (use D s' e w M(3) a mtx in \<open>auto simp: ut_goto_def settled_def\<close>)
qed

lemma unique_delete_book_inv:
  assumes inv: "unique_inv s0 f st" and pc: "ut_pc st t = U_Deleted k rcd"
  shows "unique_inv s0 f (ut_goto t U_Loop (book_delete k rcd (st\<lparr> ut_mtx := None \<rparr>)))"
proof -
  note D = unique_invD [OF inv]
  have mtx: "ut_mtx st = Some t" using D(4) [of t] pc by simp
  have w: "rcd = FM_ERR_OK" "map_of (ut_shadow st) k \<noteq> None" using D(3) [of t] pc by auto
  obtain M where M: "stores (rows (ut_core st)) M" "agree M ((map_of (ut_shadow st))(k := None)) (\<lambda>t. pending (ut_pc st t))" "dom M \<subseteq> {k. unat k < unat NSLOTS}"
    by (rule unique_invE [OF inv]) (use mtx pc in \<open>simp add: settled_def\<close>)
  let ?d = "dom (map_of (ut_shadow st))"
  have k: "k \<in> ?d" "finite ?d" using w(2) finite_dom_map_of by auto
  then have "0 < card ?d" by (auto simp: card_gt_0_iff)
  then have c: "int (card (?d - {k})) = int (card ?d) - 1" "0 < card ?d" using k by (simp_all add: card_Diff_singleton of_nat_diff Suc_leI)
  have "(\<lambda>t. pending (ut_pc st t))(t := None) = (\<lambda>t. pending (ut_pc st t))" using pc by auto
  then show ?thesis
    by (intro unique_inv_step [OF inv, where t = t and p = U_Loop and M = M])
      (use D M w mtx c in \<open>auto simp: book_delete_def ut_defs settled_def delete_conv' distinct_delete\<close>)
qed

lemma unique_step_inv:
  assumes step: "unique_step t st st'" and inv: "unique_inv s0 f st" and mr: "sc_max_records s0 = 2 ^ 20"
  shows "unique_inv s0 f st'"
  using step inv
proof cases
  case (insert k v scratch s rc idx ek scratch')
  then show ?thesis using unique_insert_inv [OF inv mr] by blast
next
  case (insert_book k v rc)
  then show ?thesis using unique_insert_book_inv [OF inv] by blast
next
  case (update_enter k v scratch w nk coin)
  then have "nk = k" using next_key by simp
  then show ?thesis unfolding update_enter(1) using update_enter by (intro unique_hold_inv [OF inv]) (auto simp: fun_eq_iff)
next
  case (update_found k v nk orc scratch s scratch' idx2)
  note D = unique_invD [OF inv]
  have mtx: "ut_mtx st = Some t" using D(4) [of t] update_found by simp
  obtain w where w: "nk = k" "map_of (ut_shadow st) k = Some w" "orc = img k w" "length scratch = sizeof_Rec"
    using D(3) [of t] update_found(2) by auto
  have "settled st = map_of (ut_shadow st)" using mtx update_found(2) by (simp add: settled_def)
  then obtain i where i: "fm_core_find (ut_core st) 0 (int64_bytes k) scratch (-1) = Some (ut_core st, FM_ERR_OK, img k w, i)"
    "rows (ut_core st) i = Some (img k w)" by (rule unique_shadow_row [OF inv _ w(2,4)])
  have e: "st\<lparr> ut_core := s \<rparr> = st\<lparr> ut_mtx := Some t \<rparr>" using i(1) update_found(3) mtx by simp
  show ?thesis unfolding update_found(1) e
    by (rule unique_hold_inv [OF inv]) (use i w update_found mtx in \<open>auto simp: fun_eq_iff\<close>)
next
  case (update_vanished k v nk orc scratch s rc scratch' idx2)
  note D = unique_invD [OF inv]
  obtain w where w: "map_of (ut_shadow st) k = Some w" "length scratch = sizeof_Rec"
    using D(3) [of t] update_vanished(2) by auto
  have "settled st = map_of (ut_shadow st)" using D(4) [of t] update_vanished(2) by (simp add: settled_def)
  then show ?thesis by (rule unique_shadow_row [OF inv _ w]) (use update_vanished in simp)
next
  case (update_call k v nk orc idx2 scratch g s rcu ek scratch')
  then show ?thesis using unique_update_call_inv [OF inv] by (simp add: gen_of_gens)
next
  case (update_book k v nk rcu)
  then show ?thesis using unique_update_book_inv [OF inv] by blast
next
  case (delete_enter k scratch)
  then show ?thesis by (simp only: delete_enter(1)) (rule unique_hold_inv [OF inv], auto simp: fun_eq_iff ut_count_def)
next
  case (delete_find k scratch s rc scratch' idx2)
  note D = unique_invD [OF inv]
  have mtx: "ut_mtx st = Some t" using D(4) [of t] delete_find by simp
  obtain w where w: "map_of (ut_shadow st) k = Some w" "length scratch = sizeof_Rec" using D(3) [of t] delete_find(2) by auto
  have "settled st = map_of (ut_shadow st)" using mtx delete_find(2) by (simp add: settled_def)
  then obtain i where i: "fm_core_find (ut_core st) 0 (int64_bytes k) scratch (-1) = Some (ut_core st, FM_ERR_OK, img k w, i)"
    "rows (ut_core st) i = Some (img k w)" by (rule unique_shadow_row [OF inv _ w])
  have e: "st\<lparr> ut_core := s, ut_failures := CHECK (rc = FM_ERR_OK) (ut_failures st) \<rparr> = st\<lparr> ut_mtx := Some t \<rparr>"
    using i(1) delete_find(3) mtx by simp
  show ?thesis unfolding delete_find(1) e
    by (rule unique_hold_inv [OF inv]) (use i w delete_find mtx in \<open>auto simp: fun_eq_iff\<close>)
next
  case (delete_call k idx2 scratch g s rcd scratch')
  then show ?thesis using unique_delete_call_inv [OF inv] by (simp add: gen_of_gens)
next
  case (delete_book k rcd)
  then show ?thesis using unique_delete_book_inv [OF inv] by blast
qed

interpretation unique: machine unique_run_step "\<lambda>st. unique_inv s0 f st \<and> sc_max_records s0 = 2 ^ 20" for s0 f
  by unfold_locales (auto simp: unique_run_step_def intro: unique_step_inv)

section \<open>The verification finds the shadow\<close>

definition scanned_to :: "FM_SHARE_CORE \<Rightarrow> nat \<Rightarrow> (int64 \<times> int64) list \<Rightarrow> bool" where
  "scanned_to s pos found = (distinct (map fst found) \<and>
     (\<forall>k v. map_of found k = Some v \<longleftrightarrow> (\<exists>j < pos. rows s (int j) = Some (img k v))))"

lemma scanned_to_next:
  assumes t: "rec_table s" and M: "stores (rows s) M" and f: "scanned_to s pos found"
    and p: "pos < p" "rows s (int (p - 1)) = Some (img k v)" "\<forall>j. pos \<le> j \<longrightarrow> j < p - 1 \<longrightarrow> rows s (int j) = None"
  shows "map_of found k = None" "scanned_to s p (AList.update k v found)"
proof -
  have u: "j = p - 1" if "rows s (int j) = Some (img k w)" for j w
    using rec_one_per_key [OF t] that p(2) unfolding one_per_key_def by (metis Rec_image_at(1) Rec.select_convs(1) of_nat_eq_iff)
  show new: "map_of found k = None"
  proof (rule ccontr)
    assume "map_of found k \<noteq> None"
    then obtain w j where "j < pos" "rows s (int j) = Some (img k w)" using f by (auto simp: scanned_to_def)
    then show False using u p(1) by fastforce
  qed
  have "map_of (AList.update k v found) k' = Some w \<longleftrightarrow> (\<exists>j < p. rows s (int j) = Some (img k' w))" for k' w
  proof -
    have split: "j < p \<longleftrightarrow> j < pos \<or> pos \<le> j \<and> j < p - 1 \<or> j = p - 1" for j using p(1) by auto
    have "(\<exists>j < p. rows s (int j) = Some (img k' w)) \<longleftrightarrow> map_of found k' = Some w \<or> k' = k \<and> w = v"
      using f p unfolding scanned_to_def split by auto
    then show ?thesis using new by (auto simp: update_conv')
  qed
  then show "scanned_to s p (AList.update k v found)" using f by (simp add: scanned_to_def distinct_update)
qed

lemma unique_scan_run:
  assumes t: "rec_table s" and M: "stores (rows s) M"
  shows "scanned_to s pos found \<Longrightarrow> length buf = sizeof_Rec \<Longrightarrow>
    \<exists>found' n'. unique_scan s pos buf found n f = Some (found', n', f) \<and> map_of found' = M \<and> distinct (map fst found')"
proof (induction "sc_chunk_cnt s * FM_CHUNK_SIZE - pos" arbitrary: pos found buf n rule: less_induct)
  case less
  note D = rec_tableD [OF t]
  have "length buf = sc_reclength s" using less(3) D(4) by simp
  from scan_next_scanned [OF D(1) this, of pos] obtain rc p bf where sc: "fm_core_scan_next s pos buf = Some (rc, p, bf)"
    "rc = FM_ERR_OK \<and> pos < p \<and> rows s (int (p - 1)) = Some bf \<and> (\<forall>j. pos \<le> j \<longrightarrow> j < p - 1 \<longrightarrow> rows s (int j) = None)
     \<or> rc = FM_ERR_EOF \<and> (\<forall>j \<ge> pos. rows s (int j) = None)" unfolding scanned_def by blast
  from sc(2) show ?case
  proof (elim disjE conjE)
    assume r: "rc = FM_ERR_OK" "pos < p" "rows s (int (p - 1)) = Some bf" "\<forall>j. pos \<le> j \<longrightarrow> j < p - 1 \<longrightarrow> rows s (int j) = None"
    obtain k v where b: "bf = img k v" by (rule storesE [OF M r(3)])
    note nx = scanned_to_next [OF t M less(2) r(2) r(3) [unfolded b] r(4)]
    have "fm_slot s (int (p - 1)) \<noteq> None" using rows_slot [OF r(3)] by auto
    then have "p - 1 < sc_chunk_cnt s * FM_CHUNK_SIZE" using slot_exists [OF core_invD(1) [OF D(1)]] by (metis of_nat_less_iff)
    then have "sc_chunk_cnt s * FM_CHUNK_SIZE - p < sc_chunk_cnt s * FM_CHUNK_SIZE - pos" using r(2) by simp
    then obtain found' n' where "unique_scan s p bf (AList.update k v found) (n + 1) f = Some (found', n', f)" "map_of found' = M" "distinct (map fst found')"
      using less(1) nx(2) b by (metis Rec_image_length)
    then show ?thesis using sc(1) r(1) nx(1) b by (subst unique_scan.simps) simp
  next
    assume r: "rc = FM_ERR_EOF" "\<forall>j \<ge> pos. rows s (int j) = None"
    have nat: "\<exists>j. i = int j" if "rows s i = Some q" for i q
      using rows_slot [OF that] slot_exists [OF core_invD(1) [OF D(1)], of i] by (auto intro: zero_le_imp_eq_int)
    have "map_of found k = Some v \<longleftrightarrow> M k = Some v" for k v
    proof
      assume "map_of found k = Some v"
      then obtain j where "rows s (int j) = Some (img k v)" using less(2) by (auto simp: scanned_to_def)
      then show "M k = Some v" by (rule storesE [OF M]) auto
    next
      assume "M k = Some v"
      then obtain j where j: "rows s (int j) = Some (img k v)" using stores_has [OF M] nat by metis
      moreover have "j < pos" using r(2) j by (metis linorder_not_le option.distinct(1))
      ultimately show "map_of found k = Some v" using less(2) by (auto simp: scanned_to_def)
    qed
    then have "map_of found = M" by (intro ext) (metis option.exhaust)
    then show ?thesis using sc(1) r(1) less(2) by (subst unique_scan.simps) (simp add: scanned_to_def)
  qed
qed

lemma alist_size: "distinct (map fst xs) \<Longrightarrow> length xs = card (dom (map_of xs))"
  by (metis distinct_card dom_map_of_conv_image_fst length_map list.set_map)

lemma unique_finish_run:
  assumes inv: "unique_inv s0 f st" and idle: "\<And>t. ut_pc st t = U_Loop" and len: "length buf = sizeof_Rec"
    and mem: "sc_live s0 = blocks s0" "(sc_keydef s0 = None) = (sc_keys s0 = 0)"
  shows "\<exists>z. unique_finish st buf = Some (z, f) \<and> sc_live z = 0"
proof -
  note D = unique_invD [OF inv]
  have "ut_mtx st = None" using D(4) idle by (metis holds_mtx.simps(1) not_None_eq)
  then have "settled st = map_of (ut_shadow st)" by (simp add: settled_def)
  then obtain M where M: "stores (rows (ut_core st)) M" "agree M (map_of (ut_shadow st)) (\<lambda>t. pending (ut_pc st t))"
    using unique_invE [OF inv] by metis
  have "M k = Some v \<longleftrightarrow> map_of (ut_shadow st) k = Some v" for k v using agreeD(1) [OF M(2), of k v] idle by simp
  then have m: "M = map_of (ut_shadow st)" by (intro ext) (metis option.exhaust)
  have "scanned_to (ut_core st) 0 []" by (simp add: scanned_to_def)
  then obtain found n where f: "unique_scan (ut_core st) 0 buf [] 0 f = Some (found, n, f)" "map_of found = M" "distinct (map fst found)"
    using unique_scan_run [OF D(1) M(1) _ len] by blast
  have "length found = length (ut_shadow st)" using alist_size [OF f(3)] alist_size [OF D(5)] f(2) m by simp
  moreover have "list_all (\<lambda>kv. map_of found (fst kv) = Some (snd kv)) (ut_shadow st)"
    using f(2) m D(5) by (auto simp: list_all_iff)
  ultimately have c: "unique_compare (ut_shadow st) found f = f" by (simp add: unique_compare_def)
  obtain z where z: "fm_core_free_share (ut_core st) = Some z" "sc_live z = 0"
    by (rule test_share_free [OF rec_tableD(1) [OF D(1)] D(2) mem])
  then show ?thesis using f(1) c D(7) by (simp add: unique_finish_def)
qed

section \<open>The whole test\<close>

lemma unique_step_pc: "unique_step t st st' \<Longrightarrow> u \<noteq> t \<Longrightarrow> ut_pc st' u = ut_pc st u"
  by (cases rule: unique_step.cases) (auto simp: book_insert_def book_update_def book_delete_def Let_def ut_defs)

lemma unique_run_pc: "unique_run_step\<^sup>*\<^sup>* (unique_init s f) st \<Longrightarrow> 6 \<le> t \<Longrightarrow> ut_pc st t = U_Loop"
proof (induction rule: rtranclp_induct)
  case (step st st')
  then obtain u where "u < 6" "unique_step u st st'" by (auto simp: unique_run_step_def)
  then show ?case using step unique_step_pc [of u st st' t] by simp
qed (simp add: unique_init_def)

text \<open>No thread is stuck: a thread that does not wait for \<^verbatim>\<open>mtx\<close> can go on.\<close>

lemma unique_progress:
  assumes inv: "unique_inv s0 f st" "sc_max_records s0 = 2 ^ 20" and mtx: "ut_mtx st = None \<or> ut_mtx st = Some t"
  shows "\<exists>st'. unique_step t st st'"
proof -
  note D = unique_invD [OF inv(1)]
  obtain M where M: "stores (rows (ut_core st)) M" "dom M \<subseteq> {k. unat k < unat NSLOTS}" by (rule unique_invE [OF inv(1)])
  have gen: "\<exists>g. gens (ut_core st) i = Some g" if "rows (ut_core st) i = Some r" for i r
    using rows_slot [OF that] by (auto simp: gens_def)
  have set: "settled st = map_of (ut_shadow st)" if "settle (ut_pc st t) = (\<lambda>S. S)" using that mtx by (auto simp: settled_def)
  show ?thesis
  proof (cases "ut_pc st t")
    case U_Loop
    have room: "card (dom M) < sc_max_records (ut_core st)" using key_room [OF M(2)] D(2) inv(2) by (simp add: same_shape_def)
    have "\<exists>r. fm_core_insert_row (ut_core st) (img 0 0) (-1) (Some 0) (img 0 0) = Some r"
      by (rule rec_insert [OF D(1) M(1) room, where scratch = "img 0 0" and k = 0 and v = 0 and out = "-1" and ek = "Some 0"]) auto
    then obtain s rc i ek sc where "fm_core_insert_row (ut_core st) (img 0 0) (-1) (Some 0) (img 0 0) = Some (s, rc, i, ek, sc)" by auto
    then show ?thesis using insert [where k = 0 and v = 0 and scratch = "img 0 0", OF U_Loop] by (auto simp: NSLOTS_def)
  next
    case (U_Inserted k v rc)
    then have "ut_mtx st = None" using D(4) [of t] mtx by auto
    then show ?thesis using U_Inserted by (blast intro: insert_book)
  next
    case (U_Find_Update k v nk orc scratch)
    then obtain w where w: "map_of (ut_shadow st) k = Some w" "length scratch = sizeof_Rec" using D(3) [of t] by auto
    have "settled st = map_of (ut_shadow st)" by (rule set) (simp add: U_Find_Update fun_eq_iff)
    then obtain i where "fm_core_find (ut_core st) 0 (int64_bytes k) scratch (-1) = Some (ut_core st, FM_ERR_OK, img k w, i)"
      by (rule unique_shadow_row [OF inv(1) _ w])
    then show ?thesis using U_Find_Update by (blast intro: update_found)
  next
    case (U_Update k v nk orc i scratch)
    then obtain w where w: "nk = k" "orc = img k w" "rows (ut_core st) i = Some (img k w)" "length scratch = sizeof_Rec" using D(3) [of t] by auto
    obtain g where g: "gens (ut_core st) i = Some g" using gen [OF w(3)] by blast
    have "\<exists>r. fm_core_update_row (ut_core st) i g (img k w) (img k v) (Some 0) scratch = Some r"
      by (rule rec_update [OF D(1) M(1) w(3) g w(4), where k' = k and v' = v and ek = "Some 0"]) auto
    then obtain s rcu ek sc where "fm_core_update_row (ut_core st) i g orc (img nk v) (Some 0) scratch = Some (s, rcu, ek, sc)" using w by auto
    then show ?thesis using update_call [OF U_Update, of g] g unfolding gen_of_gens by blast
  next
    case (U_Find_Delete k scratch)
    then obtain w where w: "map_of (ut_shadow st) k = Some w" "length scratch = sizeof_Rec" using D(3) [of t] by auto
    have "settled st = map_of (ut_shadow st)" by (rule set) (simp add: U_Find_Delete fun_eq_iff)
    then obtain i where "fm_core_find (ut_core st) 0 (int64_bytes k) scratch (-1) = Some (ut_core st, FM_ERR_OK, img k w, i)"
      by (rule unique_shadow_row [OF inv(1) _ w])
    then show ?thesis using U_Find_Delete by (blast intro: delete_find)
  next
    case (U_Delete k i scratch)
    then obtain w where w: "rows (ut_core st) i = Some (img k w)" "length scratch = sizeof_Rec" using D(3) [of t] by auto
    obtain g where g: "gens (ut_core st) i = Some g" using gen [OF w(1)] by blast
    obtain s where "fm_core_delete_row (ut_core st) i g scratch = Some (s, FM_ERR_OK, img k w)"
      by (rule rec_delete [OF D(1) M(1) w(1) g w(2)])
    then show ?thesis using delete_call [OF U_Delete, of g] g unfolding gen_of_gens by blast
  qed (blast intro: update_book delete_book)+
qed

lemma unique_start:
  assumes "never_fails malloc"
  obtains s0 where "test_share malloc sizeof_Rec (2 ^ 20) [(hk0_ops, True)] = Some s0" "unique_inv s0 f (unique_init s0 f)" "sc_max_records s0 = 2 ^ 20"
    "sc_live s0 = blocks s0" "(sc_keydef s0 = None) = (sc_keys s0 = 0)" "rows s0 = Map.empty"
proof -
  obtain s0 where s0: "test_share malloc sizeof_Rec (2 ^ 20) [(hk0_ops, True)] = Some s0" "core_inv s0" "quiet s0" "rows s0 = Map.empty" "wlocked s0 = {}"
    "sc_keys s0 = 1" "sc_reclength s0 = sizeof_Rec" "kstat s0 0 = Some (hk0_ops, True, 64)" "sc_max_records s0 = 2 ^ 20" "\<not> alloc_fails s0"
    "sc_live s0 = blocks s0" "(sc_keydef s0 = None) = (sc_keys s0 = 0)"
    by (rule test_share_run [OF assms, where ws = "[(hk0_ops, True)]" and mr = "2 ^ 20" and rl = sizeof_Rec]) (simp_all add: hk_ops_ok)
  have "rec_table s0" using s0 by (simp add: rec_table_def)
  moreover have "agree Map.empty Map.empty (\<lambda>t. None)" by (simp add: agree_def)
  ultimately have "unique_inv s0 f (unique_init s0 f)"
    using s0(4) unfolding unique_inv_def unique_init_def by (simp add: settled_def) (rule exI [of _ Map.empty], simp)
  then show thesis by (rule that [OF s0(1) _ s0(9,11,12,4)])
qed

text \<open>Test B of the standalone test, with every call of the core as one step. In every interleaving of the calls of the six threads no check
  fails and no thread gets stuck in a call; and when the threads are at the end of their loops, the verification of the table
  against the shadow passes and the share gives its memory back.\<close>

theorem test_unique_key_passes:
  assumes "never_fails malloc" "test_share malloc sizeof_Rec (2 ^ 20) [(hk0_ops, True)] = Some s0"
    and "unique_run_step\<^sup>*\<^sup>* (unique_init s0 f) st" "length buf = sizeof_Rec"
  shows "ut_failures st = f \<and> (\<forall>t. ut_mtx st = None \<or> ut_mtx st = Some t \<longrightarrow> (\<exists>st'. unique_step t st st')) \<and>
    ((\<forall>t < 6. ut_pc st t = U_Loop) \<longrightarrow> (\<exists>z. unique_finish st buf = Some (z, f) \<and> sc_live z = 0))"
proof -
  obtain s where "test_share malloc sizeof_Rec (2 ^ 20) [(hk0_ops, True)] = Some s" "unique_inv s f (unique_init s f)" "sc_max_records s = 2 ^ 20"
    "sc_live s = blocks s" "(sc_keydef s = None) = (sc_keys s = 0)" by (rule unique_start [OF assms(1)])
  then have s0: "unique_inv s0 f (unique_init s0 f)" "sc_max_records s0 = 2 ^ 20" "sc_live s0 = blocks s0" "(sc_keydef s0 = None) = (sc_keys s0 = 0)"
    using assms(2) by simp_all
  then have inv: "unique_inv s0 f st" using unique.reach_good [OF assms(3)] by blast
  have "ut_pc st t = U_Loop" if "\<forall>t < 6. ut_pc st t = U_Loop" for t
    using that unique_run_pc [OF assms(3), of t] by (cases "t < 6") auto
  then show ?thesis
    using unique_invD(7) [OF inv] unique_progress [OF inv s0(2)] unique_finish_run [OF inv _ assms(4) s0(3,4)] by blast
qed

theorem test_unique_key_passes_witness:
  "\<exists>s0 st. unique_run_step\<^sup>*\<^sup>* (unique_init s0 0) st \<and> ut_pc st 0 = U_Inserted 5 7 FM_ERR_OK \<and> ut_failures st = 0 \<and> (\<exists>st'. unique_step 0 st st') \<and>
    (\<exists>z. unique_finish (unique_init s0 0) (img 0 0) = Some (z, 0) \<and> sc_live z = 0)"
proof -
  have m: "never_fails (\<lambda>_ _. True)" by (simp add: never_fails_def)
  obtain s0 where s0: "test_share (\<lambda>_ _. True) sizeof_Rec (2 ^ 20) [(hk0_ops, True)] = Some s0" "unique_inv s0 0 (unique_init s0 0)"
    "sc_max_records s0 = 2 ^ 20" "rows s0 = Map.empty" by (rule unique_start [OF m])
  have "rec_table s0" "stores (rows s0) Map.empty" using unique_invD(1) [OF s0(2)] s0(4) by (simp_all add: unique_init_def)
  then obtain s i sc where s: "fm_core_insert_row s0 (img 5 7) (-1) (Some 0) (img 0 0) = Some (s, FM_ERR_OK, i, Some 0, sc)"
    by (rule rec_insert [where scratch = "img 0 0" and k = 5 and v = 7 and out = "-1" and ek = "Some 0"]) (use s0(3) in auto)
  let ?st = "ut_goto 0 (U_Inserted 5 7 FM_ERR_OK) ((unique_init s0 0)\<lparr> ut_core := s \<rparr>)"
  have "unique_step 0 (unique_init s0 0) ?st"
    by (rule insert [where scratch = "img 0 0"]) (use s in \<open>simp_all add: unique_init_def NSLOTS_def\<close>)
  then have run: "unique_run_step\<^sup>*\<^sup>* (unique_init s0 0) ?st" by (intro r_into_rtranclp) (auto simp: unique_run_step_def intro!: exI [of _ 0])
  have "ut_mtx ?st = None" "ut_pc ?st 0 = U_Inserted 5 7 FM_ERR_OK" by (simp_all add: ut_goto_def unique_init_def)
  moreover have "ut_failures ?st = 0" "ut_mtx ?st = None \<longrightarrow> (\<exists>st'. unique_step 0 ?st st')"
    using test_unique_key_passes [OF m s0(1) run, of "img 0 0"] by simp_all
  moreover have "\<exists>z. unique_finish (unique_init s0 0) (img 0 0) = Some (z, 0) \<and> sc_live z = 0"
    using test_unique_key_passes [OF m s0(1) rtranclp.rtrancl_refl, of "img 0 0" 0] by (simp add: unique_init_def)
  ultimately show ?thesis using run by blast
qed

end
