(* ===== verification/FM_Insert_Trace.thy ===== *)
theory FM_Insert_Trace
  imports FM_Insert
begin

text \<open>
  More about an insert that succeeds: which slot it takes and what remains of the free list, and what the duplicate checks leave in
  the scratch buffer.
\<close>

section \<open>The scratch buffer\<close>

text \<open>A buffer after reads: it is as before, or it holds the image of a row.\<close>

definition from_rows :: "FM_SHARE_CORE \<Rightarrow> image \<Rightarrow> image \<Rightarrow> bool" where
  "from_rows s a b = (length b = sc_reclength s \<and> (b = a \<or> b \<in> ran (rows s)))"

lemma from_rows_trans: "from_rows s a b \<Longrightarrow> from_rows s b c \<Longrightarrow> from_rows s a c"
  by (auto simp: from_rows_def)

lemma from_rows_refl: "length a = sc_reclength s \<Longrightarrow> from_rows s a a"
  by (simp add: from_rows_def)

lemma read_row_buffer:
  assumes "fm_core_read_row s i c g buf = Some (rc, b)" "slots_ok s" "length buf = sc_reclength s"
  shows "from_rows s buf b"
proof -
  obtain sl where sl: "fm_slot s i = Some sl" using assms(1) by (auto simp: fm_core_read_row_def bind_eq_Some_conv)
  show ?thesis
  proof (cases "rc = FM_ERR_OK")
    case True
    then have "sl_state sl = FM_SLOT_ACTIVE" "b = memcpy buf (sl_data sl) (sc_reclength s)"
      using assms(1) sl by (auto simp: fm_core_read_row_def split: if_splits)
    moreover then have "rows s i = Some (sl_data sl)" using sl by (simp add: rows_def)
    moreover then have "length (sl_data sl) = sc_reclength s" by (rule row_length [OF assms(2)])
    ultimately show ?thesis using assms(3) by (auto simp: from_rows_def ran_def)
  next
    case False
    then show ?thesis using assms sl by (auto simp: fm_core_read_row_def from_rows_def split: if_splits)
  qed
qed

lemma dup_loop_buffer:
  "dup_loop s k kc rec h scratch = Some y \<Longrightarrow> slots_ok s \<longrightarrow> length scratch = sc_reclength s \<longrightarrow> from_rows s scratch (snd y)"
proof (erule dup_loop.raw_induct [where P = "\<lambda>s k kc rec h scratch y. slots_ok s \<longrightarrow> length scratch = sc_reclength s \<longrightarrow> from_rows s scratch (snd y)", rotated])
  fix loop :: "FM_SHARE_CORE \<Rightarrow> nat \<Rightarrow> FM_KEY_CORE \<Rightarrow> image \<Rightarrow> fm_i32 \<Rightarrow> image \<Rightarrow> (fm_err \<times> image) option"
    and s k kc rec h scratch y
  assume IH: "\<And>s k kc rec h scratch y. loop s k kc rec h scratch = Some y \<Longrightarrow>
      slots_ok s \<longrightarrow> length scratch = sc_reclength s \<longrightarrow> from_rows s scratch (snd y)"
    and run: "(if h = FM_NULL_SLOT then Some (FM_ERR_OK, scratch)
      else do {
        (rc, scratch) \<leftarrow> fm_core_read_row s h False 0 scratch;
        c \<leftarrow> (if rc = FM_ERR_OK then cmp_rec kc scratch rec else Some 1);
        if rc = FM_ERR_OK \<and> c = 0 then Some (FM_ERR_DUP_KEY, scratch)
        else do { n \<leftarrow> fm_key_next s k h; loop s k kc rec n scratch } }) = Some y"
  show "slots_ok s \<longrightarrow> length scratch = sc_reclength s \<longrightarrow> from_rows s scratch (snd y)"
  proof (intro impI)
    assume ok: "slots_ok s" "length scratch = sc_reclength s"
    show "from_rows s scratch (snd y)"
    proof (cases "h = FM_NULL_SLOT")
      case True
      then show ?thesis using run ok by (auto simp: from_rows_def)
    next
      case False
      then obtain rc b where rd: "fm_core_read_row s h False 0 scratch = Some (rc, b)"
        and rest: "y = (FM_ERR_DUP_KEY, b) \<or> (\<exists>n. loop s k kc rec n b = Some y)"
        using run by (auto simp: bind_eq_Some_conv split: if_splits)
      have f: "from_rows s scratch b" by (rule read_row_buffer [OF rd ok])
      then have "length b = sc_reclength s" by (simp add: from_rows_def)
      then have "from_rows s b (snd y)" using rest IH [of s k kc rec _ b y] ok(1) from_rows_refl [of b s] by auto
      with f show ?thesis by (rule from_rows_trans)
    qed
  qed
qed

lemma dup_check_buffer:
  assumes "fm_core_dup_check s k b rec scratch = Some (rc, sc)" "slots_ok s" "length scratch = sc_reclength s"
  shows "from_rows s scratch sc"
  using assms dup_loop_buffer [of s k _ rec _ scratch "(rc, sc)"]
  by (auto simp: fm_core_dup_check_def bind_eq_Some_conv from_rows_def split: if_splits)

section \<open>The key loop leaves the slots alone\<close>

lemma bucket_frame:
  "lock_bucket s k b = Some t \<Longrightarrow> fm_slot t = fm_slot s \<and> sc_free_head t = sc_free_head s \<and> sc_reclength t = sc_reclength s"
  "unlock_bucket s k b = Some t \<Longrightarrow> fm_slot t = fm_slot s \<and> sc_free_head t = sc_free_head s \<and> sc_reclength t = sc_reclength s"
  "fm_core_chain_link s k b i = Some t \<Longrightarrow> fm_slot t = fm_slot s \<and> sc_free_head t = sc_free_head s \<and> sc_reclength t = sc_reclength s"
  by (auto simp: lock_bucket_def unlock_bucket_def fm_core_chain_link_def bind_eq_Some_conv fun_eq_iff)

lemma from_rows_cong: "fm_slot t = fm_slot s \<Longrightarrow> sc_reclength t = sc_reclength s \<Longrightarrow> from_rows t a b = from_rows s a b"
  using rows_cong [of t s] by (simp add: from_rows_def)

lemma slots_ok_slots: "fm_slot t = fm_slot s \<Longrightarrow> sc_reclength t = sc_reclength s \<Longrightarrow> slots_ok t = slots_ok s"
  by (simp add: slots_ok_def slot_ok_def)

lemma insert_keys_trace:
  "insert_keys n k s r i scratch = Some (u, sc, None) \<Longrightarrow> slots_ok s \<Longrightarrow> length scratch = sc_reclength s \<Longrightarrow>
     from_rows s scratch sc \<and> fm_slot u = fm_slot s \<and> sc_free_head u = sc_free_head s"
proof (induction n arbitrary: k s scratch)
  case 0
  then show ?case by (auto intro: from_rows_refl)
next
  case (Suc n)
  obtain kc where kc: "get_key s k = Some kc" using Suc.prems(1) by (auto simp: bind_eq_Some_conv)
  have "\<exists>b t1 sc1 t2 t3. lock_bucket s k b = Some t1 \<and> (sc1 = scratch \<or> (\<exists>d. fm_core_dup_check t1 k b r scratch = Some (d, sc1))) \<and>
    fm_core_chain_link t1 k b i = Some t2 \<and> unlock_bucket t2 k b = Some t3 \<and> insert_keys n (Suc k) t3 r i sc1 = Some (u, sc, None)"
    using Suc.prems(1) kc by (cases "hash_rec (kc_ops kc)") (auto simp: bind_eq_Some_conv split: if_splits, blast+)
  then obtain b t1 sc1 t2 t3 where run: "lock_bucket s k b = Some t1" "sc1 = scratch \<or> (\<exists>d. fm_core_dup_check t1 k b r scratch = Some (d, sc1))"
    "fm_core_chain_link t1 k b i = Some t2" "unlock_bucket t2 k b = Some t3" "insert_keys n (Suc k) t3 r i sc1 = Some (u, sc, None)"
    by blast
  have f1: "fm_slot t1 = fm_slot s" "sc_free_head t1 = sc_free_head s" "sc_reclength t1 = sc_reclength s" using bucket_frame(1) [OF run(1)] by auto
  have f3: "fm_slot t3 = fm_slot s" "sc_free_head t3 = sc_free_head s" "sc_reclength t3 = sc_reclength s"
    using bucket_frame(3) [OF run(3)] bucket_frame(2) [OF run(4)] f1 by auto
  have ok: "slots_ok t1" "length scratch = sc_reclength t1" using Suc.prems(2,3) f1 slots_ok_slots [OF f1(1,3)] by simp_all
  have "from_rows t1 scratch sc1"
    using run(2) dup_check_buffer [OF _ ok] from_rows_refl [OF ok(2)] by auto
  then have a: "from_rows s scratch sc1" using from_rows_cong [OF f1(1,3)] by simp
  then have "length sc1 = sc_reclength t3" using f3(3) by (simp add: from_rows_def)
  then have "from_rows t3 sc1 sc \<and> fm_slot u = fm_slot t3 \<and> sc_free_head u = sc_free_head t3"
    using Suc.IH [OF run(5)] slots_ok_slots [OF f3(1,3)] Suc.prems(2) by simp
  then show ?case using a f3 from_rows_cong [OF f3(1,3)] from_rows_trans by auto
qed

section \<open>The slot and the free list\<close>

lemma insert_row_trace:
  assumes inv: "core_inv s" "quiet s" and len: "length scratch = sc_reclength s" "length r = sc_reclength s"
    and run: "fm_core_insert_row s r out ek scratch = Some (s', FM_ERR_OK, i, ek', sc)"
  obtains a where "fm_core_alloc_slot (s\<lparr> sc_struct_mutex := True \<rparr>) = Some (a, i)" "i \<noteq> FM_NULL_SLOT" "from_rows s scratch sc"
    "sc_free_head s' = sc_free_head a" "free_next s' = free_next a"
proof -
  let ?b = "s\<lparr> sc_struct_mutex := True \<rparr>"
  have lk: "lock_struct s = Some ?b" using inv(2) by (simp add: lock_struct_def spin_lock_def quiet_def)
  from run lk obtain a sl u su where a: "fm_core_alloc_slot ?b = Some (a, i)" "i \<noteq> FM_NULL_SLOT" and sl: "fm_slot a i = Some sl"
    and keys: "insert_keys (sc_keys a) 0 (upd_slot a i (sl\<lparr> sl_data := memcpy (sl_data sl) r (sc_reclength a) \<rparr>)) r i scratch = Some (u, sc, None)"
    and su: "fm_slot u i = Some su" and s': "s' = unlock_struct ((upd_slot u i (su\<lparr> sl_state := FM_SLOT_ACTIVE \<rparr>))\<lparr> sc_records := sc_records u + 1 \<rparr>)"
    by (auto simp: fm_core_insert_row_def Let_def bind_eq_Some_conv split: if_splits option.splits)
  define w where "w = upd_slot a i (sl\<lparr> sl_data := memcpy (sl_data sl) r (sc_reclength a) \<rparr>)"
  have "core_inv ?b" using inv(1) by simp
  then have A: "core_hole a i" "same_table ?b a" by (cases rule: alloc_slot_cases, use a in auto)+
  have lr: "length r = sc_reclength a" using A(2) len(2) by (simp add: same_table_def)
  note W = hole_write [OF A(1) sl lr, folded w_def]
  have rw: "rows w = rows s" "sc_reclength w = sc_reclength s" "slots_ok w"
    using W(1,2) A(2) core_holeD(3) [OF W(1)] by (auto simp: same_table_def)
  have T: "from_rows w scratch sc" "fm_slot u = fm_slot w" "sc_free_head u = sc_free_head w"
    using insert_keys_trace [OF keys [folded w_def] rw(3)] len(1) rw(2) by auto
  have "fm_slot w i = Some (sl\<lparr> sl_data := memcpy (sl_data sl) r (sc_reclength a) \<rparr>)" using sl by (simp add: w_def)
  then have "su = sl\<lparr> sl_data := memcpy (sl_data sl) r (sc_reclength a) \<rparr>" using su T(2) by simp
  moreover have "free_next u = free_next w" using T(2) by (simp add: free_next_def fun_eq_iff)
  ultimately have "free_next s' = free_next a"
    using sl su by (auto simp: s' w_def unlock_struct_def free_next_def fun_eq_iff)
  moreover have "sc_free_head s' = sc_free_head a" using T(3) by (simp add: s' w_def unlock_struct_def)
  moreover have "from_rows s scratch sc" using T(1) rw by (simp add: from_rows_def)
  ultimately show thesis using that [OF a] by simp
qed

text \<open>The first insert into an empty table takes slot 0 and the slots of the first chunk follow in order.\<close>

definition next_slots :: "FM_SHARE_CORE \<Rightarrow> fm_i32 list \<Rightarrow> bool" where
  "next_slots s xs = linked (free_next s) (sc_free_head s) xs"

lemma next_slots_pop:
  assumes "core_inv s" "quiet s" "length scratch = sc_reclength s" "length r = sc_reclength s" "next_slots s (x # xs)"
    and run: "fm_core_insert_row s r out ek scratch = Some (s', FM_ERR_OK, i, ek', sc)"
  shows "i = x" "next_slots s' xs"
proof -
  obtain a where a: "fm_core_alloc_slot (s\<lparr> sc_struct_mutex := True \<rparr>) = Some (a, i)" "sc_free_head s' = sc_free_head a" "free_next s' = free_next a"
    by (rule insert_row_trace [OF assms(1-4) run])
  obtain n where n: "sc_free_head s = x" "0 \<le> x" "free_next s x = Some n" "linked (free_next s) n xs"
    using assms(5) by (auto simp: next_slots_def)
  then have "a = s\<lparr> sc_struct_mutex := True, sc_free_head := n \<rparr>" "i = x"
    using a(1) by (auto simp: fm_core_alloc_slot_def free_next_def bind_eq_Some_conv)
  moreover then have "free_next a = free_next s" by (auto simp: free_next_def fun_eq_iff)
  ultimately show "i = x" "next_slots s' xs" using n a(2,3) by (simp_all add: next_slots_def)
qed

lemma next_slots_first:
  assumes "core_inv s" "quiet s" "length scratch = sc_reclength s" "length r = sc_reclength s"
    and "sc_free_head s = FM_NULL_SLOT" "sc_chunk_cnt s = 0" "FM_CHUNK_SIZE \<le> sc_max_records s"
    and run: "fm_core_insert_row s r out ek scratch = Some (s', FM_ERR_OK, i, ek', sc)"
  shows "i = 0" "next_slots s' (map int [1..<FM_CHUNK_SIZE])"
proof -
  let ?b = "s\<lparr> sc_struct_mutex := True \<rparr>"
  obtain a where a: "fm_core_alloc_slot ?b = Some (a, i)" "i \<noteq> FM_NULL_SLOT" "sc_free_head s' = sc_free_head a" "free_next s' = free_next a"
    by (rule insert_row_trace [OF assms(1-4) run])
  have b: "core_inv ?b" using assms(1) by simp
  obtain cs where cs: "sc_chunks ?b = Some cs" using core_invD(1) [OF assms(1)] by (auto simp: sizes_ok_def)
  have lt: "sc_chunk_cnt ?b < sc_chunk_cap ?b" using cap_chunks [OF core_invD(1) [OF assms(1)]] assms(6,7) by simp
  have "i = 0 \<and> free_list a (map int [1..<FM_CHUNK_SIZE])"
  proof (cases rule: grow_chunk_result [OF cs])
    case (1 m l)
    show ?thesis
      by (rule alloc_fresh [OF b _ cs 1]) (use a(1) assms(5-7) in \<open>simp_all add: min_absorb2\<close>)
  qed (use a(1,2) lt assms(5,6) in \<open>auto simp: fm_core_alloc_slot_def Let_def split: if_splits\<close>)
  then show "i = 0" "next_slots s' (map int [1..<FM_CHUNK_SIZE])" using a(3,4) by (simp_all add: next_slots_def free_list_def)
qed

end
