(* ===== verification/FM_Standalone_Torn.thy ===== *)
theory FM_Standalone_Torn
  imports FM_Standalone FM_Insert_Trace FM_Seqlock
begin

text \<open>
  Test A of \<^verbatim>\<open>standalone-test/main.cpp\<close>: four threads rewrite rows that they look up by key and two threads scan the table and check that no
  image they get is a mix. The threads run at the grain of \<^verbatim>\<open>FM_Seqlock\<close>: every slot is a state of that machine, an update writes its image byte by byte between
  the two increments of the sequence number, and a reader copies byte by byte and checks the sequence number again. The counters of the
  reads and writes, which are only printed, are left out.
\<close>

section \<open>Set-up\<close>

record Rec2 =
  r2_k :: int64
  r2_magic :: int64
  r2_v :: int64

definition Rec2_image :: "Rec2 \<Rightarrow> image" where
  "Rec2_image r = int64_bytes (r2_k r) @ int64_bytes (r2_magic r) @ int64_bytes (r2_v r)"

definition Rec2_at :: "image \<Rightarrow> Rec2" where
  "Rec2_at b = \<lparr> r2_k = int64_at b 0, r2_magic = int64_at b 8, r2_v = int64_at b 16 \<rparr>"

definition sizeof_Rec2 :: nat where
  "sizeof_Rec2 = 24"





section \<open>Threads\<close>










section \<open>Records\<close>

lemma Rec2_image_at [simp]: "int64_at (Rec2_image r) 0 = r2_k r" "int64_at (Rec2_image r) 8 = r2_magic r" "int64_at (Rec2_image r) 16 = r2_v r"
  unfolding Rec2_image_def by (auto intro!: int64_at_bytes simp: byte_at_def nth_append)

lemma Rec2_image_length [simp]: "length (Rec2_image r) = sizeof_Rec2"
  by (simp add: Rec2_image_def sizeof_Rec2_def)

lemma Rec2_at_image [simp]: "Rec2_at (Rec2_image r) = r"
  by (simp add: Rec2_at_def)




section \<open>The set-up passes\<close>






section \<open>A slot under the threads\<close>









section \<open>All threads\<close>













section \<open>The whole test\<close>




end
