(* ===== verification/Spec2Isabelle.thy ===== *)
theory Spec2Isabelle
  imports FM_Tables FM_Session_Runs FM_Locks FM_Seqlock FM_Race FM_Standalone_Serial FM_Standalone_Unique FM_Standalone_Torn
begin

text \<open>
  FASTMEM, a storage engine of MariaDB that keeps tables in memory: a verification of its C++ sources.

  \<^bold>\<open>The program.\<close> The engine has four layers, and a test program that uses the first of them on its own.

  \<^item> The core, \<^verbatim>\<open>src/fm_core.h\<close>, keeps a table in chunks of fixed-size slots. A slot has a state, a write lock, a sequence
    number, a generation and a record image. Rows are found through hash chains, one set of buckets per key with a lock
    per bucket; free slots are in a list under the mutex of the share. Readers copy images under the sequence number. The
    counter of an auto-increment column is advanced by compare-and-exchange.
  \<^item> The key functions, \<^verbatim>\<open>src/fm_hash.cc\<close>, hash, compare and pack keys over column descriptions; the core
    calls them through pointers.
  \<^item> The row operations on an open handle, \<^verbatim>\<open>src/fm_data.cc\<close>, and the registry of tables, \<^verbatim>\<open>src/fm_create.cc\<close>, which creates,
    opens, closes, drops and renames tables under one mutex.
  \<^item> The handler, \<^verbatim>\<open>src/ha_fastmem.cc\<close>, is what the server calls. In a write statement it holds the write lock of the row it has
    read until it updates or deletes the row or moves on.

  \<^bold>\<open>The model.\<close> C++ functions are functions in the option monad over an explicit state: \<open>None\<close> is a call
  that does not return or is undefined (a wait for a lock that is not released, a null pointer, an access out of
  bounds, memory that was freed). Return codes are values of \<open>fm_err\<close> and \<open>ha_err\<close>. \<^verbatim>\<open>uint8_t\<close>, \<^verbatim>\<open>uint32_t\<close> and \<^verbatim>\<open>uint64_t\<close> are words of
  that width, slot numbers are integers with the conversion \<open>fm_i32_of\<close> written out, other counters are natural numbers
  with \<open>u32\<close> where the code truncates. A loop over an index is \<open>foldM\<close>; a walk along a chain, which might not end on a
  corrupted table, is a \<open>partial_function (option)\<close>, and the theorems say that it returns. No fuel is used. The
  allocator is a function that says which allocation succeeds; what the server provides (collations, bit
  access, number formats, the description of a table, the clock, the server's part of an auto-increment column) is a
  parameter.

  \<^bold>\<open>Theories.\<close>

  \<^item> \<^verbatim>\<open>FM_Prelude\<close>: machine types, memory copies, loops, linked lists in memory cells (locale \<open>cell_store\<close>), step relations
    with an invariant (locale \<open>machine\<close>), labelled runs and their simulation (locale \<open>simulation\<close>).
  \<^item> \<^verbatim>\<open>FM_State\<close>, \<^verbatim>\<open>FM_Slots\<close>, \<^verbatim>\<open>FM_Chains\<close>: the records of the core and its address arithmetic, set-up and removal of a share, reading a
    row, allocating a slot, chains, lookups and scans, the duplicate check. \<open>cell_store\<close> is interpreted by the chain links and by
    the free list.
  \<^item> \<^verbatim>\<open>FM_Invariant\<close>, \<^verbatim>\<open>FM_Chain_Laws\<close>, \<^verbatim>\<open>FM_Reads\<close>, \<^verbatim>\<open>FM_Alloc_Laws\<close>, \<^verbatim>\<open>FM_Write_Laws\<close>: the contract of the key callbacks (locale \<open>key_callbacks\<close>),
    the invariant \<open>core_inv\<close>, the rows of a table as a map from slots to images (\<open>rows\<close>) with their generations (\<open>gens\<close>), and
    what the operations of the preceding theories do to them.
  \<^item> \<^verbatim>\<open>FM_Insert\<close>, \<^verbatim>\<open>FM_Lockset\<close>, \<^verbatim>\<open>FM_Update\<close>, \<^verbatim>\<open>FM_Delete\<close>, \<^verbatim>\<open>FM_Clear\<close>, \<^verbatim>\<open>FM_Lifecycle\<close>: the writing operations of the core, definitions and correctness.
  \<^item> \<^verbatim>\<open>FM_Table\<close>, \<^verbatim>\<open>FM_Runs\<close>, with the concrete table of \<^verbatim>\<open>FM_Example\<close>: the outcome of each core call on every branch; sequences of calls
    from the creation of a table, each call labelled with its arguments and results, and that the labels of every run are those of a run of
    an abstract table (rows by slot, their generations, the limit); memory and bounds over a run.
  \<^item> \<^verbatim>\<open>FM_Race\<close>: an update of another thread between the two sections of an insert.
  \<^item> \<^verbatim>\<open>FM_Seqlock\<close>: readers and writers of one slot interleaved byte by byte.
  \<^item> \<^verbatim>\<open>FM_AutoInc\<close>: the counter, and its calls interleaved.
  \<^item> \<^verbatim>\<open>FM_Hash\<close>: \<^verbatim>\<open>fm_hash.cc\<close>, and that its functions satisfy \<open>key_callbacks\<close> for the columns where they do.
  \<^item> \<^verbatim>\<open>FM_Data\<close>, \<^verbatim>\<open>FM_Data_Laws\<close>: \<^verbatim>\<open>fm_data.cc\<close>, and positions as references (locale \<open>row_refs\<close>, interpreted by the core).
  \<^item> \<^verbatim>\<open>FM_Registry\<close>, \<^verbatim>\<open>FM_Registry_Laws\<close>, \<^verbatim>\<open>FM_Registry_Runs\<close>: \<^verbatim>\<open>fm_create.cc\<close>, and sequences of registry calls with row operations
    in between: counts of handles, ownership of memory blocks, calls that return.
  \<^item> \<^verbatim>\<open>FM_Standalone\<close>, \<^verbatim>\<open>FM_Standalone_Serial\<close>, \<^verbatim>\<open>FM_Standalone_Unique\<close>, \<^verbatim>\<open>FM_Standalone_Torn\<close>: the standalone test of the core, a client that
    calls it without the server. Its callbacks satisfy \<open>key_callbacks\<close>; a table of its records is a map from keys to values; its four
    tests pass. The torn-read test runs byte by byte, each of its slots a state of the machine of \<^verbatim>\<open>FM_Seqlock\<close>; the unique-key test in every interleaving
    of whole calls of the core. \<^verbatim>\<open>FM_Insert_Trace\<close> has what they need about inserts:
    the order in which slots are taken, and the scratch buffer.
  \<^item> \<^verbatim>\<open>FM_Handler\<close>, \<^verbatim>\<open>FM_Sessions\<close>, \<^verbatim>\<open>FM_Session_Runs\<close>: \<^verbatim>\<open>ha_fastmem.cc\<close>, and the calls of any number of handlers on one table interleaved, with
    the lookup and the lock of a read as separate steps, \<^verbatim>\<open>find_unique_row\<close> among the reads, and a write that takes the row lock itself.
  \<^item> \<^verbatim>\<open>FM_Tables\<close>: the handler and the registry together, any number of handlers that create, open, clone, close, drop and rename tables.
  \<^item> \<^verbatim>\<open>FM_Locks\<close>: every call as the sequence of its lock operations, and calls interleaved lock by lock. The locale \<open>lock_order\<close>
    derives freedom from deadlock from a rank of the locks; it is interpreted by the operations of the core and by the methods of the
    handler. The calls on lock sets and on the row lock are proved to be these sequences.

  \<^bold>\<open>Granularity.\<close> Four concurrency protocols are modelled step by step: the copy of an image against writers
  (\<^verbatim>\<open>FM_Seqlock\<close>), the exchange loop of the counter (\<^verbatim>\<open>FM_AutoInc\<close>), the row locks of the handlers (\<^verbatim>\<open>FM_Sessions\<close>), and the order in which
  calls take and release locks (\<^verbatim>\<open>FM_Locks\<close>, which leaves open what a call does under its locks). The torn-read test of the standalone program has the grain of \<^verbatim>\<open>FM_Seqlock\<close>. An insert is also split at the point where it
  has released its bucket locks (\<^verbatim>\<open>FM_Race\<close>). Elsewhere a core
  call is one step, from a state in which no other call is under way (\<open>quiet\<close>); write locks that other handlers hold
  are part of the state. Memory is sequentially consistent.

  \<^bold>\<open>Bounds.\<close> The theorems on tables assume what \<open>core_inv\<close> says: at most 64 keys (as many as an update
  handles), a limit on rows that leaves slot numbers within 31 bits, callbacks that satisfy their contract. The set-up
  code is proved to establish it for limits up to \<open>2 ^ 31 - 4096\<close> (\<open>create_ok\<close>); the code itself does not check the limit. Slots are taken to have at
  most 1 MB, beyond which the 32-bit offset computed by \<^verbatim>\<open>fm_slot\<close> wraps. Sequence numbers and generations are 32-bit words; the theorems on torn reads and
  on positions say how many increments they cover. Where the code needs a condition that it does not check (keys with a BIT or a VARCHAR
  segment, intervals of the counter beyond 64 bits, allocation failures in the set-up of a core, BTREE keys), the theorem has it as a hypothesis, and a theorem beside it
  shows for most of them what happens otherwise.

  \<^bold>\<open>Not modelled.\<close> The constants of the cost model, the capability flags and the plugin declaration
  in \<^verbatim>\<open>ha_fastmem.cc\<close> and \<^verbatim>\<open>ha_fastmem.h\<close>, which compute nothing from the state of the engine; \<^verbatim>\<open>main()\<close> of the standalone test, which calls its four tests; error messages;
  alignment and padding of memory blocks; weak memory orders.
\<close>

end
